(* ===== verification/Prelude.thy ===== *)
theory Prelude
  imports Main "HOL-Library.Char_ord" "HOL-Library.List_Lexorder"
begin

text \<open>
  What every component shares: the type names of the model, the model of the two ordered
  containers of the C++ standard library the program uses (\<open>std::map\<close> and the key
  sequence of a \<open>std::map\<close> or \<open>std::set\<close>), their laws as locales, and the
  collections of rewrite rules the component theories fill.

  A \<open>std::map\<close> is the list of its entries in key order, so that a loop over the map
  from \<open>begin()\<close> to \<open>end()\<close> is a recursion over the list.  Keys are
  descriptors (\<open>int\<close>) or strings; strings are ordered as \<open>std::string\<close> orders
  them, byte by byte and a proper prefix first.
\<close>

type_synonym fd = int

named_theorems frame_simps \<open>parts of the server state an operation leaves alone\<close>
named_theorems map_simps \<open>lookups after an update of an ordered map\<close>

section \<open>Ordered maps: the interface\<close>

locale ordered_map =
  fixes look :: "'m \<Rightarrow> 'k::linorder \<Rightarrow> 'v option"
    and put :: "'k \<Rightarrow> 'v \<Rightarrow> 'm \<Rightarrow> 'm"
    and del :: "'k \<Rightarrow> 'm \<Rightarrow> 'm"
    and keys_of :: "'m \<Rightarrow> 'k list"
    and ok :: "'m \<Rightarrow> bool"
  assumes look_put: "look (put k v m) j = (if j = k then Some v else look m j)"
    and look_del: "look (del k m) j = (if j = k then None else look m j)"
    and keys_look: "k \<in> set (keys_of m) \<longleftrightarrow> look m k \<noteq> None"
    and ok_put: "ok m \<Longrightarrow> ok (put k v m)"
    and ok_del: "ok m \<Longrightarrow> ok (del k m)"
    and ok_keys: "ok m \<longleftrightarrow> sorted_wrt (<) (keys_of m)"
begin

lemma keys_put: "set (keys_of (put k v m)) = insert k (set (keys_of m))"
  by (auto simp: keys_look look_put split: if_splits)

lemma keys_del: "set (keys_of (del k m)) = set (keys_of m) - {k}"
  by (auto simp: keys_look look_del split: if_splits)

lemma keys_distinct: "ok m \<Longrightarrow> distinct (keys_of m)"
  by (simp add: ok_keys strict_sorted_iff)

lemma keys_put_same: "ok m \<Longrightarrow> look m k \<noteq> None \<Longrightarrow> keys_of (put k v m) = keys_of m"
proof -
  assume ok: "ok m" and k: "look m k \<noteq> None"
  have "set (keys_of (put k v m)) = set (keys_of m)"
    using k keys_look by (auto simp: keys_put)
  then show ?thesis
    using ok ok_put[OF ok] by (auto simp: ok_keys strict_sorted_equal)
qed

lemma keys_del_fresh: "ok m \<Longrightarrow> look m k = None \<Longrightarrow> keys_of (del k m) = keys_of m"
proof -
  assume ok: "ok m" and k: "look m k = None"
  have "set (keys_of (del k m)) = set (keys_of m)"
    using k keys_look by (auto simp: keys_del)
  then show ?thesis
    using ok ok_del[OF ok] by (auto simp: ok_keys strict_sorted_equal)
qed

lemma keys_put_del: "ok m \<Longrightarrow> look m k = None \<Longrightarrow> keys_of (del k (put k v m)) = keys_of m"
proof -
  assume ok: "ok m" and k: "look m k = None"
  have "set (keys_of (del k (put k v m))) = set (keys_of m)"
    using k keys_look by (auto simp: keys_put keys_del)
  then show ?thesis
    using ok ok_del[OF ok_put[OF ok]] by (auto simp: ok_keys strict_sorted_equal)
qed

end

section \<open>The entries of a std::map in key order\<close>

definition om_put :: "'k::linorder \<Rightarrow> 'v \<Rightarrow> ('k \<times> 'v) list \<Rightarrow> ('k \<times> 'v) list" where
  "om_put k v m = filter (\<lambda>e. fst e < k) m @ (k, v) # filter (\<lambda>e. k < fst e) m"

definition om_del :: "'k \<Rightarrow> ('k \<times> 'v) list \<Rightarrow> ('k \<times> 'v) list" where
  "om_del k m = filter (\<lambda>e. fst e \<noteq> k) m"

text \<open>In-place change of the value at a key, as \<open>it->second.f()\<close> does: no key appears.\<close>

definition om_upd :: "'k \<Rightarrow> ('v \<Rightarrow> 'v) \<Rightarrow> ('k \<times> 'v) list \<Rightarrow> ('k \<times> 'v) list" where
  "om_upd k f m = map (\<lambda>e. if fst e = k then (k, f (snd e)) else e) m"

abbreviation om_keys :: "('k \<times> 'v) list \<Rightarrow> 'k list" where
  "om_keys m \<equiv> map fst m"

abbreviation om_ok :: "('k::linorder \<times> 'v) list \<Rightarrow> bool" where
  "om_ok m \<equiv> sorted_wrt (<) (map fst m)"

lemma om_look_put [map_simps]: "map_of (om_put k v m) j = (if j = k then Some v else map_of m j)"
proof -
  have lo: "map_of (filter (\<lambda>e. fst e < k) m) j = (if j < k then map_of m j else None)"
    by (induction m) auto
  have hi: "map_of (filter (\<lambda>e. k < fst e) m) j = (if k < j then map_of m j else None)"
    by (induction m) auto
  show ?thesis
    by (auto simp: om_put_def map_add_def lo hi split: option.split)
qed

lemma om_look_del [map_simps]: "map_of (om_del k m) j = (if j = k then None else map_of m j)"
  by (induction m) (auto simp: om_del_def)

lemma om_look_upd [map_simps]:
  "map_of (om_upd k f m) j = (if j = k then map_option f (map_of m k) else map_of m j)"
  by (induction m) (auto simp: om_upd_def)

lemma om_keys_upd [simp]: "map fst (om_upd k f m) = map fst m"
  by (induction m) (auto simp: om_upd_def)

lemma om_ok_put: "om_ok m \<Longrightarrow> om_ok (om_put k v m)"
  by (auto simp: om_put_def sorted_wrt_append sorted_wrt_map intro: sorted_wrt_filter)

lemma om_ok_del: "om_ok m \<Longrightarrow> om_ok (om_del k m)"
  by (auto simp: om_del_def sorted_wrt_map intro: sorted_wrt_filter)

lemma om_keys_look: "k \<in> set (map fst m) \<longleftrightarrow> map_of m k \<noteq> None"
  by (simp add: map_of_eq_None_iff)

interpretation om: ordered_map map_of om_put om_del om_keys om_ok
proof unfold_locales
  fix k :: 'k and m :: "('k \<times> 'v) list"
  show "k \<in> set (om_keys m) \<longleftrightarrow> map_of m k \<noteq> None"
    by (rule om_keys_look)
qed (simp_all only: om_look_put om_look_del om_ok_put om_ok_del)

lemma om_ok_distinct: "om_ok m \<Longrightarrow> distinct (map fst m)"
  by (rule om.keys_distinct)

lemma om_in_look: "om_ok m \<Longrightarrow> (k, v) \<in> set m \<longleftrightarrow> map_of m k = Some v"
  by (simp add: om_ok_distinct)

lemma om_look_in: "map_of m k = Some v \<Longrightarrow> (k, v) \<in> set m"
  by (rule map_of_SomeD)

section \<open>The elements of a std::set, or the keys of a std::map, in order\<close>

definition os_ins :: "'k::linorder \<Rightarrow> 'k list \<Rightarrow> 'k list" where
  "os_ins k xs = filter (\<lambda>x. x < k) xs @ k # filter (\<lambda>x. k < x) xs"

definition os_del :: "'k \<Rightarrow> 'k list \<Rightarrow> 'k list" where
  "os_del k xs = filter (\<lambda>x. x \<noteq> k) xs"

abbreviation os_ok :: "'k::linorder list \<Rightarrow> bool" where
  "os_ok xs \<equiv> sorted_wrt (<) xs"

lemma set_os_ins [simp]: "set (os_ins k xs) = insert k (set xs)"
  by (auto simp: os_ins_def)

lemma set_os_del [simp]: "set (os_del k xs) = set xs - {k}"
  by (auto simp: os_del_def)

lemma os_ins_nonempty [simp]: "os_ins k xs \<noteq> []"
  by (simp add: os_ins_def)

lemma os_ok_ins: "os_ok xs \<Longrightarrow> os_ok (os_ins k xs)"
  by (auto simp: os_ins_def sorted_wrt_append intro: sorted_wrt_filter)

lemma os_ok_del: "os_ok xs \<Longrightarrow> os_ok (os_del k xs)"
  by (auto simp: os_del_def intro: sorted_wrt_filter)

lemma os_ok_unique: "os_ok xs \<Longrightarrow> os_ok ys \<Longrightarrow> set xs = set ys \<Longrightarrow> xs = ys"
  by (rule strict_sorted_equal)

lemma length_os_ins: "os_ok xs \<Longrightarrow> k \<notin> set xs \<Longrightarrow> length (os_ins k xs) = Suc (length xs)"
  by (metis card_insert_disjoint distinct_card finite_set os_ok_ins set_os_ins strict_sorted_iff)

section \<open>Shared facts about lists\<close>

lemma foldl_frame:
  assumes "\<And>w x. view (step w x) = view w"
  shows "view (foldl step w xs) = view w"
  using assms by (induction xs arbitrary: w) auto

lemma foldl_inv:
  assumes "P w" and "\<And>w x. P w \<Longrightarrow> x \<in> set xs \<Longrightarrow> P (step w x)"
  shows "P (foldl step w xs)"
  using assms by (induction xs arbitrary: w) auto

lemma find_Some_in: "List.find P xs = Some x \<Longrightarrow> x \<in> set xs \<and> P x"
  by (induction xs) (auto split: if_splits)

end
