(* ===== verification/LibCpp.thy ===== *)
theory LibCpp
  imports Prelude
begin

text \<open>
  The parts of \<open>vendor/libcpp\<close> (a git submodule, not part of the repository) that the
  server calls, as one record of functions: every definition that uses the library takes
  such a record \<open>L\<close>.  The type \<open>'io\<close> stands for \<open>libcpp98::BufferedSocket\<close>.
  Nothing is assumed of the functions by the model itself; a theorem that relies on
  their documented behaviour names the law it uses as a hypothesis.  The laws are those
  the unit tests of the repository state (\<open>tests/test_libcpp_str.cpp\<close>,
  \<open>tests/test_libcpp98.cpp\<close>).
\<close>

record 'io libcpp =
  lc_ascii_to_lower :: "string \<Rightarrow> string"
  lc_eq_ascii_nocase :: "string \<Rightarrow> string \<Rightarrow> bool"
  lc_to_upper :: "string \<Rightarrow> string"
  lc_eq_consttime :: "string \<Rightarrow> string \<Rightarrow> bool"
  lc_split :: "string \<Rightarrow> char \<Rightarrow> string list"
  lc_split_nonempty :: "string \<Rightarrow> char \<Rightarrow> string list"
  lc_parse_long :: "string \<Rightarrow> int \<Rightarrow> int \<Rightarrow> int option"
  lc_parse_ulong :: "string \<Rightarrow> int \<Rightarrow> int \<Rightarrow> int option"
  lc_to_string :: "int \<Rightarrow> string"
  lc_pad_left :: "string \<Rightarrow> nat \<Rightarrow> char \<Rightarrow> string"
  lc_pad_right :: "string \<Rightarrow> nat \<Rightarrow> char \<Rightarrow> string"
  io_new :: "nat \<Rightarrow> nat \<Rightarrow> 'io"
  io_feed :: "'io \<Rightarrow> string \<Rightarrow> 'io"
  io_next_line :: "'io \<Rightarrow> (string \<times> 'io) option"
  io_queue :: "'io \<Rightarrow> string \<Rightarrow> 'io"
  io_out_data :: "'io \<Rightarrow> string"
  io_consume :: "'io \<Rightarrow> nat \<Rightarrow> 'io"
  io_has_pending :: "'io \<Rightarrow> bool"
  io_overflowed :: "'io \<Rightarrow> bool"

section \<open>The laws a theorem may name\<close>

text \<open>\<open>eq_ascii_nocase\<close> compares ASCII folds, and folding twice is folding once.\<close>

definition casemap_law :: "'io libcpp \<Rightarrow> bool" where
  "casemap_law L \<longleftrightarrow>
     (\<forall>a b. lc_eq_ascii_nocase L a b \<longleftrightarrow> lc_ascii_to_lower L a = lc_ascii_to_lower L b) \<and>
     (\<forall>a. lc_ascii_to_lower L (lc_ascii_to_lower L a) = lc_ascii_to_lower L a)"

text \<open>\<open>parse_long\<close> returns a value only within the bounds it is given.\<close>

definition parse_law :: "'io libcpp \<Rightarrow> bool" where
  "parse_law L \<longleftrightarrow>
     (\<forall>s lo hi v. lc_parse_long L s lo hi = Some v \<longrightarrow> lo \<le> v \<and> v \<le> hi) \<and>
     (\<forall>s lo hi v. lc_parse_ulong L s lo hi = Some v \<longrightarrow> lo \<le> v \<and> v \<le> hi)"

text \<open>\<open>eq_consttime\<close> decides equality.\<close>

definition consttime_law :: "'io libcpp \<Rightarrow> bool" where
  "consttime_law L \<longleftrightarrow> (\<forall>a b. lc_eq_consttime L a b \<longleftrightarrow> a = b)"

text \<open>\<open>split_nonempty\<close> yields non-empty fields without the separator.\<close>

definition split_law :: "'io libcpp \<Rightarrow> bool" where
  "split_law L \<longleftrightarrow>
     (\<forall>s c x. x \<in> set (lc_split_nonempty L s c) \<longrightarrow> x \<noteq> [] \<and> c \<notin> set x)"

text \<open>A line taken out of the receive buffer makes the buffer smaller (\<open>LineBuffer::size\<close>).\<close>

definition next_line_law :: "'io libcpp \<Rightarrow> ('io \<Rightarrow> nat) \<Rightarrow> bool" where
  "next_line_law L size_in \<longleftrightarrow>
     (\<forall>io line io'. io_next_line L io = Some (line, io') \<longrightarrow> size_in io' < size_in io)"

lemma casemap_eq: "casemap_law L \<Longrightarrow>
  lc_eq_ascii_nocase L a b \<longleftrightarrow> lc_ascii_to_lower L a = lc_ascii_to_lower L b"
  by (simp add: casemap_law_def)

lemma casemap_idem: "casemap_law L \<Longrightarrow>
  lc_ascii_to_lower L (lc_ascii_to_lower L a) = lc_ascii_to_lower L a"
  by (simp add: casemap_law_def)

section \<open>A concrete instance for witnesses\<close>

text \<open>
  A witness needs the parameter instantiated: plain functions that satisfy the laws.
  They stand for no file of the repository and no property is about them.
\<close>

record mini_sock =
  ms_in :: string
  ms_out :: string
  ms_cap :: nat
  ms_over :: bool

definition crlf :: string where
  "crlf = [CHR 0x0D, CHR 0x0A]"

fun mini_fold :: "char \<Rightarrow> char" where
  "mini_fold c = (if CHR ''A'' \<le> c \<and> c \<le> CHR ''Z'' then char_of (of_char c + 32 :: nat) else c)"

fun mini_raise :: "char \<Rightarrow> char" where
  "mini_raise c = (if CHR ''a'' \<le> c \<and> c \<le> CHR ''z'' then char_of (of_char c - 32 :: nat) else c)"

fun mini_split :: "string \<Rightarrow> char \<Rightarrow> string \<Rightarrow> string list" where
  "mini_split [] sep cur = [cur]"
| "mini_split (c # s) sep cur =
     (if c = sep then cur # mini_split s sep [] else mini_split s sep (cur @ [c]))"

fun mini_digits :: "string \<Rightarrow> int \<Rightarrow> int option" where
  "mini_digits [] acc = Some acc"
| "mini_digits (c # s) acc =
     (if CHR ''0'' \<le> c \<and> c \<le> CHR ''9''
      then mini_digits s (acc * 10 + (of_char c - 48)) else None)"

definition mini_parse :: "string \<Rightarrow> int \<Rightarrow> int \<Rightarrow> int option" where
  "mini_parse s lo hi =
     (if s = [] then None
      else case mini_digits s 0 of None \<Rightarrow> None
           | Some v \<Rightarrow> if lo \<le> v \<and> v \<le> hi then Some v else None)"

fun mini_show :: "nat \<Rightarrow> string" where
  "mini_show n = (if n < 10 then [char_of (48 + n)] else mini_show (n div 10) @ [char_of (48 + n mod 10)])"

declare mini_show.simps [simp del]

definition mini_next :: "mini_sock \<Rightarrow> (string \<times> mini_sock) option" where
  "mini_next s =
     (if CHR 0x0A \<in> set (ms_in s)
      then Some (takeWhile (\<lambda>c. c \<noteq> CHR 0x0A) (ms_in s),
                 s\<lparr>ms_in := tl (dropWhile (\<lambda>c. c \<noteq> CHR 0x0A) (ms_in s))\<rparr>)
      else None)"

definition mini_queue :: "mini_sock \<Rightarrow> string \<Rightarrow> mini_sock" where
  "mini_queue s line =
     (if ms_over s \<or> length (ms_out s) + length line + 2 > ms_cap s
      then s\<lparr>ms_over := True\<rparr> else s\<lparr>ms_out := ms_out s @ line @ crlf\<rparr>)"

definition mini_lib :: "mini_sock libcpp" where
  "mini_lib =
     \<lparr>lc_ascii_to_lower = map mini_fold,
      lc_eq_ascii_nocase = (\<lambda>a b. map mini_fold a = map mini_fold b),
      lc_to_upper = map mini_raise,
      lc_eq_consttime = (=),
      lc_split = (\<lambda>s c. mini_split s c []),
      lc_split_nonempty = (\<lambda>s c. filter (\<lambda>x. x \<noteq> [] \<and> c \<notin> set x) (mini_split s c [])),
      lc_parse_long = mini_parse,
      lc_parse_ulong = mini_parse,
      lc_to_string = (\<lambda>n. if n < 0 then CHR ''-'' # mini_show (nat (- n)) else mini_show (nat n)),
      lc_pad_left = (\<lambda>s n c. replicate (n - length s) c @ s),
      lc_pad_right = (\<lambda>s n c. s @ replicate (n - length s) c),
      io_new = (\<lambda>_ cap. \<lparr>ms_in = [], ms_out = [], ms_cap = cap, ms_over = False\<rparr>),
      io_feed = (\<lambda>s d. s\<lparr>ms_in := ms_in s @ d\<rparr>),
      io_next_line = mini_next,
      io_queue = mini_queue,
      io_out_data = ms_out,
      io_consume = (\<lambda>s n. s\<lparr>ms_out := drop n (ms_out s)\<rparr>),
      io_has_pending = (\<lambda>s. ms_out s \<noteq> []),
      io_overflowed = ms_over\<rparr>"

lemma mini_fold_idem: "mini_fold (mini_fold c) = mini_fold c"
proof (cases "CHR ''A'' \<le> c \<and> c \<le> CHR ''Z''")
  case True
  then have "(65::nat) \<le> of_char c" "of_char c \<le> (90::nat)"
    by (auto simp: less_eq_char_def)
  then have "of_char (char_of (of_char c + 32 :: nat)) = (of_char c + 32 :: nat)"
    by (simp add: take_bit_eq_mod)
  then show ?thesis
    using True by (auto simp: less_eq_char_def)
qed auto

lemma mini_casemap [simp]: "casemap_law mini_lib"
proof -
  have "map (mini_fold \<circ> mini_fold) a = map mini_fold a" for a
    using mini_fold_idem by (auto simp del: mini_fold.simps)
  then show ?thesis by (simp add: casemap_law_def mini_lib_def del: mini_fold.simps)
qed

lemma mini_parse_law [simp]: "parse_law mini_lib"
  by (auto simp: parse_law_def mini_lib_def mini_parse_def split: if_splits option.splits)

lemma mini_consttime [simp]: "consttime_law mini_lib"
  by (simp add: consttime_law_def mini_lib_def)

lemma mini_split_law [simp]: "split_law mini_lib"
  by (simp add: split_law_def mini_lib_def)

lemma mini_next_law [simp]: "next_line_law mini_lib (\<lambda>s. length (ms_in s))"
proof -
  have "length (tl (dropWhile (\<lambda>c. c \<noteq> d) s)) < length s" if "d \<in> set s" for d and s :: string
  proof -
    have "dropWhile (\<lambda>c. c \<noteq> d) s \<noteq> []" using that by (induction s) auto
    then have "length (tl (dropWhile (\<lambda>c. c \<noteq> d) s)) < length (dropWhile (\<lambda>c. c \<noteq> d) s)"
      by (cases "dropWhile (\<lambda>c. c \<noteq> d) s") auto
    also have "\<dots> \<le> length s" by (rule length_dropWhile_le)
    finally show ?thesis .
  qed
  then show ?thesis
    by (auto simp: next_line_law_def mini_lib_def mini_next_def split: if_splits)
qed

end
