(* ===== verification/Log_Trace.thy ===== *)
theory Log_Trace
  imports LibCpp "HOL-Library.Word"
begin

text \<open>
  \<open>src/Log.cpp\<close> and \<open>src/IrcTrace.cpp\<close>: the log level, the lines written, the traffic
  counters per session and in total, and the redaction of secrets in traced lines.  What
  a sink does with a line (colours, time stamps) is output and not modelled; a written
  line is an event in \<open>lg_out\<close>.
\<close>

section \<open>Log levels and the written lines\<close>

datatype log_level = LOG_QUIET | LOG_ERROR | LOG_WARN | LOG_INFO | LOG_DEBUG | LOG_TRACE

fun level_no :: "log_level \<Rightarrow> nat" where
  "level_no LOG_QUIET = 0"
| "level_no LOG_ERROR = 1"
| "level_no LOG_WARN = 2"
| "level_no LOG_INFO = 3"
| "level_no LOG_DEBUG = 4"
| "level_no LOG_TRACE = 5"

datatype log_event =
    Wrote char string
  | Proto char fd string string string

record log_state =
  lg_level :: log_level
  lg_out :: "log_event list"

definition log_enabled :: "log_level \<Rightarrow> 'a log_state_scheme \<Rightarrow> bool" where
  "log_enabled required t \<longleftrightarrow> level_no required \<le> level_no (lg_level t)"

definition render :: "char \<Rightarrow> string \<Rightarrow> 'a log_state_scheme \<Rightarrow> 'a log_state_scheme" where
  "render kind msg t = t\<lparr>lg_out := lg_out t @ [Wrote kind msg]\<rparr>"

definition log_info :: "string \<Rightarrow> 'a log_state_scheme \<Rightarrow> 'a log_state_scheme" where
  "log_info msg t = (if log_enabled LOG_INFO t then render (CHR ''i'') msg t else t)"

definition log_success :: "string \<Rightarrow> 'a log_state_scheme \<Rightarrow> 'a log_state_scheme" where
  "log_success msg t = (if log_enabled LOG_INFO t then render (CHR ''s'') msg t else t)"

definition log_warn :: "string \<Rightarrow> 'a log_state_scheme \<Rightarrow> 'a log_state_scheme" where
  "log_warn msg t = (if log_enabled LOG_WARN t then render (CHR ''w'') msg t else t)"

definition log_error :: "string \<Rightarrow> 'a log_state_scheme \<Rightarrow> 'a log_state_scheme" where
  "log_error msg t = (if log_enabled LOG_ERROR t then render (CHR ''e'') msg t else t)"

definition log_debug :: "string \<Rightarrow> 'a log_state_scheme \<Rightarrow> 'a log_state_scheme" where
  "log_debug msg t = (if log_enabled LOG_DEBUG t then render (CHR ''d'') msg t else t)"

definition log_protocol ::
  "char \<Rightarrow> fd \<Rightarrow> string \<Rightarrow> string \<Rightarrow> string \<Rightarrow> 'a log_state_scheme \<Rightarrow> 'a log_state_scheme" where
  "log_protocol dir f peer line note t =
     (if \<not> log_enabled LOG_TRACE t then t
      else t\<lparr>lg_out := lg_out t @ [Proto dir f peer line note]\<rparr>)"

text \<open>\<open>ILogSink::protocol\<close>: the text the default sink writes for a traced line.\<close>

definition sink_protocol :: "'io libcpp \<Rightarrow> char \<Rightarrow> fd \<Rightarrow> string \<Rightarrow> string \<Rightarrow> string \<Rightarrow> string" where
  "sink_protocol L dir f peer line note =
     (let arrow = (if dir = CHR ''<'' then ''<<'' else ''>>'');
          who = (if peer = [] then ''*'' else peer);
          out = ''fd '' @ lc_pad_left L (lc_to_string L f) 3 (CHR '' '') @ ''  '' @ arrow @ ''  '' @
                lc_pad_right L who 9 (CHR '' '') @ ''  '' @ line
      in if note \<noteq> [] then out @ ''   ['' @ note @ '']'' else out)"

definition configureFromEnv :: "string option \<Rightarrow> 'a log_state_scheme \<Rightarrow> 'a log_state_scheme" where
  "configureFromEnv v t =
     (case v of None \<Rightarrow> t | Some s \<Rightarrow>
        if s = [] then t
        else if s = ''quiet'' \<or> s = ''0'' then t\<lparr>lg_level := LOG_QUIET\<rparr>
        else if s = ''error'' \<or> s = ''1'' then t\<lparr>lg_level := LOG_ERROR\<rparr>
        else if s = ''warn'' \<or> s = ''2'' then t\<lparr>lg_level := LOG_WARN\<rparr>
        else if s = ''info'' \<or> s = ''3'' then t\<lparr>lg_level := LOG_INFO\<rparr>
        else if s = ''debug'' \<or> s = ''4'' then t\<lparr>lg_level := LOG_DEBUG\<rparr>
        else if s = ''trace'' \<or> s = ''5'' then t\<lparr>lg_level := LOG_TRACE\<rparr>
        else t)"

section \<open>Redaction\<close>

definition kNumerics :: "(string \<times> string) list" where
  "kNumerics =
     [(''001'', ''RPL_WELCOME''), (''002'', ''RPL_YOURHOST''), (''003'', ''RPL_CREATED''),
      (''004'', ''RPL_MYINFO''), (''005'', ''RPL_ISUPPORT''), (''221'', ''RPL_UMODEIS''),
      (''302'', ''RPL_USERHOST''), (''311'', ''RPL_WHOISUSER''), (''312'', ''RPL_WHOISSERVER''),
      (''318'', ''RPL_ENDOFWHOIS''), (''319'', ''RPL_WHOISCHANNELS''), (''324'', ''RPL_CHANNELMODEIS''),
      (''329'', ''RPL_CREATIONTIME''), (''331'', ''RPL_NOTOPIC''), (''332'', ''RPL_TOPIC''),
      (''333'', ''RPL_TOPICWHOTIME''), (''341'', ''RPL_INVITING''), (''352'', ''RPL_WHOREPLY''),
      (''315'', ''RPL_ENDOFWHO''), (''353'', ''RPL_NAMREPLY''), (''366'', ''RPL_ENDOFNAMES''),
      (''401'', ''ERR_NOSUCHNICK''), (''403'', ''ERR_NOSUCHCHANNEL''), (''404'', ''ERR_CANNOTSENDTOCHAN''),
      (''411'', ''ERR_NORECIPIENT''), (''412'', ''ERR_NOTEXTTOSEND''), (''421'', ''ERR_UNKNOWNCOMMAND''),
      (''422'', ''ERR_NOMOTD''), (''431'', ''ERR_NONICKNAMEGIVEN''), (''432'', ''ERR_ERRONEUSNICKNAME''),
      (''433'', ''ERR_NICKNAMEINUSE''), (''441'', ''ERR_USERNOTINCHANNEL''), (''442'', ''ERR_NOTONCHANNEL''),
      (''443'', ''ERR_USERONCHANNEL''), (''451'', ''ERR_NOTREGISTERED''), (''461'', ''ERR_NEEDMOREPARAMS''),
      (''462'', ''ERR_ALREADYREGISTRED''), (''464'', ''ERR_PASSWDMISMATCH''), (''471'', ''ERR_CHANNELISFULL''),
      (''472'', ''ERR_UNKNOWNMODE''), (''473'', ''ERR_INVITEONLYCHAN''), (''475'', ''ERR_BADCHANNELKEY''),
      (''476'', ''ERR_BADCHANMASK''), (''482'', ''ERR_CHANOPRIVSNEEDED''), (''501'', ''ERR_UMODEUNKNOWNFLAG''),
      (''502'', ''ERR_USERSDONTMATCH''), (''525'', ''ERR_INVALIDKEY''), (''696'', ''ERR_INVALIDMODEPARAM'')]"

definition numericName :: "string \<Rightarrow> string" where
  "numericName numeric =
     (if length numeric \<noteq> 3 then []
      else case map_of kNumerics numeric of None \<Rightarrow> [] | Some n \<Rightarrow> n)"

abbreviation blank :: "char \<Rightarrow> bool" where
  "blank c \<equiv> c = CHR '' ''"

definition commandOf :: "string \<Rightarrow> string" where
  "commandOf line =
     (let s = dropWhile blank line
      in case s of [] \<Rightarrow> []
         | c # _ \<Rightarrow>
             if c = CHR '':'' then
               (let r = dropWhile (\<lambda>x. \<not> blank x) s
                in if r = [] then [] else takeWhile (\<lambda>x. \<not> blank x) (dropWhile blank r))
             else takeWhile (\<lambda>x. \<not> blank x) s)"

text \<open>
  One pass over the tokens between single blanks, empty ones included.  The state is the
  number of parameters seen, and whether a prefix and the command have been seen.
\<close>

definition redact_tok :: "nat \<Rightarrow> nat \<times> bool \<times> bool \<Rightarrow> string \<Rightarrow> string \<times> nat \<times> bool \<times> bool" where
  "redact_tok idx st tok =
     (case st of (field, sawPrefix, sawCommand) \<Rightarrow>
        if tok = [] then (tok, field, sawPrefix, sawCommand)
        else if \<not> sawPrefix \<and> \<not> sawCommand \<and> hd tok = CHR '':'' then (tok, field, True, sawCommand)
        else if \<not> sawCommand then (tok, field, sawPrefix, True)
        else (if field = idx then ''***'' else tok, Suc field, sawPrefix, sawCommand))"

function redact_loop :: "nat \<Rightarrow> nat \<times> bool \<times> bool \<Rightarrow> string \<Rightarrow> string" where
  "redact_loop idx st line =
     (let tok = takeWhile (\<lambda>x. \<not> blank x) line;
          rest = dropWhile (\<lambda>x. \<not> blank x) line;
          (tok', st') = redact_tok idx st tok
      in case rest of [] \<Rightarrow> tok'
         | _ # rest' \<Rightarrow> tok' @ [CHR '' ''] @ redact_loop idx st' rest')"
  by pat_completeness auto
termination
proof (relation "measure (\<lambda>(idx, st, line). length line)", goal_cases)
  case (2 idx st line tok rest p tok' st' x xs)
  then have "length (x # xs) \<le> length line"
    using length_dropWhile_le by metis
  then show ?case by simp
qed simp

declare redact_loop.simps [simp del]

definition redactParam :: "string \<Rightarrow> nat \<Rightarrow> string" where
  "redactParam line idx = redact_loop idx (0, False, False) line"

definition paramsOf :: "'io libcpp \<Rightarrow> string \<Rightarrow> string list" where
  "paramsOf L line =
     (let all = lc_split_nonempty L line (CHR '' '');
          a1 = (case all of (t # ts) \<Rightarrow> if t \<noteq> [] \<and> hd t = CHR '':'' then ts else all | [] \<Rightarrow> all)
      in tl a1)"

text \<open>The scan of a mode string for the first key parameter: (adding, paramNo, keyParam).\<close>

fun redact_scan :: "string \<Rightarrow> bool \<Rightarrow> nat \<Rightarrow> nat option \<Rightarrow> nat option" where
  "redact_scan [] adding paramNo found = found"
| "redact_scan (c # cs) adding paramNo found =
     (if c = CHR ''+'' then redact_scan cs True paramNo found
      else if c = CHR ''-'' then redact_scan cs False paramNo found
      else if c = CHR ''k'' then
        redact_scan cs adding (Suc paramNo)
          (if adding \<and> found = None then Some paramNo else found)
      else if c = CHR ''o'' \<or> (c = CHR ''l'' \<and> adding) then redact_scan cs adding (Suc paramNo) found
      else redact_scan cs adding paramNo found)"

definition redact :: "'io libcpp \<Rightarrow> string \<Rightarrow> string" where
  "redact L line =
     (let cmd = lc_ascii_to_lower L (commandOf line);
          params = paramsOf L line
      in if cmd = ''pass'' then redactParam line 0
         else if cmd = ''join'' then
           (if 2 \<le> length params then redactParam line 1 else line)
         else if cmd = ''mode'' then
           (if length params < 2 then line
            else case redact_scan (params ! 1) True 0 None of
                   None \<Rightarrow> line | Some keyParam \<Rightarrow> redactParam line (2 + keyParam))
         else if cmd = ''324'' then
           (if length params < 3 then line
            else case redact_scan (params ! 2) True 0 None of
                   None \<Rightarrow> line | Some keyParam \<Rightarrow> redactParam line (3 + keyParam))
         else line)"

definition annotate :: "string \<Rightarrow> string" where
  "annotate line =
     (let cmd = commandOf line; name = numericName cmd
      in if cmd = [] then [] else if name = [] then cmd else cmd @ '' '' @ name)"

section \<open>Traffic counters\<close>

record stats =
  linesIn :: "64 word"
  linesOut :: "64 word"
  bytesIn :: "64 word"
  bytesOut :: "64 word"

definition no_stats :: stats where
  "no_stats = \<lparr>linesIn = 0, linesOut = 0, bytesIn = 0, bytesOut = 0\<rparr>"

record trace_state = log_state +
  tr_sessions :: "(fd \<times> stats) list"
  tr_total :: stats
  tr_count :: "64 word"

definition count_in :: "string \<Rightarrow> stats \<Rightarrow> stats" where
  "count_in line s = s\<lparr>linesIn := linesIn s + 1, bytesIn := bytesIn s + of_nat (length line + 2)\<rparr>"

definition count_out :: "string \<Rightarrow> stats \<Rightarrow> stats" where
  "count_out line s = s\<lparr>linesOut := linesOut s + 1, bytesOut := bytesOut s + of_nat (length line + 2)\<rparr>"

text \<open>\<open>sessions()[fd]\<close> inserts empty counters for a descriptor it does not know.\<close>

definition session_of :: "fd \<Rightarrow> trace_state \<Rightarrow> stats" where
  "session_of f t = (case map_of (tr_sessions t) f of None \<Rightarrow> no_stats | Some s \<Rightarrow> s)"

definition trace_inbound :: "'io libcpp \<Rightarrow> fd \<Rightarrow> string \<Rightarrow> string \<Rightarrow> trace_state \<Rightarrow> trace_state" where
  "trace_inbound L f peer line t =
     (let t1 = t\<lparr>tr_sessions := om_put f (count_in line (session_of f t)) (tr_sessions t),
                 tr_total := count_in line (tr_total t)\<rparr>
      in if \<not> log_enabled LOG_TRACE t1 then t1
         else log_protocol (CHR ''<'') f peer (redact L line) (annotate line) t1)"

definition trace_outbound :: "'io libcpp \<Rightarrow> fd \<Rightarrow> string \<Rightarrow> string \<Rightarrow> trace_state \<Rightarrow> trace_state" where
  "trace_outbound L f peer line t =
     (let t1 = t\<lparr>tr_sessions := om_put f (count_out line (session_of f t)) (tr_sessions t),
                 tr_total := count_out line (tr_total t)\<rparr>
      in if \<not> log_enabled LOG_TRACE t1 then t1
         else log_protocol (CHR ''>'') f peer (redact L line) (annotate line) t1)"

definition fdField :: "'io libcpp \<Rightarrow> fd \<Rightarrow> string" where
  "fdField L f = ''fd '' @ lc_pad_left L (lc_to_string L f) 3 (CHR '' '')"

definition sessionOpen :: "'io libcpp \<Rightarrow> fd \<Rightarrow> string \<Rightarrow> trace_state \<Rightarrow> trace_state" where
  "sessionOpen L f host t =
     (let t1 = t\<lparr>tr_sessions := om_put f no_stats (tr_sessions t), tr_count := tr_count t + 1\<rparr>
      in if \<not> log_enabled LOG_DEBUG t1 then t1
         else log_debug (fdField L f @ ''  ++  connection from '' @ host) t1)"

definition sessionRegistered :: "'io libcpp \<Rightarrow> fd \<Rightarrow> string \<Rightarrow> trace_state \<Rightarrow> trace_state" where
  "sessionRegistered L f prefix t =
     (if \<not> log_enabled LOG_DEBUG t then t
      else log_debug (fdField L f @ ''  ==  registered as '' @ prefix) t)"

text \<open>The dash of the log text is the three bytes of U+2014, as in the source file.\<close>

definition em_dash :: string where
  "em_dash = [CHR 0xE2, CHR 0x80, CHR 0x94]"

definition word_text :: "'io libcpp \<Rightarrow> 64 word \<Rightarrow> string" where
  "word_text L n = lc_to_string L (uint n)"

definition sessionClose :: "'io libcpp \<Rightarrow> fd \<Rightarrow> string \<Rightarrow> string \<Rightarrow> trace_state \<Rightarrow> trace_state" where
  "sessionClose L f peer reason t =
     (case map_of (tr_sessions t) f of
        None \<Rightarrow> t
      | Some s \<Rightarrow>
          let t1 = (if log_enabled LOG_DEBUG t
                    then log_debug (fdField L f @ ''  --  '' @ (if peer = [] then ''*'' else peer) @
                           '' left ('' @ reason @ '') '' @ em_dash @ '' '' @
                           word_text L (linesIn s) @ '' in / '' @ word_text L (linesOut s) @ '' out, '' @
                           word_text L (bytesIn s) @ '' B / '' @ word_text L (bytesOut s) @ '' B'') t
                    else t)
          in t1\<lparr>tr_sessions := om_del f (tr_sessions t1)\<rparr>)"

definition trace_summary :: "'io libcpp \<Rightarrow> trace_state \<Rightarrow> string" where
  "trace_summary L t =
     word_text L (tr_count t) @ '' session(s), '' @ word_text L (linesIn (tr_total t)) @ '' lines in / '' @
     word_text L (linesOut (tr_total t)) @ '' out, '' @ word_text L (bytesIn (tr_total t)) @ '' B in / '' @
     word_text L (bytesOut (tr_total t)) @ '' B out''"

end
