(* ===== verification/Message_Fields.thy ===== *)
theory Message_Fields
  imports LibCpp
begin

text \<open>
  The data the parser hands to the command handlers: the grammar arena
  (\<open>src/grammar/Grammar.cpp\<close>, \<open>GrammarNode.cpp\<close>), the captures of a match
  (\<open>src/grammar/MatchResult.cpp\<close>) and the message (\<open>src/Message.cpp\<close>).
  An index the code keeps in an \<open>int\<close> is an \<open>int\<close> here; \<open>-1\<close> is no rule and no capture.
\<close>

section \<open>The grammar arena\<close>

datatype node_kind = Reference | Literal | OctetRange | Sequence | Alternation | Repetition

record grammar_node =
  n_kind :: node_kind
  n_lo :: int
  n_hi :: int
  n_first :: int
  n_count :: int
  n_literal :: int
  n_capture :: int

abbreviation kUnbounded :: int where "kUnbounded \<equiv> -1"
abbreviation kNoCapture :: int where "kNoCapture \<equiv> -1"
abbreviation kNoRule :: int where "kNoRule \<equiv> -1"

definition empty_node :: grammar_node where
  "empty_node = \<lparr>n_kind = Sequence, n_lo = 0, n_hi = 0, n_first = 0, n_count = 0,
                 n_literal = -1, n_capture = kNoCapture\<rparr>"

record grammar =
  g_nodes :: "grammar_node list"
  g_children :: "int list"
  g_literals :: "string list"
  g_captureNames :: "string list"
  g_ruleNames :: "string list"
  g_ruleRoots :: "int list"

definition empty_grammar :: grammar where
  "empty_grammar = \<lparr>g_nodes = [], g_children = [], g_literals = [], g_captureNames = [],
                    g_ruleNames = [], g_ruleRoots = []\<rparr>"

text \<open>The first index holding a value, as the linear searches of the code find it.\<close>

fun index_from :: "int \<Rightarrow> 'a \<Rightarrow> 'a list \<Rightarrow> int" where
  "index_from i x [] = -1"
| "index_from i x (y # ys) = (if y = x then i else index_from (i + 1) x ys)"

abbreviation index_of :: "'a \<Rightarrow> 'a list \<Rightarrow> int" where
  "index_of x ys \<equiv> index_from 0 x ys"

lemma index_from_bounds:
  "index_from i x ys = -1 \<or> (i \<le> index_from i x ys \<and> index_from i x ys < i + int (length ys))"
proof (induction ys arbitrary: i)
  case (Cons y ys)
  show ?case using Cons.IH[of "i + 1"] by auto
qed simp

lemma index_from_nth:
  "0 \<le> i \<Longrightarrow> index_from i x ys \<noteq> -1 \<Longrightarrow> ys ! nat (index_from i x ys - i) = x"
proof (induction ys arbitrary: i)
  case (Cons y ys)
  show ?case
  proof (cases "y = x")
    case False
    let ?r = "index_from (i + 1) x ys"
    have r: "?r \<noteq> -1" using Cons.prems False by simp
    then have ge: "i + 1 \<le> ?r" using index_from_bounds[of "i + 1" x ys] by auto
    have "nat (?r - i) = Suc (nat (?r - (i + 1)))" using ge by simp
    then show ?thesis using Cons.IH[of "i + 1"] Cons.prems r False by simp
  qed simp
qed simp

lemma index_from_none: "0 \<le> i \<Longrightarrow> index_from i x ys = -1 \<longleftrightarrow> x \<notin> set ys"
  by (induction ys arbitrary: i) auto

fun abnf_toLower :: "char \<Rightarrow> char" where
  "abnf_toLower c = (if CHR ''A'' \<le> c \<and> c \<le> CHR ''Z'' then char_of (of_char c + 32 :: nat) else c)"

definition lowered :: "string \<Rightarrow> string" where
  "lowered s = map abnf_toLower s"

definition ruleIndex :: "grammar \<Rightarrow> string \<Rightarrow> int" where
  "ruleIndex g name = index_of (lowered name) (g_ruleNames g)"

definition in_range :: "int \<Rightarrow> 'a list \<Rightarrow> bool" where
  "in_range i xs \<longleftrightarrow> 0 \<le> i \<and> i < int (length xs)"

definition ruleRoot :: "grammar \<Rightarrow> int \<Rightarrow> int" where
  "ruleRoot g rule = (if in_range rule (g_ruleRoots g) then g_ruleRoots g ! nat rule else kNoRule)"

definition ruleName :: "grammar \<Rightarrow> int \<Rightarrow> string" where
  "ruleName g rule = (if in_range rule (g_ruleNames g) then g_ruleNames g ! nat rule else [])"

definition captureName :: "grammar \<Rightarrow> int \<Rightarrow> string" where
  "captureName g i = (if in_range i (g_captureNames g) then g_captureNames g ! nat i else [])"

definition captureIndex :: "grammar \<Rightarrow> string \<Rightarrow> int" where
  "captureIndex g name = index_of name (g_captureNames g)"

section \<open>The captures of a match\<close>

text \<open>\<open>mr_grammar\<close> is the pointer \<open>_grammar\<close>: \<open>None\<close> until \<open>reset\<close> sets it.\<close>

record match_result =
  mr_grammar :: "grammar option"
  mr_values :: "string list list"
  mr_sequence :: "string list"
  mr_owners :: "int list"

definition mr_empty :: match_result where
  "mr_empty = \<lparr>mr_grammar = None, mr_values = [], mr_sequence = [], mr_owners = []\<rparr>"

definition mr_reset :: "grammar \<Rightarrow> match_result" where
  "mr_reset g = \<lparr>mr_grammar = Some g, mr_values = replicate (length (g_captureNames g)) [],
                 mr_sequence = [], mr_owners = []\<rparr>"

definition mr_adopt ::
  "string list list \<Rightarrow> string list \<Rightarrow> int list \<Rightarrow> match_result \<Rightarrow> match_result" where
  "mr_adopt values sequence owners r =
     r\<lparr>mr_values := values, mr_sequence := sequence, mr_owners := owners\<rparr>"

definition slotOf :: "match_result \<Rightarrow> string \<Rightarrow> int" where
  "slotOf r name = (case mr_grammar r of None \<Rightarrow> -1 | Some g \<Rightarrow> index_of name (g_captureNames g))"

definition mr_all :: "match_result \<Rightarrow> string \<Rightarrow> string list" where
  "mr_all r name =
     (let slot = slotOf r name in if slot < 0 then [] else mr_values r ! nat slot)"

definition mr_has :: "match_result \<Rightarrow> string \<Rightarrow> bool" where
  "mr_has r name \<longleftrightarrow> (let slot = slotOf r name in if slot < 0 then False else mr_values r ! nat slot \<noteq> [])"

definition mr_count :: "match_result \<Rightarrow> string \<Rightarrow> nat" where
  "mr_count r name = (let slot = slotOf r name in if slot < 0 then 0 else length (mr_values r ! nat slot))"

definition mr_at :: "match_result \<Rightarrow> string \<Rightarrow> nat \<Rightarrow> string" where
  "mr_at r name i =
     (let slot = slotOf r name
      in if slot < 0 then []
         else if length (mr_values r ! nat slot) \<le> i then []
         else mr_values r ! nat slot ! i)"

definition mr_get :: "match_result \<Rightarrow> string \<Rightarrow> string" where
  "mr_get r name = mr_at r name 0"

definition sequenceAt :: "match_result \<Rightarrow> nat \<Rightarrow> string" where
  "sequenceAt r i = (if length (mr_sequence r) \<le> i then [] else mr_sequence r ! i)"

definition sequenceOwner :: "match_result \<Rightarrow> nat \<Rightarrow> int" where
  "sequenceOwner r i = (if length (mr_owners r) \<le> i then -1 else mr_owners r ! i)"

text \<open>
  What a finished match guarantees its readers: one value list per capture of the grammar,
  one owner per captured text, every owner a capture.  Every in-range access of the readers
  above rests on it.
\<close>

definition mr_ok :: "match_result \<Rightarrow> bool" where
  "mr_ok r \<longleftrightarrow>
     (case mr_grammar r of None \<Rightarrow> True
      | Some g \<Rightarrow> length (mr_values r) = length (g_captureNames g) \<and>
                  length (mr_owners r) = length (mr_sequence r) \<and>
                  (\<forall>i \<in> set (mr_owners r). in_range i (g_captureNames g)))"

lemma slotOf_in_range:
  assumes "mr_ok r" and "0 \<le> slotOf r name"
  shows "in_range (slotOf r name) (mr_values r)"
proof (cases "mr_grammar r")
  case (Some g)
  then show ?thesis
    using assms index_from_bounds[of 0 name "g_captureNames g"]
    by (auto simp: slotOf_def mr_ok_def in_range_def)
qed (use assms in \<open>simp add: slotOf_def\<close>)

lemma mr_has_iff_count: "mr_has r name \<longleftrightarrow> 0 < mr_count r name"
  by (simp add: mr_has_def mr_count_def Let_def)

lemma mr_reset_ok: "mr_ok (mr_reset g)"
  by (simp add: mr_ok_def mr_reset_def)

lemma mr_reset_has: "\<not> mr_has (mr_reset g) name"
  using index_from_bounds[of 0 name "g_captureNames g"]
  by (auto simp: mr_has_def mr_reset_def slotOf_def Let_def)

lemma mr_reset_get: "mr_get (mr_reset g) name = []"
  using index_from_bounds[of 0 name "g_captureNames g"]
  by (auto simp: mr_get_def mr_at_def mr_reset_def slotOf_def Let_def)

section \<open>The message a handler receives\<close>

record message =
  m_command :: string
  m_params :: "string list"
  m_trailingIndex :: int
  m_fields :: "match_result option"

definition empty_message :: message where
  "empty_message = \<lparr>m_command = [], m_params = [], m_trailingIndex = -1, m_fields = None\<rparr>"

definition hasTrailing :: "message \<Rightarrow> bool" where
  "hasTrailing m \<longleftrightarrow> 0 \<le> m_trailingIndex m"

definition matched :: "message \<Rightarrow> bool" where
  "matched m \<longleftrightarrow> m_fields m \<noteq> None"

definition m_has :: "message \<Rightarrow> string \<Rightarrow> bool" where
  "m_has m name \<longleftrightarrow> (case m_fields m of None \<Rightarrow> False | Some r \<Rightarrow> mr_has r name)"

definition m_count :: "message \<Rightarrow> string \<Rightarrow> nat" where
  "m_count m name = (case m_fields m of None \<Rightarrow> 0 | Some r \<Rightarrow> mr_count r name)"

definition m_field_at :: "message \<Rightarrow> string \<Rightarrow> nat \<Rightarrow> string" where
  "m_field_at m name i = (case m_fields m of None \<Rightarrow> [] | Some r \<Rightarrow> mr_at r name i)"

definition field :: "message \<Rightarrow> string \<Rightarrow> string" where
  "field m name = m_field_at m name 0"

definition m_list :: "'io libcpp \<Rightarrow> message \<Rightarrow> string \<Rightarrow> char \<Rightarrow> string list" where
  "m_list L m name sep = (case m_fields m of None \<Rightarrow> [] | Some r \<Rightarrow> lc_split_nonempty L (mr_at r name 0) sep)"

definition listKeepEmpty :: "'io libcpp \<Rightarrow> message \<Rightarrow> string \<Rightarrow> char \<Rightarrow> string list" where
  "listKeepEmpty L m name sep = (case m_fields m of None \<Rightarrow> [] | Some r \<Rightarrow> lc_split L (mr_at r name 0) sep)"

end
