(* ===== verification/Replies.thy ===== *)
theory Replies
  imports Prelude
begin

text \<open>
  The numerics, names and limits of \<open>include/Replies.hpp\<close>, one definition per macro.
\<close>

definition RPL_WELCOME :: string where "RPL_WELCOME = ''001''"
definition RPL_YOURHOST :: string where "RPL_YOURHOST = ''002''"
definition RPL_CREATED :: string where "RPL_CREATED = ''003''"
definition RPL_MYINFO :: string where "RPL_MYINFO = ''004''"
definition RPL_ISUPPORT :: string where "RPL_ISUPPORT = ''005''"
definition RPL_BOUNCE :: string where "RPL_BOUNCE = ''10''"
definition RPL_UMODEIS :: string where "RPL_UMODEIS = ''221''"
definition RPL_USERHOST :: string where "RPL_USERHOST = ''302''"
definition RPL_WHOISUSER :: string where "RPL_WHOISUSER = ''311''"
definition RPL_WHOISSERVER :: string where "RPL_WHOISSERVER = ''312''"
definition RPL_ENDOFWHOIS :: string where "RPL_ENDOFWHOIS = ''318''"
definition RPL_WHOISCHANNELS :: string where "RPL_WHOISCHANNELS = ''319''"
definition RPL_CHANNELMODEIS :: string where "RPL_CHANNELMODEIS = ''324''"
definition RPL_CREATIONTIME :: string where "RPL_CREATIONTIME = ''329''"
definition RPL_NOTOPIC :: string where "RPL_NOTOPIC = ''331''"
definition RPL_TOPIC :: string where "RPL_TOPIC = ''332''"
definition RPL_TOPICWHOTIME :: string where "RPL_TOPICWHOTIME = ''333''"
definition RPL_INVITING :: string where "RPL_INVITING = ''341''"
definition RPL_WHOREPLY :: string where "RPL_WHOREPLY = ''352''"
definition RPL_ENDOFWHO :: string where "RPL_ENDOFWHO = ''315''"
definition RPL_NAMREPLY :: string where "RPL_NAMREPLY = ''353''"
definition RPL_ENDOFNAMES :: string where "RPL_ENDOFNAMES = ''366''"
definition ERR_NOSUCHNICK :: string where "ERR_NOSUCHNICK = ''401''"
definition ERR_NOSUCHCHANNEL :: string where "ERR_NOSUCHCHANNEL = ''403''"
definition ERR_CANNOTSENDTOCHAN :: string where "ERR_CANNOTSENDTOCHAN = ''404''"
definition ERR_NORECIPIENT :: string where "ERR_NORECIPIENT = ''411''"
definition ERR_NOTEXTTOSEND :: string where "ERR_NOTEXTTOSEND = ''412''"
definition ERR_UNKNOWNCOMMAND :: string where "ERR_UNKNOWNCOMMAND = ''421''"
definition ERR_NOMOTD :: string where "ERR_NOMOTD = ''422''"
definition ERR_NONICKNAMEGIVEN :: string where "ERR_NONICKNAMEGIVEN = ''431''"
definition ERR_ERRONEUSNICKNAME :: string where "ERR_ERRONEUSNICKNAME = ''432''"
definition ERR_NICKNAMEINUSE :: string where "ERR_NICKNAMEINUSE = ''433''"
definition ERR_USERNOTINCHANNEL :: string where "ERR_USERNOTINCHANNEL = ''441''"
definition ERR_NOTONCHANNEL :: string where "ERR_NOTONCHANNEL = ''442''"
definition ERR_USERONCHANNEL :: string where "ERR_USERONCHANNEL = ''443''"
definition ERR_NOTREGISTERED :: string where "ERR_NOTREGISTERED = ''451''"
definition ERR_NEEDMOREPARAMS :: string where "ERR_NEEDMOREPARAMS = ''461''"
definition ERR_ALREADYREGISTRED :: string where "ERR_ALREADYREGISTRED = ''462''"
definition ERR_PASSWDMISMATCH :: string where "ERR_PASSWDMISMATCH = ''464''"
definition ERR_CHANNELISFULL :: string where "ERR_CHANNELISFULL = ''471''"
definition ERR_UNKNOWNMODE :: string where "ERR_UNKNOWNMODE = ''472''"
definition ERR_INVITEONLYCHAN :: string where "ERR_INVITEONLYCHAN = ''473''"
definition ERR_BANNEDFROMCHAN :: string where "ERR_BANNEDFROMCHAN = ''474''"
definition ERR_BADCHANNELKEY :: string where "ERR_BADCHANNELKEY = ''475''"
definition ERR_BADCHANMASK :: string where "ERR_BADCHANMASK = ''476''"
definition ERR_NOPRIVILEGES :: string where "ERR_NOPRIVILEGES = ''481''"
definition ERR_CHANOPRIVSNEEDED :: string where "ERR_CHANOPRIVSNEEDED = ''482''"
definition ERR_UMODEUNKNOWNFLAG :: string where "ERR_UMODEUNKNOWNFLAG = ''501''"
definition ERR_USERSDONTMATCH :: string where "ERR_USERSDONTMATCH = ''502''"
definition ERR_INVALIDKEY :: string where "ERR_INVALIDKEY = ''525''"
definition ERR_INVALIDMODEPARAM :: string where "ERR_INVALIDMODEPARAM = ''696''"
definition SERVER_NAME :: string where "SERVER_NAME = ''ft_irc''"
definition SERVER_VERSION :: string where "SERVER_VERSION = ''1.0''"
definition SERVER_CREATED :: string where "SERVER_CREATED = ''2025-01-01''"
definition MAX_NICKLEN :: nat where "MAX_NICKLEN = 9"
definition MAX_USERLEN :: nat where "MAX_USERLEN = 10"
definition MAX_CHANNELLEN :: nat where "MAX_CHANNELLEN = 50"
definition MAX_TOPICLEN :: nat where "MAX_TOPICLEN = 390"
definition MAX_MSGLEN :: nat where "MAX_MSGLEN = 512"
definition MAX_KEYLEN :: nat where "MAX_KEYLEN = 23"
definition MAX_USERLIMIT :: int where "MAX_USERLIMIT = 65535"
definition MAX_SENDQ :: nat where "MAX_SENDQ = 64 * 1024"
definition MAX_CLIENTS :: nat where "MAX_CLIENTS = 1024"
definition PING_INTERVAL :: int where "PING_INTERVAL = 120"
definition PING_TIMEOUT :: int where "PING_TIMEOUT = 120"
definition PENDING_CLOSE_TIMEOUT :: int where "PENDING_CLOSE_TIMEOUT = 5"

lemmas reply_defs =
  RPL_WELCOME_def RPL_YOURHOST_def RPL_CREATED_def RPL_MYINFO_def RPL_ISUPPORT_def
  RPL_BOUNCE_def RPL_UMODEIS_def RPL_USERHOST_def RPL_WHOISUSER_def RPL_WHOISSERVER_def
  RPL_ENDOFWHOIS_def RPL_WHOISCHANNELS_def RPL_CHANNELMODEIS_def RPL_CREATIONTIME_def
  RPL_NOTOPIC_def RPL_TOPIC_def RPL_TOPICWHOTIME_def RPL_INVITING_def RPL_WHOREPLY_def
  RPL_ENDOFWHO_def RPL_NAMREPLY_def RPL_ENDOFNAMES_def ERR_NOSUCHNICK_def ERR_NOSUCHCHANNEL_def
  ERR_CANNOTSENDTOCHAN_def ERR_NORECIPIENT_def ERR_NOTEXTTOSEND_def ERR_UNKNOWNCOMMAND_def
  ERR_NOMOTD_def ERR_NONICKNAMEGIVEN_def ERR_ERRONEUSNICKNAME_def ERR_NICKNAMEINUSE_def
  ERR_USERNOTINCHANNEL_def ERR_NOTONCHANNEL_def ERR_USERONCHANNEL_def ERR_NOTREGISTERED_def
  ERR_NEEDMOREPARAMS_def ERR_ALREADYREGISTRED_def ERR_PASSWDMISMATCH_def ERR_CHANNELISFULL_def
  ERR_UNKNOWNMODE_def ERR_INVITEONLYCHAN_def ERR_BANNEDFROMCHAN_def ERR_BADCHANNELKEY_def
  ERR_BADCHANMASK_def ERR_NOPRIVILEGES_def ERR_CHANOPRIVSNEEDED_def ERR_UMODEUNKNOWNFLAG_def
  ERR_USERSDONTMATCH_def ERR_INVALIDKEY_def ERR_INVALIDMODEPARAM_def SERVER_NAME_def
  SERVER_VERSION_def SERVER_CREATED_def

lemmas limit_defs =
  MAX_NICKLEN_def MAX_USERLEN_def MAX_CHANNELLEN_def MAX_TOPICLEN_def MAX_MSGLEN_def
  MAX_KEYLEN_def MAX_USERLIMIT_def MAX_SENDQ_def MAX_CLIENTS_def PING_INTERVAL_def
  PING_TIMEOUT_def PENDING_CLOSE_TIMEOUT_def

end
