(* ===== verification/Client_Model.thy ===== *)
theory Client_Model
  imports LibCpp Replies
begin

text \<open>
  \<open>src/Client.cpp\<close>: one connection.  The fields of the class are the record
  \<open>client\<close>; \<open>conn\<close> adds the buffered socket \<open>_io\<close>, whose type is the library's.
  The getters are the record's selectors, the plain setters its updates; the operations
  with a body of their own follow.
\<close>

section \<open>The state of a connection\<close>

record client =
  cl_fd :: fd
  cl_nickname :: string
  cl_username :: string
  cl_realname :: string
  cl_hostname :: string
  cl_password :: string
  cl_registered :: bool
  cl_passSent :: bool
  cl_nickSet :: bool
  cl_userSet :: bool
  cl_lastActivity :: int
  cl_pingSent :: bool
  cl_pendingClose :: bool
  cl_pendingCloseSince :: int
  cl_tearingDown :: bool
  cl_invisible :: bool
  cl_wallops :: bool

record 'io conn = client +
  cl_io :: 'io

definition newClient :: "'io libcpp \<Rightarrow> fd \<Rightarrow> string \<Rightarrow> int \<Rightarrow> 'io conn" where
  "newClient L f hostname now =
     \<lparr>cl_fd = f, cl_nickname = ''*'', cl_username = [], cl_realname = [], cl_hostname = hostname,
      cl_password = [], cl_registered = False, cl_passSent = False, cl_nickSet = False,
      cl_userSet = False, cl_lastActivity = now, cl_pingSent = False, cl_pendingClose = False,
      cl_pendingCloseSince = 0, cl_tearingDown = False, cl_invisible = False, cl_wallops = False,
      cl_io = io_new L MAX_MSGLEN MAX_SENDQ\<rparr>"

definition getUserModeString :: "'a client_scheme \<Rightarrow> string" where
  "getUserModeString c =
     ''+'' @ (if cl_invisible c then ''i'' else []) @ (if cl_wallops c then ''w'' else [])"

definition getPrefix :: "'a client_scheme \<Rightarrow> string" where
  "getPrefix c = cl_nickname c @ ''!'' @ cl_username c @ ''@'' @ cl_hostname c"

definition updateLastActivity :: "int \<Rightarrow> 'a client_scheme \<Rightarrow> 'a client_scheme" where
  "updateLastActivity now c = c\<lparr>cl_lastActivity := now\<rparr>"

definition markPendingClose :: "int \<Rightarrow> 'a client_scheme \<Rightarrow> 'a client_scheme" where
  "markPendingClose now c = c\<lparr>cl_pendingClose := True, cl_pendingCloseSince := now\<rparr>"

definition markTearingDown :: "'a client_scheme \<Rightarrow> 'a client_scheme" where
  "markTearingDown c = c\<lparr>cl_tearingDown := True\<rparr>"

section \<open>From received bytes to messages\<close>

abbreviation NUL :: char where "NUL \<equiv> CHR 0x00"
abbreviation CR :: char where "CR \<equiv> CHR 0x0D"
abbreviation LF :: char where "LF \<equiv> CHR 0x0A"

definition appendToRecvBuffer :: "'io libcpp \<Rightarrow> string \<Rightarrow> 'io conn \<Rightarrow> 'io conn" where
  "appendToRecvBuffer L data c = c\<lparr>cl_io := io_feed L (cl_io c) data\<rparr>"

fun stripNul :: "string \<Rightarrow> string" where
  "stripNul [] = []"
| "stripNul (c # s) = (if c \<noteq> NUL then c # stripNul s else stripNul s)"

function splitOnCr :: "string \<Rightarrow> string list" where
  "splitOnCr line =
     (let piece = takeWhile (\<lambda>c. c \<noteq> CR) line
      in case dropWhile (\<lambda>c. c \<noteq> CR) line of
           [] \<Rightarrow> (if piece \<noteq> [] then [piece] else [])
         | _ # rest \<Rightarrow> (if piece \<noteq> [] then [piece] else []) @ splitOnCr rest)"
  by pat_completeness auto
termination
proof (relation "measure length", goal_cases)
  case (2 line piece x rest)
  then have "length (x # rest) \<le> length line"
    using length_dropWhile_le by metis
  then show ?case by simp
qed simp

declare splitOnCr.simps [simp del]

text \<open>The loop \<open>while (_io.nextLine(line))\<close>: \<open>None\<close> if it never ends.\<close>

partial_function (option) extract_loop ::
  "'io libcpp \<Rightarrow> 'io \<Rightarrow> string list \<Rightarrow> (string list \<times> 'io) option" where
  "extract_loop L io messages =
     (case io_next_line L io of
        None \<Rightarrow> Some (messages, io)
      | Some p \<Rightarrow> extract_loop L (snd p) (messages @ splitOnCr (stripNul (fst p))))"

declare extract_loop.simps [code]

definition extractMessages :: "'io libcpp \<Rightarrow> 'io conn \<Rightarrow> (string list \<times> 'io conn) option" where
  "extractMessages L c =
     (case extract_loop L (cl_io c) [] of
        None \<Rightarrow> None
      | Some (messages, io) \<Rightarrow> Some (messages, c\<lparr>cl_io := io\<rparr>))"

lemma set_stripNul: "set (stripNul s) = set s - {NUL}"
  by (induction s) auto

lemma splitOnCr_last:
  assumes "dropWhile (\<lambda>c. c \<noteq> CR) line = []"
  shows "splitOnCr line = (if line \<noteq> [] then [line] else [])"
proof -
  have "takeWhile (\<lambda>c. c \<noteq> CR) line = line"
    using assms by (metis takeWhile_dropWhile_id append_Nil2)
  then show ?thesis
    by (simp only: splitOnCr.simps [of line] assms Let_def list.case)
qed

lemma splitOnCr_more:
  assumes "dropWhile (\<lambda>c. c \<noteq> CR) line = x # rest"
  shows "splitOnCr line =
    (if takeWhile (\<lambda>c. c \<noteq> CR) line \<noteq> [] then [takeWhile (\<lambda>c. c \<noteq> CR) line] else []) @ splitOnCr rest"
  by (simp only: splitOnCr.simps [of line] assms Let_def list.case)

lemma splitOnCr_pieces: "m \<in> set (splitOnCr line) \<Longrightarrow> m \<noteq> [] \<and> set m \<subseteq> set line - {CR}"
proof (induction line rule: splitOnCr.induct)
  case (1 line)
  let ?p = "takeWhile (\<lambda>c. c \<noteq> CR) line" and ?d = "dropWhile (\<lambda>c. c \<noteq> CR) line"
  have piece: "set ?p \<subseteq> set line - {CR}" by (auto dest: set_takeWhileD)
  show ?case
  proof (cases ?d)
    case Nil
    then have "set line = set line - {CR}" by (auto simp: dropWhile_eq_Nil_conv)
    then show ?thesis
      using "1.prems" splitOnCr_last [OF Nil] by (auto split: if_splits)
  next
    case (Cons x rest)
    have sub: "set rest \<subseteq> set line"
      using Cons set_dropWhileD by (metis list.set_intros(2) subsetI)
    consider "m = ?p" "?p \<noteq> []" | "m \<in> set (splitOnCr rest)"
      using "1.prems" splitOnCr_more [OF Cons] by (auto split: if_splits)
    then show ?thesis
    proof cases
      case 1
      then show ?thesis using piece by simp
    next
      case 2
      then show ?thesis using "1.IH"[OF refl Cons] sub by blast
    qed
  qed
qed

lemma splitOnCr_concat: "concat (splitOnCr line) = filter (\<lambda>c. c \<noteq> CR) line"
proof (induction line rule: splitOnCr.induct)
  case (1 line)
  let ?p = "takeWhile (\<lambda>c. c \<noteq> CR) line" and ?d = "dropWhile (\<lambda>c. c \<noteq> CR) line"
  have p: "filter (\<lambda>c. c \<noteq> CR) ?p = ?p" by (auto simp: filter_id_conv dest: set_takeWhileD)
  have "filter (\<lambda>c. c \<noteq> CR) line = filter (\<lambda>c. c \<noteq> CR) (?p @ ?d)" by simp
  also have "\<dots> = ?p @ filter (\<lambda>c. c \<noteq> CR) ?d" using p by (simp only: filter_append)
  finally have split: "filter (\<lambda>c. c \<noteq> CR) line = ?p @ filter (\<lambda>c. c \<noteq> CR) ?d" .
  show ?case
  proof (cases ?d)
    case Nil
    then have "filter (\<lambda>c. c \<noteq> CR) line = line"
      by (auto simp: filter_id_conv dropWhile_eq_Nil_conv)
    then show ?thesis using splitOnCr_last [OF Nil] by (simp del: dropWhile_eq_Nil_conv)
  next
    case (Cons x rest)
    then have "x = CR" using hd_dropWhile [of "\<lambda>c. c \<noteq> CR" line] by auto
    then show ?thesis
      using split "1.IH"[OF refl Cons] Cons splitOnCr_more [OF Cons] by simp
  qed
qed

definition clean_messages :: "string list \<Rightarrow> bool" where
  "clean_messages ms \<longleftrightarrow> (\<forall>m \<in> set ms. m \<noteq> [] \<and> CR \<notin> set m \<and> NUL \<notin> set m)"

lemma clean_messages_append: "clean_messages (xs @ ys) \<longleftrightarrow> clean_messages xs \<and> clean_messages ys"
  by (auto simp: clean_messages_def)

lemma clean_split: "clean_messages (splitOnCr (stripNul line))"
  using splitOnCr_pieces [of _ "stripNul line"] by (auto simp: clean_messages_def set_stripNul)

lemma extract_loop_messages:
  assumes "extract_loop L io ms0 = Some (ms, io')" and "clean_messages ms0"
  shows "clean_messages ms"
proof -
  let ?P = "\<lambda>(L :: 'a libcpp) (io :: 'a) ms0 r. clean_messages ms0 \<longrightarrow> clean_messages (fst r)"
  have "?P L io ms0 (ms, io')"
  proof (rule extract_loop.raw_induct [where P = ?P, OF _ assms(1)])
    fix f :: "'a libcpp \<Rightarrow> 'a \<Rightarrow> string list \<Rightarrow> (string list \<times> 'a) option"
    fix L :: "'a libcpp" and io messages r
    assume IH: "\<And>L io messages r. f L io messages = Some r \<Longrightarrow> ?P L io messages r"
      and eq: "(case io_next_line L io of None \<Rightarrow> Some (messages, io)
          | Some p \<Rightarrow> f L (snd p) (messages @ splitOnCr (stripNul (fst p)))) = Some r"
    show "?P L io messages r"
    proof (cases "io_next_line L io")
      case None
      then show ?thesis using eq by auto
    next
      case (Some p)
      then have "f L (snd p) (messages @ splitOnCr (stripNul (fst p))) = Some r"
        using eq by simp
      then have "?P L (snd p) (messages @ splitOnCr (stripNul (fst p))) r" by (rule IH)
      then show ?thesis using clean_split by (simp add: clean_messages_append)
    qed
  qed
  then show ?thesis using assms(2) by simp
qed

lemma extract_loop_terminates:
  assumes "next_line_law L size_in"
  shows "\<exists>r. extract_loop L io ms = Some r"
proof (induction "size_in io" arbitrary: io ms rule: less_induct)
  case less
  show ?case
  proof (cases "io_next_line L io")
    case None
    then show ?thesis by (subst extract_loop.simps) simp
  next
    case (Some p)
    then have "size_in (snd p) < size_in io"
      using assms by (cases p) (auto simp: next_line_law_def)
    then have "\<exists>r. extract_loop L (snd p) (ms @ splitOnCr (stripNul (fst p))) = Some r"
      by (rule less)
    moreover have "extract_loop L io ms = extract_loop L (snd p) (ms @ splitOnCr (stripNul (fst p)))"
      by (subst extract_loop.simps) (simp only: Some option.case)
    ultimately show ?thesis by simp
  qed
qed

section \<open>Queueing a line\<close>

text \<open>What \<open>queueMessage\<close> puts on the wire, before the CR LF the socket appends.\<close>

definition wire_of :: "string \<Rightarrow> string" where
  "wire_of msg = (let maxPayload = MAX_MSGLEN - 2
                  in if maxPayload < length msg then take maxPayload msg else msg)"

definition conn_queue :: "'io libcpp \<Rightarrow> string \<Rightarrow> 'io conn \<Rightarrow> 'io conn" where
  "conn_queue L msg c = c\<lparr>cl_io := io_queue L (cl_io c) (wire_of msg)\<rparr>"

definition getSendBuffer :: "'io libcpp \<Rightarrow> 'io conn \<Rightarrow> string" where
  "getSendBuffer L c = io_out_data L (cl_io c)"

definition clearSendBuffer :: "'io libcpp \<Rightarrow> nat \<Rightarrow> 'io conn \<Rightarrow> 'io conn" where
  "clearSendBuffer L n c = c\<lparr>cl_io := io_consume L (cl_io c) n\<rparr>"

definition hasPendingData :: "'io libcpp \<Rightarrow> 'io conn \<Rightarrow> bool" where
  "hasPendingData L c = io_has_pending L (cl_io c)"

definition isSendQExceeded :: "'io libcpp \<Rightarrow> 'io conn \<Rightarrow> bool" where
  "isSendQExceeded L c = io_overflowed L (cl_io c)"

lemma wire_of_bound: "length (wire_of msg) \<le> 510"
  by (auto simp: wire_of_def limit_defs)

lemma wire_of_short: "length msg \<le> 510 \<Longrightarrow> wire_of msg = msg"
  by (auto simp: wire_of_def limit_defs)

end
