(* ===== verification/Channel_Model.thy ===== *)
theory Channel_Model
  imports LibCpp Replies
begin

text \<open>
  \<open>src/Channel.cpp\<close>: a channel and its operations.  A \<open>Client*\<close> is the descriptor
  of the client it points to: the server owns every client object under its descriptor,
  and \<open>_members\<close> maps a descriptor to the client with that descriptor, so the key
  sequence is the whole map.  The two \<open>std::set<int>\<close> are only tested, extended and
  reduced, never iterated, and are sets here.  Operations that read a member's nickname
  take the function \<open>nickOf\<close> that dereferences the pointer.
\<close>

section \<open>The state of a channel\<close>

record channel =
  ch_name :: string
  ch_topic :: string
  ch_topicSetter :: string
  ch_topicTime :: int
  ch_creationTime :: int
  ch_key :: string
  ch_userLimit :: nat
  ch_inviteOnly :: bool
  ch_topicRestricted :: bool
  ch_members :: "fd list"
  ch_operators :: "fd set"
  ch_inviteList :: "fd set"

definition addMember :: "fd \<Rightarrow> channel \<Rightarrow> channel" where
  "addMember f ch = ch\<lparr>ch_members := os_ins f (ch_members ch)\<rparr>"

definition removeMember :: "fd \<Rightarrow> channel \<Rightarrow> channel" where
  "removeMember f ch =
     ch\<lparr>ch_members := os_del f (ch_members ch), ch_operators := ch_operators ch - {f}\<rparr>"

definition isMember :: "channel \<Rightarrow> fd \<Rightarrow> bool" where
  "isMember ch f \<longleftrightarrow> f \<in> set (ch_members ch)"

definition isEmpty :: "channel \<Rightarrow> bool" where
  "isEmpty ch \<longleftrightarrow> ch_members ch = []"

definition getMemberCount :: "channel \<Rightarrow> nat" where
  "getMemberCount ch = length (ch_members ch)"

definition isOperator :: "channel \<Rightarrow> fd \<Rightarrow> bool" where
  "isOperator ch f \<longleftrightarrow> f \<in> ch_operators ch"

definition setOperator :: "fd \<Rightarrow> bool \<Rightarrow> channel \<Rightarrow> channel" where
  "setOperator f op ch =
     (if op then ch\<lparr>ch_operators := insert f (ch_operators ch)\<rparr>
      else ch\<lparr>ch_operators := ch_operators ch - {f}\<rparr>)"

definition addInvite :: "fd \<Rightarrow> channel \<Rightarrow> channel" where
  "addInvite f ch = ch\<lparr>ch_inviteList := insert f (ch_inviteList ch)\<rparr>"

definition isInvited :: "channel \<Rightarrow> fd \<Rightarrow> bool" where
  "isInvited ch f \<longleftrightarrow> f \<in> ch_inviteList ch"

definition removeInvite :: "fd \<Rightarrow> channel \<Rightarrow> channel" where
  "removeInvite f ch = ch\<lparr>ch_inviteList := ch_inviteList ch - {f}\<rparr>"

definition newChannel :: "string \<Rightarrow> fd \<Rightarrow> int \<Rightarrow> channel" where
  "newChannel name creator now =
     setOperator creator True (addMember creator
       \<lparr>ch_name = name, ch_topic = [], ch_topicSetter = [], ch_topicTime = 0, ch_creationTime = now,
        ch_key = [], ch_userLimit = 0, ch_inviteOnly = False, ch_topicRestricted = False,
        ch_members = [], ch_operators = {}, ch_inviteList = {}\<rparr>)"

definition setTopic :: "string \<Rightarrow> string \<Rightarrow> int \<Rightarrow> channel \<Rightarrow> channel" where
  "setTopic topic setter now ch =
     ch\<lparr>ch_topic := topic, ch_topicSetter := setter, ch_topicTime := now\<rparr>"

definition removeKey :: "channel \<Rightarrow> channel" where
  "removeKey ch = ch\<lparr>ch_key := []\<rparr>"

definition removeUserLimit :: "channel \<Rightarrow> channel" where
  "removeUserLimit ch = ch\<lparr>ch_userLimit := 0\<rparr>"

definition getModeString :: "channel \<Rightarrow> string" where
  "getModeString ch =
     ''+'' @ (if ch_inviteOnly ch then ''i'' else []) @ (if ch_topicRestricted ch then ''t'' else []) @
     (if ch_key ch \<noteq> [] then ''k'' else []) @ (if 0 < ch_userLimit ch then ''l'' else [])"

definition getModeParams :: "'io libcpp \<Rightarrow> channel \<Rightarrow> string" where
  "getModeParams L ch =
     (let p1 = (if ch_key ch \<noteq> [] then ch_key ch else [])
      in if 0 < ch_userLimit ch
         then (if p1 \<noteq> [] then p1 @ '' '' else p1) @ lc_to_string L (int (ch_userLimit ch))
         else p1)"

section \<open>The member list in reply-sized chunks\<close>

fun names_loop :: "nat \<Rightarrow> string list \<Rightarrow> string list \<Rightarrow> string \<Rightarrow> string list" where
  "names_loop budget [] chunks cur = (if cur \<noteq> [] then chunks @ [cur] else chunks)"
| "names_loop budget (entry # entries) chunks cur =
     (if cur \<noteq> [] \<and> budget < length cur + 1 + length entry
      then names_loop budget entries (chunks @ [cur]) entry
      else names_loop budget entries chunks ((if cur \<noteq> [] then cur @ '' '' else cur) @ entry))"

definition names_entry :: "(fd \<Rightarrow> string) \<Rightarrow> channel \<Rightarrow> fd \<Rightarrow> string" where
  "names_entry nickOf ch f = (if f \<in> ch_operators ch then ''@'' else []) @ nickOf f"

definition getNamesChunks :: "(fd \<Rightarrow> string) \<Rightarrow> nat \<Rightarrow> channel \<Rightarrow> string list" where
  "getNamesChunks nickOf budget ch =
     (let chunks = names_loop budget (map (names_entry nickOf ch) (ch_members ch)) [] []
      in if chunks = [] then [[]] else chunks)"

definition findMember :: "'io libcpp \<Rightarrow> (fd \<Rightarrow> string) \<Rightarrow> string \<Rightarrow> channel \<Rightarrow> fd option" where
  "findMember L nickOf nickname ch =
     List.find (\<lambda>f. lc_eq_ascii_nocase L (nickOf f) nickname) (ch_members ch)"

section \<open>Well-formed channels\<close>

text \<open>
  What holds between any two commands: members in order without repetition, at least one;
  every operator is a member; nobody is both a member and invited.
\<close>

definition chan_ok :: "channel \<Rightarrow> bool" where
  "chan_ok ch \<longleftrightarrow> os_ok (ch_members ch) \<and> ch_members ch \<noteq> [] \<and>
     ch_operators ch \<subseteq> set (ch_members ch) \<and> ch_inviteList ch \<inter> set (ch_members ch) = {}"

lemma newChannel_ok: "chan_ok (newChannel name f now)"
  by (simp add: chan_ok_def newChannel_def addMember_def setOperator_def os_ins_def)

lemma addMember_removeInvite_ok:
  "chan_ok ch \<Longrightarrow> chan_ok (removeInvite f (addMember f ch))"
  by (auto simp: chan_ok_def addMember_def removeInvite_def os_ok_ins)

lemma removeMember_ok:
  "chan_ok ch \<Longrightarrow> \<not> isEmpty (removeMember f ch) \<Longrightarrow> chan_ok (removeMember f ch)"
  by (auto simp: chan_ok_def removeMember_def isEmpty_def os_ok_del)

lemma setOperator_ok: "chan_ok ch \<Longrightarrow> isMember ch f \<Longrightarrow> chan_ok (setOperator f op ch)"
  by (auto simp: chan_ok_def setOperator_def isMember_def)

lemma addInvite_ok: "chan_ok ch \<Longrightarrow> \<not> isMember ch f \<Longrightarrow> chan_ok (addInvite f ch)"
  by (auto simp: chan_ok_def addInvite_def isMember_def)

lemma removeInvite_ok: "chan_ok ch \<Longrightarrow> chan_ok (removeInvite f ch)"
  by (auto simp: chan_ok_def removeInvite_def)

lemma chan_ok_upd [simp]:
  "chan_ok (setTopic t s n ch) = chan_ok ch"
  "chan_ok (ch\<lparr>ch_key := k\<rparr>) = chan_ok ch"
  "chan_ok (ch\<lparr>ch_userLimit := l\<rparr>) = chan_ok ch"
  "chan_ok (ch\<lparr>ch_inviteOnly := b\<rparr>) = chan_ok ch"
  "chan_ok (ch\<lparr>ch_topicRestricted := b\<rparr>) = chan_ok ch"
  by (simp_all add: chan_ok_def setTopic_def)

section \<open>Membership as an interface\<close>

locale member_set =
  fixes add :: "'k \<Rightarrow> 's \<Rightarrow> 's"
    and rem :: "'k \<Rightarrow> 's \<Rightarrow> 's"
    and mem :: "'s \<Rightarrow> 'k \<Rightarrow> bool"
    and count :: "'s \<Rightarrow> nat"
    and ok :: "'s \<Rightarrow> bool"
  assumes mem_add: "mem (add k s) j \<longleftrightarrow> j = k \<or> mem s j"
    and mem_rem: "mem (rem k s) j \<longleftrightarrow> j \<noteq> k \<and> mem s j"
    and ok_add: "ok s \<Longrightarrow> ok (add k s)"
    and ok_rem: "ok s \<Longrightarrow> ok (rem k s)"
    and count_card: "ok s \<Longrightarrow> finite {j. mem s j} \<and> count s = card {j. mem s j}"
begin

lemma count_add: "ok s \<Longrightarrow> count (add k s) = (if mem s k then count s else Suc (count s))"
proof -
  assume ok: "ok s"
  have eq: "{j. mem (add k s) j} = insert k {j. mem s j}" by (auto simp: mem_add)
  show ?thesis
    using count_card [OF ok] count_card [OF ok_add [OF ok]] by (auto simp: eq insert_absorb)
qed

lemma count_rem: "ok s \<Longrightarrow> count (rem k s) = (if mem s k then count s - 1 else count s)"
proof -
  assume ok: "ok s"
  have eq: "{j. mem (rem k s) j} = {j. mem s j} - {k}" by (auto simp: mem_rem)
  show ?thesis
    using count_card [OF ok] count_card [OF ok_rem [OF ok]] by (auto simp: eq)
qed

lemma count_add_bound: "ok s \<Longrightarrow> count s < n \<Longrightarrow> count (add k s) \<le> n"
  by (simp add: count_add)

lemma rem_add_fresh: "\<not> mem s k \<Longrightarrow> mem (rem k (add k s)) j \<longleftrightarrow> mem s j"
  by (auto simp: mem_add mem_rem)

end

interpretation members: member_set addMember removeMember isMember getMemberCount
  "\<lambda>ch. os_ok (ch_members ch)"
proof unfold_locales
  fix s :: channel
  assume ok: "os_ok (ch_members s)"
  have "{j. isMember s j} = set (ch_members s)" by (auto simp: isMember_def)
  then show "finite {j. isMember s j} \<and> getMemberCount s = card {j. isMember s j}"
    using ok by (simp add: getMemberCount_def distinct_card strict_sorted_iff)
qed (auto simp: addMember_def removeMember_def isMember_def os_ok_ins os_ok_del)

interpretation invites: member_set addInvite removeInvite isInvited
  "\<lambda>ch. card (ch_inviteList ch)" "\<lambda>ch. finite (ch_inviteList ch)"
  by unfold_locales (auto simp: addInvite_def removeInvite_def isInvited_def)

section \<open>What the chunks are\<close>

text \<open>Words joined by single blanks.\<close>

fun join_words :: "string list \<Rightarrow> string" where
  "join_words [] = []"
| "join_words [w] = w"
| "join_words (w # v # ws) = w @ '' '' @ join_words (v # ws)"

lemma join_words_snoc: "ws \<noteq> [] \<Longrightarrow> join_words (ws @ [w]) = join_words ws @ '' '' @ w"
  by (induction ws rule: join_words.induct) auto

lemma join_words_empty: "\<forall>w \<in> set ws. w \<noteq> [] \<Longrightarrow> join_words ws = [] \<longleftrightarrow> ws = []"
  by (induction ws rule: join_words.induct) auto

text \<open>
  The loop cuts the entries into consecutive non-empty groups and joins each: nothing is
  lost, repeated or reordered.
\<close>

lemma names_loop_groups:
  assumes "\<forall>w \<in> set entries \<union> set ws. w \<noteq> []" and "cur = join_words ws"
  shows "\<exists>groups. names_loop budget entries chunks cur = chunks @ map join_words groups \<and>
           concat groups = ws @ entries \<and> [] \<notin> set groups"
  using assms
proof (induction entries arbitrary: chunks cur ws)
  case Nil
  show ?case
  proof (cases "ws = []")
    case True
    then show ?thesis using Nil by (intro exI[of _ "[]"]) simp
  next
    case False
    then have "cur \<noteq> []" using Nil join_words_empty[of ws] by auto
    then show ?thesis using Nil False by (intro exI[of _ "[ws]"]) simp
  qed
next
  case (Cons entry entries)
  show ?case
  proof (cases "cur \<noteq> [] \<and> budget < length cur + 1 + length entry")
    case True
    then have ws: "ws \<noteq> []" using Cons.prems by auto
    obtain groups where "names_loop budget entries (chunks @ [cur]) entry =
        (chunks @ [cur]) @ map join_words groups" "concat groups = [entry] @ entries" "[] \<notin> set groups"
      using Cons.IH[of "[entry]" entry "chunks @ [cur]"] Cons.prems(1) by auto
    then show ?thesis
      using True ws Cons.prems(2) by (intro exI[of _ "ws # groups"]) simp
  next
    case False
    have emp: "cur = [] \<longleftrightarrow> ws = []" using Cons.prems join_words_empty[of ws] by auto
    have "(if cur \<noteq> [] then cur @ '' '' else cur) @ entry = join_words (ws @ [entry])"
      using emp Cons.prems(2) join_words_snoc[of ws entry] by auto
    then show ?thesis
      using False Cons.IH[of "ws @ [entry]" "join_words (ws @ [entry])" chunks] Cons.prems(1) by auto
  qed
qed

lemma names_loop_bound:
  assumes "\<forall>w \<in> set entries. length w \<le> budget" and "\<forall>c \<in> set chunks. length c \<le> budget"
    and "length cur \<le> budget"
  shows "\<forall>c \<in> set (names_loop budget entries chunks cur). length c \<le> budget"
  using assms by (induction budget entries chunks cur rule: names_loop.induct) auto

lemma names_loop_nonempty:
  assumes "\<forall>w \<in> set entries. w \<noteq> []" and "entries \<noteq> [] \<or> cur \<noteq> []"
  shows "names_loop budget entries chunks cur \<noteq> []"
  using assms by (induction budget entries chunks cur rule: names_loop.induct) auto

end
