(* ===== verification/World.thy ===== *)
theory World
  imports Log_Trace Message_Fields Client_Model Channel_Model
begin

text \<open>
  The state of \<open>Server\<close> (\<open>include/Server.hpp\<close>) and the parts of \<open>src/Server.cpp\<close>
  every command uses: looking up clients and channels, queueing lines, replies, channel
  creation and removal, the name rules, the audit fan-out.

  Objects and pointers.  The server owns every \<open>Client\<close> in \<open>_clients\<close> under its
  descriptor and every \<open>Channel\<close> in \<open>_channels\<close> under its folded name, so a
  \<open>Client*\<close> is a descriptor and a \<open>Channel*\<close> a key; \<open>cl w f\<close> and \<open>chan w k\<close>
  dereference them.  They are unspecified on a dangling pointer, as in C++; that no
  pointer the state holds ever dangles is part of the invariant (theory Invariant).

  The environment.  \<open>w_clock n\<close> is the value the \<open>n\<close>-th call of \<open>std::time\<close> returns and
  \<open>w_mem n\<close> tells whether the \<open>n\<close>-th guarded \<open>new\<close> succeeds, \<open>w_localtime\<close> is
  \<open>strftime("%Y-%m-%d %H:%M:%S")\<close> of the host's local time; \<open>w_calls\<close> records the
  system calls made.
\<close>

section \<open>The state of the extensions\<close>

record transfer =
  tf_senderFd :: fd
  tf_recipientFd :: fd
  tf_filename :: string
  tf_declaredSize :: nat
  tf_relayedBytes :: nat
  tf_accepted :: bool
  tf_lastActivity :: int

record file_ext =
  ft_transfers :: "(int \<times> transfer) list"
  ft_nextId :: int

record audit_ext =
  au_ok :: bool
  au_rows :: "(int \<times> string \<times> string \<times> string) list"

datatype extension = ExtBot nat | ExtFile file_ext | ExtAudit audit_ext

section \<open>The state of the server\<close>

datatype os_call = OsAdd fd "32 word" | OsModify fd "32 word" | OsRemove fd | OsClose fd | OsLinger fd

record 'io world =
  w_password :: string
  w_clients :: "(fd \<times> 'io conn) list"
  w_epollMask :: "(fd \<times> 32 word) list"
  w_channels :: "(string \<times> channel) list"
  w_exts :: "extension list"
  w_lastPingCheck :: int
  w_closeTimeout :: int
  w_trace :: trace_state
  w_clock :: "nat \<Rightarrow> int"
  w_ticks :: nat
  w_mem :: "nat \<Rightarrow> bool"
  w_allocs :: nat
  w_localtime :: "int \<Rightarrow> string"
  w_calls :: "os_call list"

definition cl :: "'io world \<Rightarrow> fd \<Rightarrow> 'io conn" where
  "cl w f = the (map_of (w_clients w) f)"

definition chan :: "'io world \<Rightarrow> string \<Rightarrow> channel" where
  "chan w k = the (map_of (w_channels w) k)"

definition upd_client :: "fd \<Rightarrow> ('io conn \<Rightarrow> 'io conn) \<Rightarrow> 'io world \<Rightarrow> 'io world" where
  "upd_client f g w = w\<lparr>w_clients := om_upd f g (w_clients w)\<rparr>"

definition upd_chan :: "string \<Rightarrow> (channel \<Rightarrow> channel) \<Rightarrow> 'io world \<Rightarrow> 'io world" where
  "upd_chan k g w = w\<lparr>w_channels := om_upd k g (w_channels w)\<rparr>"

definition upd_trace :: "(trace_state \<Rightarrow> trace_state) \<Rightarrow> 'io world \<Rightarrow> 'io world" where
  "upd_trace g w = w\<lparr>w_trace := g (w_trace w)\<rparr>"

definition os_call :: "os_call \<Rightarrow> 'io world \<Rightarrow> 'io world" where
  "os_call c w = w\<lparr>w_calls := w_calls w @ [c]\<rparr>"

definition read_clock :: "'io world \<Rightarrow> int \<times> 'io world" where
  "read_clock w = (w_clock w (w_ticks w), w\<lparr>w_ticks := Suc (w_ticks w)\<rparr>)"

definition try_alloc :: "'io world \<Rightarrow> bool \<times> 'io world" where
  "try_alloc w = (w_mem w (w_allocs w), w\<lparr>w_allocs := Suc (w_allocs w)\<rparr>)"

abbreviation nick_of :: "'io world \<Rightarrow> fd \<Rightarrow> string" where
  "nick_of w f \<equiv> cl_nickname (cl w f)"

section \<open>Names\<close>

definition ircToLower :: "'io libcpp \<Rightarrow> string \<Rightarrow> string" where
  "ircToLower L s = lc_ascii_to_lower L s"

definition ircEquals :: "'io libcpp \<Rightarrow> string \<Rightarrow> string \<Rightarrow> bool" where
  "ircEquals L a b = lc_eq_ascii_nocase L a b"

definition is_alpha :: "char \<Rightarrow> bool" where
  "is_alpha c \<longleftrightarrow> (CHR ''A'' \<le> c \<and> c \<le> CHR ''Z'') \<or> (CHR ''a'' \<le> c \<and> c \<le> CHR ''z'')"

definition is_alnum :: "char \<Rightarrow> bool" where
  "is_alnum c \<longleftrightarrow> is_alpha c \<or> (CHR ''0'' \<le> c \<and> c \<le> CHR ''9'')"

definition isValidNickname :: "string \<Rightarrow> bool" where
  "isValidNickname nick \<longleftrightarrow>
     (case nick of [] \<Rightarrow> False
      | first # rest \<Rightarrow>
          (is_alpha first \<or> first \<in> set ''[]{}'' \<or> first = CHR 0x5C \<or> first \<in> set ''|^_'') \<and>
          list_all (\<lambda>c. is_alnum c \<or> c \<in> set ''[]{}'' \<or> c = CHR 0x5C \<or> c \<in> set ''|^_-'') rest)"

definition isValidChannelName :: "string \<Rightarrow> bool" where
  "isValidChannelName name \<longleftrightarrow>
     (if name = [] \<or> MAX_CHANNELLEN < length name then False
      else if hd name \<noteq> CHR ''#'' then False
      else if length name < 2 then False
      else list_all (\<lambda>c. c \<noteq> CHR '' '' \<and> c \<noteq> CHR 0x07 \<and> c \<noteq> CHR '','') name)"

text \<open>The static checks of \<open>CommandRegistration.cpp\<close> and \<open>CommandOperator.cpp\<close>.\<close>

definition isValidUsernameChar :: "char \<Rightarrow> bool" where
  "isValidUsernameChar c \<longleftrightarrow>
     (CHR 0x01 \<le> c \<and> c \<le> CHR 0x09) \<or> (CHR 0x0B \<le> c \<and> c \<le> CHR 0x0C) \<or> (CHR 0x0E \<le> c \<and> c \<le> CHR 0x1F) \<or>
     (CHR 0x21 \<le> c \<and> c \<le> CHR 0x3F) \<or> CHR 0x41 \<le> c"

definition isValidUsername :: "string \<Rightarrow> bool" where
  "isValidUsername user \<longleftrightarrow> user \<noteq> [] \<and> list_all isValidUsernameChar user"

definition isValidChannelKey :: "string \<Rightarrow> bool" where
  "isValidChannelKey key \<longleftrightarrow>
     (if key = [] \<or> MAX_KEYLEN < length key then False
      else list_all (\<lambda>c. \<not> (c \<le> CHR '' '' \<or> c = CHR '','')) key)"

section \<open>Lookups\<close>

definition findClientByFd :: "fd \<Rightarrow> 'io world \<Rightarrow> fd option" where
  "findClientByFd f w = (case map_of (w_clients w) f of None \<Rightarrow> None | Some _ \<Rightarrow> Some f)"

definition findClientByNick :: "'io libcpp \<Rightarrow> string \<Rightarrow> 'io world \<Rightarrow> fd option" where
  "findClientByNick L nickname w =
     map_option fst
       (List.find (\<lambda>e. cl_registered (snd e) \<and> \<not> cl_tearingDown (snd e) \<and>
                       ircEquals L (cl_nickname (snd e)) nickname) (w_clients w))"

definition isNickInUse :: "'io libcpp \<Rightarrow> string \<Rightarrow> fd \<Rightarrow> 'io world \<Rightarrow> bool" where
  "isNickInUse L nickname except w =
     list_ex (\<lambda>e. fst e \<noteq> except \<and> \<not> cl_tearingDown (snd e) \<and>
                  ircEquals L (cl_nickname (snd e)) nickname) (w_clients w)"

definition findChannel :: "'io libcpp \<Rightarrow> string \<Rightarrow> 'io world \<Rightarrow> string option" where
  "findChannel L name w =
     (let k = ircToLower L name
      in case map_of (w_channels w) k of None \<Rightarrow> None | Some _ \<Rightarrow> Some k)"

section \<open>Sending\<close>

definition queueMessage :: "'io libcpp \<Rightarrow> fd \<Rightarrow> string \<Rightarrow> 'io world \<Rightarrow> 'io world" where
  "queueMessage L f msg w =
     upd_trace (trace_outbound L f (nick_of w f) (wire_of msg)) (upd_client f (conn_queue L msg) w)"

definition sendToClient :: "'io libcpp \<Rightarrow> fd \<Rightarrow> string \<Rightarrow> 'io world \<Rightarrow> 'io world" where
  "sendToClient L f msg w = queueMessage L f ('':'' @ SERVER_NAME @ '' '' @ msg) w"

definition sendReply :: "'io libcpp \<Rightarrow> fd \<Rightarrow> string \<Rightarrow> string \<Rightarrow> 'io world \<Rightarrow> 'io world" where
  "sendReply L f numeric params w =
     queueMessage L f ('':'' @ SERVER_NAME @ '' '' @ numeric @ '' '' @ nick_of w f @ '' '' @ params) w"

definition broadcastMessage ::
  "'io libcpp \<Rightarrow> string \<Rightarrow> fd option \<Rightarrow> channel \<Rightarrow> 'io world \<Rightarrow> 'io world" where
  "broadcastMessage L msg exclude ch w =
     foldl (\<lambda>w f. if exclude = Some f then w else queueMessage L f msg w) w (ch_members ch)"

section \<open>Channels of the server\<close>

definition createChannel ::
  "'io libcpp \<Rightarrow> string \<Rightarrow> fd \<Rightarrow> 'io world \<Rightarrow> string option \<times> 'io world" where
  "createChannel L name creator w =
     (let (got, w1) = try_alloc w
      in if \<not> got then (None, upd_trace (log_error (''out of memory: cannot create channel '' @ name)) w1)
         else let (now, w2) = read_clock w1; k = ircToLower L name
              in (Some k, w2\<lparr>w_channels := om_put k (newChannel name creator now) (w_channels w2)\<rparr>))"

definition removeChannel :: "'io libcpp \<Rightarrow> string \<Rightarrow> 'io world \<Rightarrow> 'io world" where
  "removeChannel L name w = w\<lparr>w_channels := om_del (ircToLower L name) (w_channels w)\<rparr>"

section \<open>Audit\<close>

text \<open>
  \<open>AuditLog::log\<close>: one CSV row per event, when the writer is usable.  The row's time stamp
  is the clock reading; its formatting by \<open>strftime\<close> is not modelled.
\<close>

definition audit_log :: "nat \<Rightarrow> audit_ext \<Rightarrow> string \<Rightarrow> string \<Rightarrow> string \<Rightarrow> 'io world \<Rightarrow> 'io world" where
  "audit_log i a event actor detail w =
     (if \<not> au_ok a then w
      else let (now, w1) = read_clock w
           in w1\<lparr>w_exts := (w_exts w1)[i := ExtAudit (a\<lparr>au_rows := au_rows a @ [(now, event, actor, detail)]\<rparr>)]\<rparr>)"

definition ext_onAudit :: "string \<Rightarrow> string \<Rightarrow> string \<Rightarrow> 'io world \<Rightarrow> nat \<Rightarrow> 'io world" where
  "ext_onAudit event actor detail w i =
     (case w_exts w ! i of
        ExtAudit a \<Rightarrow> audit_log i a event actor detail w
      | _ \<Rightarrow> w)"

definition audit :: "string \<Rightarrow> string \<Rightarrow> string \<Rightarrow> 'io world \<Rightarrow> 'io world" where
  "audit event actor detail w = foldl (ext_onAudit event actor detail) w [0..<length (w_exts w)]"

section \<open>The view that sending and auditing leave alone\<close>

text \<open>The clients without their sockets.\<close>

definition skel :: "'io world \<Rightarrow> (fd \<times> client) list" where
  "skel w = map (\<lambda>e. (fst e, client.truncate (snd e))) (w_clients w)"

text \<open>The extensions without the audit rows.\<close>

fun ext_core :: "extension \<Rightarrow> extension" where
  "ext_core (ExtAudit a) = ExtAudit (a\<lparr>au_rows := []\<rparr>)"
| "ext_core e = e"

definition core :: "'io world \<Rightarrow> (fd \<times> client) list \<times> (string \<times> channel) list \<times> extension list
    \<times> string \<times> (fd \<times> 32 word) list" where
  "core w = (skel w, w_channels w, map ext_core (w_exts w), w_password w, w_epollMask w)"

lemma core_eqD:
  fixes w w' :: "'io world"
  assumes "core w = core w'"
  shows "skel w = skel w'" "w_channels w = w_channels w'" "map ext_core (w_exts w) = map ext_core (w_exts w')"
    "w_password w = w_password w'" "w_epollMask w = w_epollMask w'"
  using assms by (auto simp: core_def)

lemma map_of_map_snd: "map_of (map (\<lambda>e. (fst e, g (snd e))) m) f = map_option g (map_of m f)"
  by (induction m) auto

lemma skel_look: "map_of (skel w) f = map_option client.truncate (map_of (w_clients w) f)"
  by (simp add: skel_def map_of_map_snd)

lemma skel_keys [simp]: "map fst (skel w) = map fst (w_clients w)"
  by (simp add: skel_def comp_def)

lemma truncate_fields:
  "cl_fd (client.truncate c) = cl_fd c" "cl_nickname (client.truncate c) = cl_nickname c"
  "cl_username (client.truncate c) = cl_username c" "cl_realname (client.truncate c) = cl_realname c"
  "cl_hostname (client.truncate c) = cl_hostname c" "cl_password (client.truncate c) = cl_password c"
  "cl_registered (client.truncate c) = cl_registered c" "cl_passSent (client.truncate c) = cl_passSent c"
  "cl_nickSet (client.truncate c) = cl_nickSet c" "cl_userSet (client.truncate c) = cl_userSet c"
  "cl_pendingClose (client.truncate c) = cl_pendingClose c"
  "cl_tearingDown (client.truncate c) = cl_tearingDown c"
  "cl_invisible (client.truncate c) = cl_invisible c" "cl_wallops (client.truncate c) = cl_wallops c"
  "cl_pingSent (client.truncate c) = cl_pingSent c"
  "cl_lastActivity (client.truncate c) = cl_lastActivity c"
  by (simp_all add: client.truncate_def)

lemma skel_truncate_cl:
  fixes w w' :: "'io world"
  assumes "skel w = skel w'"
  shows "client.truncate (cl w f) = client.truncate (cl w' f)"
proof -
  note assms
  then have eq: "map_option client.truncate (map_of (w_clients w) f) =
      map_option client.truncate (map_of (w_clients w') f)"
    by (metis skel_look)
  show ?thesis
    using eq by (cases "map_of (w_clients w) f"; cases "map_of (w_clients w') f") (auto simp: cl_def)
qed

lemma skel_cl_fields:
  fixes w w' :: "'io world"
  assumes "skel w = skel w'"
  shows "cl_fd (cl w f) = cl_fd (cl w' f)" "cl_nickname (cl w f) = cl_nickname (cl w' f)"
    "cl_username (cl w f) = cl_username (cl w' f)" "cl_realname (cl w f) = cl_realname (cl w' f)"
    "cl_hostname (cl w f) = cl_hostname (cl w' f)" "cl_password (cl w f) = cl_password (cl w' f)"
    "cl_registered (cl w f) = cl_registered (cl w' f)" "cl_passSent (cl w f) = cl_passSent (cl w' f)"
    "cl_nickSet (cl w f) = cl_nickSet (cl w' f)" "cl_userSet (cl w f) = cl_userSet (cl w' f)"
    "cl_pendingClose (cl w f) = cl_pendingClose (cl w' f)"
    "cl_tearingDown (cl w f) = cl_tearingDown (cl w' f)"
    "getPrefix (cl w f) = getPrefix (cl w' f)"
    "map_of (w_clients w) f = None \<longleftrightarrow> map_of (w_clients w') f = None"
proof -
  note t = arg_cong [OF skel_truncate_cl [OF assms, of f]]
  show "cl_fd (cl w f) = cl_fd (cl w' f)" using t [of cl_fd] by (simp only: truncate_fields)
  show nick: "cl_nickname (cl w f) = cl_nickname (cl w' f)"
    using t [of cl_nickname] by (simp only: truncate_fields)
  show user: "cl_username (cl w f) = cl_username (cl w' f)"
    using t [of cl_username] by (simp only: truncate_fields)
  show "cl_realname (cl w f) = cl_realname (cl w' f)"
    using t [of cl_realname] by (simp only: truncate_fields)
  show host: "cl_hostname (cl w f) = cl_hostname (cl w' f)"
    using t [of cl_hostname] by (simp only: truncate_fields)
  show "cl_password (cl w f) = cl_password (cl w' f)"
    using t [of cl_password] by (simp only: truncate_fields)
  show "cl_registered (cl w f) = cl_registered (cl w' f)"
    using t [of cl_registered] by (simp only: truncate_fields)
  show "cl_passSent (cl w f) = cl_passSent (cl w' f)"
    using t [of cl_passSent] by (simp only: truncate_fields)
  show "cl_nickSet (cl w f) = cl_nickSet (cl w' f)"
    using t [of cl_nickSet] by (simp only: truncate_fields)
  show "cl_userSet (cl w f) = cl_userSet (cl w' f)"
    using t [of cl_userSet] by (simp only: truncate_fields)
  show "cl_pendingClose (cl w f) = cl_pendingClose (cl w' f)"
    using t [of cl_pendingClose] by (simp only: truncate_fields)
  show "cl_tearingDown (cl w f) = cl_tearingDown (cl w' f)"
    using t [of cl_tearingDown] by (simp only: truncate_fields)
  show "getPrefix (cl w f) = getPrefix (cl w' f)"
    by (simp only: getPrefix_def nick user host)
  show "map_of (w_clients w) f = None \<longleftrightarrow> map_of (w_clients w') f = None"
    using assms skel_look by (metis option.map_disc_iff)
qed

lemma find_map: "List.find P (map g xs) = map_option g (List.find (P \<circ> g) xs)"
  by (induction xs) auto

lemma list_ex_map: "list_ex P (map g xs) = list_ex (P \<circ> g) xs"
  by (induction xs) auto

lemma findClientByNick_skel: "findClientByNick L n w =
    map_option fst (List.find (\<lambda>e. cl_registered (snd e) \<and> \<not> cl_tearingDown (snd e) \<and>
       ircEquals L (cl_nickname (snd e)) n) (skel w))"
  by (simp add: findClientByNick_def skel_def find_map comp_def truncate_fields option.map_comp)

lemma isNickInUse_skel: "isNickInUse L n f w =
    list_ex (\<lambda>e. fst e \<noteq> f \<and> \<not> cl_tearingDown (snd e) \<and> ircEquals L (cl_nickname (snd e)) n) (skel w)"
  by (simp add: isNickInUse_def skel_def list_ex_map comp_def truncate_fields)

lemma core_views:
  fixes w w' :: "'io world"
  assumes "core w = core w'"
  shows "findChannel L n w = findChannel L n w'" "findClientByNick L n w = findClientByNick L n w'"
    "isNickInUse L n f w = isNickInUse L n f w'" "chan w k = chan w' k"
    "map fst (w_clients w) = map fst (w_clients w')" "findClientByFd f w = findClientByFd f w'"
    "length (w_exts w) = length (w_exts w')"
proof -
  note c = core_eqD [OF assms]
  show "findChannel L n w = findChannel L n w'" by (simp add: findChannel_def c)
  show "findClientByNick L n w = findClientByNick L n w'" by (simp add: findClientByNick_skel c)
  show "isNickInUse L n f w = isNickInUse L n f w'" by (simp add: isNickInUse_skel c)
  show "chan w k = chan w' k" by (simp add: chan_def c)
  show keys: "map fst (w_clients w) = map fst (w_clients w')" using c(1) skel_keys by metis
  show "findClientByFd f w = findClientByFd f w'"
    using skel_cl_fields(14) [OF c(1), of f] by (auto simp: findClientByFd_def split: option.split)
  show "length (w_exts w) = length (w_exts w')" using c(3) by (metis length_map)
qed

lemmas core_fields = core_eqD core_views skel_cl_fields [OF core_eqD(1)]

section \<open>Sending and auditing keep the view\<close>

lemma skel_upd_client:
  assumes "\<And>c. client.truncate (g c) = h (client.truncate c)"
  shows "skel (upd_client f g w) = om_upd f h (skel w)"
  by (simp add: skel_def upd_client_def om_upd_def assms)

lemma skel_upd_client_same:
  assumes "\<And>c. client.truncate (g c) = client.truncate c"
  shows "skel (upd_client f g w) = skel w"
  by (auto simp: skel_def upd_client_def om_upd_def assms)

lemma truncate_io [simp]: "client.truncate (c\<lparr>cl_io := io\<rparr>) = client.truncate c"
  by (simp add: client.truncate_def)

lemma truncate_conn_queue [simp]: "client.truncate (conn_queue L msg c) = client.truncate c"
  by (simp add: conn_queue_def)

lemma upd_client_other [simp]:
  "w_channels (upd_client f g w) = w_channels w" "w_exts (upd_client f g w) = w_exts w"
  "w_password (upd_client f g w) = w_password w" "w_epollMask (upd_client f g w) = w_epollMask w"
  "w_trace (upd_client f g w) = w_trace w" "w_calls (upd_client f g w) = w_calls w"
  "map fst (w_clients (upd_client f g w)) = map fst (w_clients w)"
  by (simp_all add: upd_client_def)

lemma core_upd_trace [simp]: "core (upd_trace g w) = core w"
  by (simp add: core_def upd_trace_def skel_def)

lemma core_os_call [simp]: "core (os_call c w) = core w"
  by (simp add: core_def os_call_def skel_def)

lemma core_read_clock [simp]: "core (snd (read_clock w)) = core w"
  by (simp add: core_def read_clock_def skel_def)

lemma core_try_alloc [simp]: "core (snd (try_alloc w)) = core w"
  by (simp add: core_def try_alloc_def skel_def)

lemma core_upd_client_same:
  "(\<And>c. client.truncate (g c) = client.truncate c) \<Longrightarrow> core (upd_client f g w) = core w"
  by (simp add: core_def skel_upd_client_same)

lemma core_queueMessage [simp]: "core (queueMessage L f msg w) = core w"
  by (simp add: queueMessage_def core_upd_client_same)

lemma core_sendToClient [simp]: "core (sendToClient L f msg w) = core w"
  by (simp add: sendToClient_def)

lemma core_sendReply [simp]: "core (sendReply L f numeric params w) = core w"
  by (simp add: sendReply_def)

lemma core_foldl:
  assumes "\<And>w x. core (step w x) = core w"
  shows "core (foldl step w xs) = core w"
  using assms by (rule foldl_frame)

lemma core_broadcastMessage [simp]: "core (broadcastMessage L msg ex ch w) = core w"
  unfolding broadcastMessage_def by (rule core_foldl) simp

text \<open>
  A long sequence of sends is a chain of \<open>let\<close>s; unfolding them copies the terms, so the
  chain is followed one binding at a time.
\<close>

lemma let_core: "(\<And>x. core x = core t \<Longrightarrow> core (f x) = c) \<Longrightarrow> core (Let t f) = c"
  by simp

lemma let_pure: "(\<And>x. core (f x) = c) \<Longrightarrow> core (Let t f) = c"
  by simp

lemma ext_core_update:
  assumes "map ext_core xs ! i = ext_core e" and "i < length xs"
  shows "map ext_core (xs[i := e]) = map ext_core xs"
  using assms by (metis list_update_id map_update)

lemma core_ext_onAudit [simp]: "core (ext_onAudit ev actor detail w i) = core w"
proof (cases "i < length (w_exts w)")
  case True
  then show ?thesis
    by (auto simp: ext_onAudit_def audit_log_def read_clock_def core_def skel_def ext_core_update
        split: extension.split)
next
  case False
  then have "(w_exts w)[i := e] = w_exts w" for e by (simp add: list_update_beyond)
  then show ?thesis
    by (auto simp: ext_onAudit_def audit_log_def read_clock_def core_def skel_def
        split: extension.split)
qed

lemma core_audit [simp]: "core (audit ev actor detail w) = core w"
  unfolding audit_def by (rule core_foldl) simp

lemmas queueMessage_frame [simp] = core_fields [OF core_queueMessage]
lemmas sendToClient_frame [simp] = core_fields [OF core_sendToClient]
lemmas sendReply_frame [simp] = core_fields [OF core_sendReply]
lemmas broadcastMessage_frame [simp] = core_fields [OF core_broadcastMessage]
lemmas audit_frame [simp] = core_fields [OF core_audit]
lemmas upd_trace_frame [simp] = core_fields [OF core_upd_trace]
lemmas os_call_frame [simp] = core_fields [OF core_os_call]
lemmas read_clock_frame [simp] = core_fields [OF core_read_clock]
lemmas try_alloc_frame [simp] = core_fields [OF core_try_alloc]

section \<open>The client table\<close>

text \<open>Keys are ordered and each client sits under its own descriptor.\<close>

definition table_ok :: "'io world \<Rightarrow> bool" where
  "table_ok w \<longleftrightarrow> om_ok (skel w) \<and> (\<forall>f c. map_of (skel w) f = Some c \<longrightarrow> cl_fd c = f)"

text \<open>The clients that are connected and not being torn down.\<close>

definition live :: "'io world \<Rightarrow> fd set" where
  "live w = {f. \<exists>c. map_of (skel w) f = Some c \<and> \<not> cl_tearingDown c}"

lemma live_cl:
  "f \<in> live w \<longleftrightarrow> map_of (w_clients w) f \<noteq> None \<and> \<not> cl_tearingDown (cl w f)"
  by (auto simp: live_def skel_look cl_def truncate_fields)

lemma table_ok_fd: "table_ok w \<Longrightarrow> f \<in> live w \<Longrightarrow> cl_fd (cl w f) = f"
proof -
  assume t: "table_ok w" and "f \<in> live w"
  then obtain c where c: "map_of (w_clients w) f = Some c" by (auto simp: live_cl)
  then have "map_of (skel w) f = Some (client.truncate c)" by (simp add: skel_look)
  then have "cl_fd (client.truncate c) = f" using t unfolding table_ok_def by blast
  with c show "cl_fd (cl w f) = f" by (simp add: cl_def truncate_fields)
qed

lemma findClientByNick_live:
  assumes "table_ok w" and "findClientByNick L n w = Some r"
  shows "r \<in> live w" "cl_registered (cl w r)" "ircEquals L (nick_of w r) n"
proof -
  obtain e where e: "List.find (\<lambda>e. cl_registered (snd e) \<and> \<not> cl_tearingDown (snd e) \<and>
      ircEquals L (cl_nickname (snd e)) n) (w_clients w) = Some e" "fst e = r"
    using assms(2) by (auto simp: findClientByNick_def)
  then have p: "e \<in> set (w_clients w)" "cl_registered (snd e)" "\<not> cl_tearingDown (snd e)"
      "ircEquals L (cl_nickname (snd e)) n"
    by (auto simp: find_Some_iff)
  have "map_of (w_clients w) r = Some (snd e)"
    using assms(1) p(1) e(2) om_ok_distinct [of "skel w"] by (auto simp: table_ok_def)
  then show "r \<in> live w" "cl_registered (cl w r)" "ircEquals L (nick_of w r) n"
    using p by (auto simp: live_cl cl_def)
qed

lemma findClientByFd_Some: "findClientByFd f w = Some g \<Longrightarrow> g = f"
  by (auto simp: findClientByFd_def split: option.splits)

lemma findClientByFd_live: "f \<in> live w \<Longrightarrow> findClientByFd f w = Some f"
  by (auto simp: findClientByFd_def live_cl)

lemma core_live:
  fixes w w' :: "'io world"
  assumes "core w = core w'"
  shows "live w = live w'" "table_ok w = table_ok w'"
  using core_eqD(1) [OF assms] by (simp_all add: live_def table_ok_def)

lemmas live_frame [simp] =
  core_live [OF core_queueMessage] core_live [OF core_sendToClient] core_live [OF core_sendReply]
  core_live [OF core_broadcastMessage] core_live [OF core_audit] core_live [OF core_upd_trace]
  core_live [OF core_os_call] core_live [OF core_read_clock] core_live [OF core_try_alloc]

end
