(* ===== verification/Bot_Ext.thy ===== *)
theory Bot_Ext
  imports World
begin

text \<open>
  \<open>src/Bot.cpp\<close>: the service bot, an extension that answers private messages to the
  nickname it reserves.  Its only mutable state is the index of the next joke; an
  operation takes that state and the world and returns both.
\<close>

definition bot_nickname :: string where
  "bot_nickname = ''ircbot''"

definition bot_jokes :: "string list" where
  "bot_jokes =
     [''Why do programmers prefer dark mode? Because light attracts bugs.'',
      ''There are only 10 types of people in the world: those who understand '' @
      ''binary and those who don't.'',
      ''A SQL query walks into a bar, sees two tables and asks: 'Can I JOIN you?'' @ [CHR 0x27],
      ''Why do Java programmers wear glasses? Because they don't C#.'',
      ''!false '' @ em_dash @ '' It's funny because it's true.'',
      ''How many programmers does it take to change a light bulb? None, that's a '' @
      ''hardware problem.'',
      ''An IRC user walks into a bar. The bartender says: 'What'll it be?' The '' @
      ''user says: '/quit'.'',
      ''Knock knock. Who's there? Recursion. Recursion who? Knock knock.'']"

definition bot_jokeCount :: nat where
  "bot_jokeCount = 8"

definition bot_reservesNick :: "'io libcpp \<Rightarrow> string \<Rightarrow> bool" where
  "bot_reservesNick L nick = ircEquals L nick bot_nickname"

definition bot_reply :: "'io libcpp \<Rightarrow> fd \<Rightarrow> string \<Rightarrow> 'io world \<Rightarrow> 'io world" where
  "bot_reply L f text w =
     queueMessage L f ('':'' @ bot_nickname @ '' PRIVMSG '' @ nick_of w f @ '' :'' @ text) w"

definition bot_cmdHelp :: "'io libcpp \<Rightarrow> fd \<Rightarrow> 'io world \<Rightarrow> 'io world" where
  "bot_cmdHelp L f w =
     foldl (\<lambda>w line. bot_reply L f line w) w
       [''Available commands:'',
        ''  !help           - Show this help message'',
        ''  !time           - Show current server time'',
        ''  !info [#chan]    - Show server or channel info'',
        ''  !joke           - Tell a random joke'']"

definition bot_cmdTime :: "'io libcpp \<Rightarrow> fd \<Rightarrow> 'io world \<Rightarrow> 'io world" where
  "bot_cmdTime L f w =
     (let (now, w1) = read_clock w in bot_reply L f (''Server time: '' @ w_localtime w1 now) w1)"

definition bot_cmdInfo :: "'io libcpp \<Rightarrow> fd \<Rightarrow> string \<Rightarrow> 'io world \<Rightarrow> 'io world" where
  "bot_cmdInfo L f param w =
     (if param = [] \<or> hd param \<noteq> CHR ''#'' then
        bot_reply L f (''Server: '' @ SERVER_NAME @ '' v'' @ SERVER_VERSION) w
      else case findChannel L param w of
        None \<Rightarrow> bot_reply L f (''Channel '' @ param @ '' does not exist.'') w
      | Some k \<Rightarrow>
          let ch = chan w k;
              w1 = bot_reply L f (''Channel '' @ param @ '': '' @ lc_to_string L (int (getMemberCount ch)) @
                                  '' users, modes: '' @ getModeString ch) w
          in if ch_topic ch \<noteq> [] then bot_reply L f (''Topic: '' @ ch_topic ch) w1 else w1)"

definition bot_cmdJoke :: "'io libcpp \<Rightarrow> fd \<Rightarrow> nat \<times> 'io world \<Rightarrow> nat \<times> 'io world" where
  "bot_cmdJoke L f = (\<lambda>(nextJoke, w).
     ((nextJoke + 1) mod bot_jokeCount, bot_reply L f (bot_jokes ! nextJoke) w))"

text \<open>\<open>iss >> cmd\<close> and \<open>getline(iss >> ws, param)\<close>.\<close>

definition is_space :: "char \<Rightarrow> bool" where
  "is_space c \<longleftrightarrow> c = CHR '' '' \<or> (CHR 0x09 \<le> c \<and> c \<le> CHR 0x0D)"

definition bot_parse :: "string \<Rightarrow> string \<times> string" where
  "bot_parse text =
     (let s = dropWhile is_space text;
          rest = dropWhile (\<lambda>c. \<not> is_space c) s
      in (takeWhile (\<lambda>c. \<not> is_space c) s, takeWhile (\<lambda>c. c \<noteq> LF) (dropWhile is_space rest)))"

definition bot_handleMessage ::
  "'io libcpp \<Rightarrow> fd \<Rightarrow> string \<Rightarrow> nat \<times> 'io world \<Rightarrow> nat \<times> 'io world" where
  "bot_handleMessage L f text = (\<lambda>(n, w).
     if text = [] then (n, w)
     else let (cmd, param) = bot_parse text
          in if cmd = ''!help'' then (n, bot_cmdHelp L f w)
             else if cmd = ''!time'' then (n, bot_cmdTime L f w)
             else if cmd = ''!info'' then (n, bot_cmdInfo L f param w)
             else if cmd = ''!joke'' then bot_cmdJoke L f (n, w)
             else (n, bot_reply L f ''Unknown command. Type !help for available commands.'' w))"

definition bot_onPrivmsg ::
  "'io libcpp \<Rightarrow> fd \<Rightarrow> string \<Rightarrow> string \<Rightarrow> nat \<times> 'io world \<Rightarrow> bool \<times> nat \<times> 'io world" where
  "bot_onPrivmsg L f target text st =
     (if \<not> ircEquals L target bot_nickname then (False, st)
      else (True, bot_handleMessage L f text st))"

section \<open>The bot only sends\<close>

lemma core_bot_reply [simp]: "core (bot_reply L f text w) = core w"
  by (simp add: bot_reply_def)

lemmas bot_reply_frame [simp] = core_fields [OF core_bot_reply]

lemma core_bot_cmdHelp [simp]: "core (bot_cmdHelp L f w) = core w"
  unfolding bot_cmdHelp_def by (rule core_foldl) simp

lemma core_bot_cmdTime [simp]: "core (bot_cmdTime L f w) = core w"
  using core_read_clock [of w] by (simp add: bot_cmdTime_def case_prod_beta)

lemma core_bot_cmdInfo [simp]: "core (bot_cmdInfo L f param w) = core w"
  by (simp add: bot_cmdInfo_def Let_def split: option.split)

lemma core_bot_handle [simp]: "core (snd (bot_handleMessage L f text st)) = core (snd st)"
  by (cases st) (simp add: bot_handleMessage_def bot_cmdJoke_def case_prod_beta)

lemma core_bot_onPrivmsg [simp]: "core (snd (snd (bot_onPrivmsg L f target text st))) = core (snd st)"
  by (simp add: bot_onPrivmsg_def)

lemma bot_joke_index:
  "fst st < bot_jokeCount \<Longrightarrow> fst (snd (bot_onPrivmsg L f target text st)) < bot_jokeCount"
  by (cases st) (simp add: bot_onPrivmsg_def bot_handleMessage_def bot_cmdJoke_def bot_jokeCount_def case_prod_beta)

lemma bot_jokes_length: "length bot_jokes = bot_jokeCount"
  by (simp add: bot_jokes_def bot_jokeCount_def)

end
