(* ===== verification/File_Transfer.thy ===== *)
theory File_Transfer
  imports World
begin

text \<open>
  \<open>src/bonus/FileTransferExt.cpp\<close>: the extension that relays files between two clients
  over the command \<open>FILE\<close>.  \<open>_transfers\<close> and \<open>_nextId\<close> are the record
  \<open>file_ext\<close>; an operation takes it together with the world and returns both.

  Identifiers are mathematical integers: \<open>_nextId\<close> is a 64-bit counter that grows by one per
  offer, so its overflow needs 2^63 offers.  \<open>relayedBytes + decodedBytes\<close> stays below
  twice \<open>MAX_FILE_SIZE\<close> by the invariant below, so \<open>unsigned long\<close> never wraps there.
\<close>

definition MAX_FILE_SIZE :: int where "MAX_FILE_SIZE = 50 * 1024 * 1024"
definition MAX_CHUNK_B64 :: nat where "MAX_CHUNK_B64 = 400"
definition MAX_FILENAME :: nat where "MAX_FILENAME = 64"
definition IDLE_TIMEOUT :: int where "IDLE_TIMEOUT = 60"
definition LONG_MAX :: int where "LONG_MAX = 9223372036854775807"

section \<open>The checks on parameters\<close>

definition isValidFilename :: "string \<Rightarrow> bool" where
  "isValidFilename name \<longleftrightarrow>
     (if name = [] \<or> MAX_FILENAME < length name then False
      else if name = ''.'' \<or> name = ''..'' then False
      else list_all (\<lambda>c. \<not> (c \<le> CHR '' '' \<or> c = CHR 0x7F \<or> c = CHR ''/'' \<or> c = CHR 0x5C \<or> c = CHR '','')) name)"

text \<open>The comparisons are on \<open>char\<close> and only bytes below 128 can pass them.\<close>

definition is_b64 :: "char \<Rightarrow> bool" where
  "is_b64 c \<longleftrightarrow> is_alnum c \<or> c = CHR ''+'' \<or> c = CHR ''/'' \<or> c = CHR ''=''"

definition isBase64Chunk :: "string \<Rightarrow> bool" where
  "isBase64Chunk chunk \<longleftrightarrow>
     (if chunk = [] \<or> MAX_CHUNK_B64 < length chunk then False else list_all is_b64 chunk)"

definition decodedBytes :: "string \<Rightarrow> nat" where
  "decodedBytes chunk =
     (let n = length chunk;
          pad = (if n \<noteq> 0 \<and> chunk ! (n - 1) = CHR ''='' then 1 else 0) +
                (if 1 < n \<and> chunk ! (n - 2) = CHR ''='' then 1 else 0);
          raw = n * 3 div 4
      in if pad < raw then raw - pad else 0)"

definition parseId :: "'io libcpp \<Rightarrow> string \<Rightarrow> int option" where
  "parseId L s = lc_parse_long L s 1 LONG_MAX"

section \<open>The table of transfers\<close>

definition ft_new :: file_ext where
  "ft_new = \<lparr>ft_transfers = [], ft_nextId = 1\<rparr>"

definition ft_notice :: "'io libcpp \<Rightarrow> fd \<Rightarrow> string \<Rightarrow> 'io world \<Rightarrow> 'io world" where
  "ft_notice L f text w = sendToClient L f (''NOTICE '' @ nick_of w f @ '' :'' @ text) w"

definition findById :: "int \<Rightarrow> file_ext \<Rightarrow> transfer option" where
  "findById tid t = map_of (ft_transfers t) tid"

definition findActive :: "fd \<Rightarrow> fd \<Rightarrow> file_ext \<Rightarrow> int" where
  "findActive senderFd recipientFd t =
     (case List.find (\<lambda>e. tf_senderFd (snd e) = senderFd \<and> tf_recipientFd (snd e) = recipientFd) (ft_transfers t) of
        None \<Rightarrow> 0
      | Some e \<Rightarrow> fst e)"

definition ft_erase :: "int \<Rightarrow> file_ext \<Rightarrow> file_ext" where
  "ft_erase tid t = t\<lparr>ft_transfers := om_del tid (ft_transfers t)\<rparr>"

definition ft_upd :: "int \<Rightarrow> (transfer \<Rightarrow> transfer) \<Rightarrow> file_ext \<Rightarrow> file_ext" where
  "ft_upd tid g t = t\<lparr>ft_transfers := om_upd tid g (ft_transfers t)\<rparr>"

definition abortTransfer ::
  "'io libcpp \<Rightarrow> int \<Rightarrow> string \<Rightarrow> file_ext \<times> 'io world \<Rightarrow> file_ext \<times> 'io world" where
  "abortTransfer L tid why = (\<lambda>(t, w).
     case findById tid t of
       None \<Rightarrow> (t, w)
     | Some tr \<Rightarrow>
         let line = ''FILE ABRT '' @ lc_to_string L tid @ '' :'' @ why;
             sender = findClientByFd (tf_senderFd tr) w;
             recipient = findClientByFd (tf_recipientFd tr) w;
             w1 = (case sender of None \<Rightarrow> w | Some s \<Rightarrow> ft_notice L s line w);
             w2 = (case recipient of None \<Rightarrow> w1 | Some r \<Rightarrow> ft_notice L r line w1)
         in (ft_erase tid t, w2))"

section \<open>The subcommands\<close>

definition ft_cmdSend ::
  "'io libcpp \<Rightarrow> fd \<Rightarrow> string list \<Rightarrow> file_ext \<times> 'io world \<Rightarrow> file_ext \<times> 'io world" where
  "ft_cmdSend L f params = (\<lambda>(t, w).
     if length params < 4 then (t, ft_notice L f ''FILE SEND usage: FILE SEND <nick> <file> <size>'' w)
     else let nick = params ! 1; filename = params ! 2 in
     case findClientByNick L nick w of
       None \<Rightarrow> (t, ft_notice L f (''FILE: no such nick '' @ nick) w)
     | Some r \<Rightarrow>
         if \<not> cl_registered (cl w r) then (t, ft_notice L f (''FILE: no such nick '' @ nick) w)
         else if r = f then (t, ft_notice L f ''FILE: cannot send to yourself'' w)
         else if \<not> isValidFilename filename then (t, ft_notice L f ''FILE: invalid filename'' w)
         else case lc_parse_ulong L (params ! 3) 1 MAX_FILE_SIZE of
           None \<Rightarrow> (t, ft_notice L f (''FILE: invalid size (1..'' @ lc_to_string L MAX_FILE_SIZE @ '')'') w)
         | Some fsize \<Rightarrow>
             if findActive (cl_fd (cl w f)) (cl_fd (cl w r)) t \<noteq> 0
             then (t, ft_notice L f (''FILE: a transfer to '' @ nick @ '' is already active'') w)
             else
               let tid = ft_nextId t;
                   (now, w1) = read_clock w;
                   tr = \<lparr>tf_senderFd = cl_fd (cl w f), tf_recipientFd = cl_fd (cl w r), tf_filename = filename,
                         tf_declaredSize = nat fsize, tf_relayedBytes = 0, tf_accepted = False,
                         tf_lastActivity = now\<rparr>;
                   t1 = \<lparr>ft_transfers = om_put tid tr (ft_transfers t), ft_nextId = tid + 1\<rparr>;
                   w2 = queueMessage L r ('':'' @ getPrefix (cl w1 f) @ '' FILE OFFER '' @ lc_to_string L tid @
                          '' '' @ filename @ '' '' @ lc_to_string L fsize) w1;
                   w3 = ft_notice L f (''FILE '' @ lc_to_string L tid @ '' offered to '' @ nick) w2
               in (t1, audit ''file-offer'' (nick_of w3 f)
                         (nick @ '' '' @ filename @ '' '' @ lc_to_string L fsize) w3))"

definition ft_cmdAnswer ::
  "'io libcpp \<Rightarrow> fd \<Rightarrow> string list \<Rightarrow> bool \<Rightarrow> file_ext \<times> 'io world \<Rightarrow> file_ext \<times> 'io world" where
  "ft_cmdAnswer L f params accept = (\<lambda>(t, w).
     case (if length params < 2 then None else parseId L (params ! 1)) of
       None \<Rightarrow> (t, ft_notice L f ''FILE: usage: FILE ACCEPT|REJECT <id>'' w)
     | Some tid \<Rightarrow>
       (case findById tid t of
          None \<Rightarrow> (t, ft_notice L f (''FILE: no offer with id '' @ params ! 1) w)
        | Some tr \<Rightarrow>
            if tf_recipientFd tr \<noteq> cl_fd (cl w f)
            then (t, ft_notice L f (''FILE: no offer with id '' @ params ! 1) w)
            else (case findClientByFd (tf_senderFd tr) w of
               None \<Rightarrow> (ft_erase tid t, ft_notice L f ''FILE: sender is gone'' w)
             | Some s \<Rightarrow>
                 let (now, w1) = read_clock w;
                     t1 = ft_upd tid (\<lambda>x. x\<lparr>tf_lastActivity := now\<rparr>) t
                 in if accept then
                      (ft_upd tid (\<lambda>x. x\<lparr>tf_accepted := True\<rparr>) t1,
                       audit ''file-accept'' (nick_of w1 f) (tf_filename tr)
                         (queueMessage L s ('':'' @ getPrefix (cl w1 f) @ '' FILE OK '' @ lc_to_string L tid) w1))
                    else
                      (ft_erase tid t1,
                       audit ''file-reject'' (nick_of w1 f) (tf_filename tr)
                         (queueMessage L s ('':'' @ getPrefix (cl w1 f) @ '' FILE NO '' @ lc_to_string L tid) w1)))))"

definition ft_cmdData ::
  "'io libcpp \<Rightarrow> fd \<Rightarrow> string list \<Rightarrow> file_ext \<times> 'io world \<Rightarrow> file_ext \<times> 'io world" where
  "ft_cmdData L f params = (\<lambda>(t, w).
     case (if length params < 3 then None else parseId L (params ! 1)) of
       None \<Rightarrow> (t, ft_notice L f ''FILE: usage: FILE DATA <id> <base64>'' w)
     | Some tid \<Rightarrow>
       (case findById tid t of
          None \<Rightarrow> (t, ft_notice L f (''FILE: no transfer with id '' @ params ! 1) w)
        | Some tr \<Rightarrow>
            let chunk = params ! 2 in
            if tf_senderFd tr \<noteq> cl_fd (cl w f)
            then (t, ft_notice L f (''FILE: no transfer with id '' @ params ! 1) w)
            else if \<not> tf_accepted tr
            then (t, ft_notice L f (''FILE: transfer '' @ params ! 1 @ '' not accepted yet'') w)
            else if \<not> isBase64Chunk chunk then abortTransfer L tid ''malformed chunk'' (t, w)
            else if decodedBytes chunk = 0 then abortTransfer L tid ''malformed chunk'' (t, w)
            else if tf_declaredSize tr < tf_relayedBytes tr + decodedBytes chunk
            then abortTransfer L tid ''size overrun'' (t, w)
            else case findClientByFd (tf_recipientFd tr) w of
              None \<Rightarrow> abortTransfer L tid ''peer disconnected'' (t, w)
            | Some r \<Rightarrow>
                if MAX_SENDQ div 2 < length (getSendBuffer L (cl w r))
                then (t, ft_notice L f (''FILE WAIT '' @ params ! 1) w)
                else
                  let (now, w1) = read_clock w in
                  (ft_upd tid (\<lambda>x. x\<lparr>tf_relayedBytes := tf_relayedBytes x + decodedBytes chunk,
                                   tf_lastActivity := now\<rparr>) t,
                   queueMessage L r ('':'' @ getPrefix (cl w1 f) @ '' FILE DATA '' @ params ! 1 @ '' '' @ chunk) w1)))"

definition ft_cmdEnd ::
  "'io libcpp \<Rightarrow> fd \<Rightarrow> string list \<Rightarrow> file_ext \<times> 'io world \<Rightarrow> file_ext \<times> 'io world" where
  "ft_cmdEnd L f params = (\<lambda>(t, w).
     case (if length params < 2 then None else parseId L (params ! 1)) of
       None \<Rightarrow> (t, ft_notice L f ''FILE: usage: FILE END <id>'' w)
     | Some tid \<Rightarrow>
       (case findById tid t of
          None \<Rightarrow> (t, ft_notice L f (''FILE: no transfer with id '' @ params ! 1) w)
        | Some tr \<Rightarrow>
            if tf_senderFd tr \<noteq> cl_fd (cl w f)
            then (t, ft_notice L f (''FILE: no transfer with id '' @ params ! 1) w)
            else
              let relayed = lc_to_string L (int (tf_relayedBytes tr));
                  w1 = (case findClientByFd (tf_recipientFd tr) w of
                          None \<Rightarrow> w
                        | Some r \<Rightarrow> queueMessage L r ('':'' @ getPrefix (cl w f) @ '' FILE END '' @ params ! 1 @
                                       '' '' @ relayed) w)
              in (ft_erase tid t, audit ''file-end'' (nick_of w1 f) (tf_filename tr @ '' '' @ relayed) w1)))"

definition ft_cmdAbort ::
  "'io libcpp \<Rightarrow> fd \<Rightarrow> string list \<Rightarrow> file_ext \<times> 'io world \<Rightarrow> file_ext \<times> 'io world" where
  "ft_cmdAbort L f params = (\<lambda>(t, w).
     case (if length params < 2 then None else parseId L (params ! 1)) of
       None \<Rightarrow> (t, ft_notice L f ''FILE: usage: FILE ABORT <id>'' w)
     | Some tid \<Rightarrow>
       (case findById tid t of
          None \<Rightarrow> (t, ft_notice L f (''FILE: no transfer with id '' @ params ! 1) w)
        | Some tr \<Rightarrow>
            if tf_senderFd tr \<noteq> cl_fd (cl w f) \<and> tf_recipientFd tr \<noteq> cl_fd (cl w f)
            then (t, ft_notice L f (''FILE: no transfer with id '' @ params ! 1) w)
            else abortTransfer L tid (''aborted by '' @ nick_of w f) (t, w)))"

section \<open>The extension's callbacks\<close>

definition ft_onCommand ::
  "'io libcpp \<Rightarrow> fd \<Rightarrow> message \<Rightarrow> file_ext \<times> 'io world \<Rightarrow> bool \<times> file_ext \<times> 'io world" where
  "ft_onCommand L f msg = (\<lambda>(t, w).
     if m_command msg \<noteq> ''FILE'' then (False, t, w)
     else if m_params msg = [] then
       (True, t, ft_notice L f (''FILE usage: SEND <nick> <file> <size> | ACCEPT/REJECT <id> | '' @
                                ''DATA <id> <b64> | END <id> | ABORT <id>'') w)
     else
       let params = m_params msg; sub = lc_to_upper L (params ! 0) in
       (True,
        if sub = ''SEND'' then ft_cmdSend L f params (t, w)
        else if sub = ''ACCEPT'' then ft_cmdAnswer L f params True (t, w)
        else if sub = ''REJECT'' then ft_cmdAnswer L f params False (t, w)
        else if sub = ''DATA'' then ft_cmdData L f params (t, w)
        else if sub = ''END'' then ft_cmdEnd L f params (t, w)
        else if sub = ''ABORT'' then ft_cmdAbort L f params (t, w)
        else (t, ft_notice L f (''FILE: unknown subcommand '' @ sub) w)))"

text \<open>
  Both loops walk the map and erase at most the entry they stand on, so they visit the
  entries the map has when the loop starts.
\<close>

definition ft_onClientDisconnect ::
  "'io libcpp \<Rightarrow> fd \<Rightarrow> file_ext \<times> 'io world \<Rightarrow> file_ext \<times> 'io world" where
  "ft_onClientDisconnect L f = (\<lambda>(t, w).
     foldl (\<lambda>st e. if tf_senderFd (snd e) = cl_fd (cl w f) \<or> tf_recipientFd (snd e) = cl_fd (cl w f)
                   then abortTransfer L (fst e) ''peer disconnected'' st else st)
       (t, w) (ft_transfers t))"

definition ft_onTick ::
  "'io libcpp \<Rightarrow> int \<Rightarrow> file_ext \<times> 'io world \<Rightarrow> file_ext \<times> 'io world" where
  "ft_onTick L now = (\<lambda>(t, w).
     foldl (\<lambda>st e. if IDLE_TIMEOUT < now - tf_lastActivity (snd e)
                   then abortTransfer L (fst e) ''timeout'' st else st)
       (t, w) (ft_transfers t))"

section \<open>The extension only sends: it leaves the server's own state alone\<close>

lemma core_ft_notice [simp]: "core (ft_notice L f text w) = core w"
  by (simp add: ft_notice_def)

lemmas ft_notice_frame [simp] = core_fields [OF core_ft_notice]

lemma core_abort [simp]: "core (snd (abortTransfer L i why st)) = core (snd st)"
  by (cases st) (simp add: abortTransfer_def Let_def split: option.split)

lemma core_ft_cmdSend [simp]: "core (snd (ft_cmdSend L f ps st)) = core (snd st)"
  by (cases st) (simp add: ft_cmdSend_def Let_def case_prod_beta split: option.split)

lemma core_ft_cmdAnswer [simp]: "core (snd (ft_cmdAnswer L f ps acc st)) = core (snd st)"
  by (cases st) (simp add: ft_cmdAnswer_def Let_def case_prod_beta split: option.split)

lemma core_ft_cmdData [simp]: "core (snd (ft_cmdData L f ps st)) = core (snd st)"
  by (cases st) (simp add: ft_cmdData_def Let_def case_prod_beta split: option.split)

lemma core_ft_cmdEnd [simp]: "core (snd (ft_cmdEnd L f ps st)) = core (snd st)"
  by (cases st) (simp add: ft_cmdEnd_def Let_def case_prod_beta split: option.split)

lemma core_ft_cmdAbort [simp]: "core (snd (ft_cmdAbort L f ps st)) = core (snd st)"
  by (cases st) (simp add: ft_cmdAbort_def split: option.split)

lemma core_ft_onCommand [simp]: "core (snd (snd (ft_onCommand L f msg st))) = core (snd st)"
  by (cases st) (simp add: ft_onCommand_def Let_def)

lemma core_ft_onDisconnect [simp]: "core (snd (ft_onClientDisconnect L f st)) = core (snd st)"
proof -
  obtain t w where "st = (t, w)" by (cases st)
  then show ?thesis
    using foldl_frame [where view = "\<lambda>st. core (snd st)" and xs = "ft_transfers t" and w = "(t, w)" and
      step = "\<lambda>st e. if tf_senderFd (snd e) = cl_fd (cl w f) \<or> tf_recipientFd (snd e) = cl_fd (cl w f)
        then abortTransfer L (fst e) ''peer disconnected'' st else st"]
    by (simp add: ft_onClientDisconnect_def)
qed

lemma core_ft_onTick [simp]: "core (snd (ft_onTick L now st)) = core (snd st)"
proof -
  obtain t w where "st = (t, w)" by (cases st)
  then show ?thesis
    using foldl_frame [where view = "\<lambda>st. core (snd st)" and xs = "ft_transfers t" and w = "(t, w)" and
      step = "\<lambda>st e. if IDLE_TIMEOUT < now - tf_lastActivity (snd e)
        then abortTransfer L (fst e) ''timeout'' st else st"]
    by (simp add: ft_onTick_def)
qed

section \<open>What every transfer in the table satisfies\<close>

definition transfer_ok :: "transfer \<Rightarrow> bool" where
  "transfer_ok tr \<longleftrightarrow> tf_senderFd tr \<noteq> tf_recipientFd tr \<and> tf_relayedBytes tr \<le> tf_declaredSize tr \<and>
     1 \<le> tf_declaredSize tr \<and> int (tf_declaredSize tr) \<le> MAX_FILE_SIZE \<and>
     (tf_accepted tr \<or> tf_relayedBytes tr = 0) \<and> isValidFilename (tf_filename tr)"

definition pair_of :: "transfer \<Rightarrow> fd \<times> fd" where
  "pair_of tr = (tf_senderFd tr, tf_recipientFd tr)"

definition ft_ok :: "file_ext \<Rightarrow> bool" where
  "ft_ok t \<longleftrightarrow> om_ok (ft_transfers t) \<and> 1 \<le> ft_nextId t \<and>
     (\<forall>i tr. findById i t = Some tr \<longrightarrow> 1 \<le> i \<and> i < ft_nextId t \<and> transfer_ok tr) \<and>
     (\<forall>i j a b. findById i t = Some a \<and> findById j t = Some b \<and> pair_of a = pair_of b \<longrightarrow> i = j)"

text \<open>The clients a transfer is between are among those in \<open>fs\<close>.\<close>

definition ft_within :: "fd set \<Rightarrow> file_ext \<Rightarrow> bool" where
  "ft_within fs t \<longleftrightarrow> (\<forall>i tr. findById i t = Some tr \<longrightarrow> tf_senderFd tr \<in> fs \<and> tf_recipientFd tr \<in> fs)"

lemma ft_new_ok: "ft_ok ft_new" "ft_within fs ft_new"
  by (simp_all add: ft_ok_def ft_within_def ft_new_def findById_def)

lemma findById_erase [simp]: "findById j (ft_erase i t) = (if j = i then None else findById j t)"
  by (simp add: findById_def ft_erase_def map_simps)

lemma findById_upd [simp]:
  "findById j (ft_upd i g t) = (if j = i then map_option g (findById i t) else findById j t)"
  by (simp add: findById_def ft_upd_def map_simps)

lemma ft_ok_erase: "ft_ok t \<Longrightarrow> ft_ok (ft_erase i t)"
  unfolding ft_ok_def by (auto simp: om_ok_del) (simp_all add: ft_erase_def om_ok_del)

lemma ft_within_erase: "ft_within fs t \<Longrightarrow> ft_within fs (ft_erase i t)"
  by (auto simp: ft_within_def)

lemma ft_ok_upd:
  assumes "ft_ok t" and "\<And>tr. findById i t = Some tr \<Longrightarrow> transfer_ok tr \<Longrightarrow> transfer_ok (g tr)"
    and "\<And>tr. pair_of (g tr) = pair_of tr"
  shows "ft_ok (ft_upd i g t)"
proof -
  have f: "ft_nextId (ft_upd i g t) = ft_nextId t" "om_ok (ft_transfers (ft_upd i g t)) = om_ok (ft_transfers t)"
    by (simp_all add: ft_upd_def)
  show ?thesis
    using assms unfolding ft_ok_def f by (auto split: if_splits)
qed

lemma ft_within_upd:
  assumes "ft_within fs t" and "\<And>tr. pair_of (g tr) = pair_of tr"
  shows "ft_within fs (ft_upd i g t)"
  using assms by (auto simp: ft_within_def pair_of_def split: if_splits)

lemma findActive_none:
  assumes "ft_ok t" and "findActive s r t = 0" and "findById i t = Some tr"
  shows "pair_of tr \<noteq> (s, r)"
proof
  assume "pair_of tr = (s, r)"
  moreover have "(i, tr) \<in> set (ft_transfers t)"
    using assms(3) by (simp add: findById_def om_look_in)
  ultimately obtain e where e: "List.find (\<lambda>e. tf_senderFd (snd e) = s \<and> tf_recipientFd (snd e) = r)
      (ft_transfers t) = Some e"
    by (cases "List.find (\<lambda>e. tf_senderFd (snd e) = s \<and> tf_recipientFd (snd e) = r) (ft_transfers t)")
      (auto simp: find_None_iff pair_of_def)
  then have "e \<in> set (ft_transfers t)" by (metis find_Some_iff nth_mem)
  then have "findById (fst e) t = Some (snd e)"
    using assms(1) by (simp add: ft_ok_def findById_def om_ok_distinct)
  then have "1 \<le> fst e" using assms(1) by (simp add: ft_ok_def)
  then show False using assms(2) e by (simp add: findActive_def)
qed

lemma ft_ok_offer:
  assumes "ft_ok t" and "transfer_ok tr" and "findActive (tf_senderFd tr) (tf_recipientFd tr) t = 0"
  shows "ft_ok \<lparr>ft_transfers = om_put (ft_nextId t) tr (ft_transfers t), ft_nextId = ft_nextId t + 1\<rparr>"
proof -
  let ?t = "\<lparr>ft_transfers = om_put (ft_nextId t) tr (ft_transfers t), ft_nextId = ft_nextId t + 1\<rparr>"
  have look: "findById j ?t = (if j = ft_nextId t then Some tr else findById j t)" for j
    by (simp add: findById_def map_simps)
  have pair: "pair_of a \<noteq> pair_of tr" if "findById j t = Some a" for j a
    using findActive_none [OF assms(1,3) that] by (simp add: pair_of_def)
  have ids: "\<And>j a. findById j ?t = Some a \<Longrightarrow> 1 \<le> j \<and> j < ft_nextId t + 1 \<and> transfer_ok a"
    using assms(1,2) unfolding look ft_ok_def by (fastforce split: if_splits)
  have uniq: "\<And>i j a b. findById i ?t = Some a \<Longrightarrow> findById j ?t = Some b \<Longrightarrow> pair_of a = pair_of b \<Longrightarrow> i = j"
    using assms(1) pair unfolding look ft_ok_def by (metis option.inject)
  have "om_ok (ft_transfers ?t)" "1 \<le> ft_nextId ?t"
    using assms(1) by (simp_all add: ft_ok_def om_ok_put)
  then show ?thesis
    using ids uniq unfolding ft_ok_def by auto
qed

section \<open>Every operation keeps it\<close>

definition ft_good :: "fd set \<Rightarrow> file_ext \<Rightarrow> bool" where
  "ft_good fs t \<longleftrightarrow> ft_ok t \<and> ft_within fs t"

lemma ft_good_erase [intro]: "ft_good fs t \<Longrightarrow> ft_good fs (ft_erase i t)"
  by (simp add: ft_good_def ft_ok_erase ft_within_erase)

lemma ft_good_upd:
  assumes "ft_good fs t" and "\<And>tr. findById i t = Some tr \<Longrightarrow> transfer_ok tr \<Longrightarrow> transfer_ok (g tr)"
    and "\<And>tr. pair_of (g tr) = pair_of tr"
  shows "ft_good fs (ft_upd i g t)"
  using assms by (simp add: ft_good_def ft_ok_upd ft_within_upd)

lemma fst_abort: "fst (abortTransfer L i why (t, w)) = (case findById i t of None \<Rightarrow> t | Some _ \<Rightarrow> ft_erase i t)"
  by (simp add: abortTransfer_def Let_def split: option.split)

lemma ft_good_abort [intro]: "ft_good fs (fst st) \<Longrightarrow> ft_good fs (fst (abortTransfer L i why st))"
  by (cases st) (auto simp: fst_abort split: option.split)

lemma ft_good_cmdSend:
  assumes "parse_law L" and "table_ok w" and "f \<in> live w" and "ft_good (live w) t"
  shows "ft_good (live w) (fst (ft_cmdSend L f ps (t, w)))"
proof -
  have offer: "ft_good (live w) \<lparr>ft_transfers = om_put (ft_nextId t) tr (ft_transfers t), ft_nextId = ft_nextId t + 1\<rparr>"
    if r: "findClientByNick L (ps ! 1) w = Some r" "r \<noteq> f" and fn: "isValidFilename (ps ! 2)"
      and sz: "lc_parse_ulong L (ps ! 3) 1 MAX_FILE_SIZE = Some n"
      and a: "findActive (cl_fd (cl w f)) (cl_fd (cl w r)) t = 0"
      and tr: "tr = \<lparr>tf_senderFd = cl_fd (cl w f), tf_recipientFd = cl_fd (cl w r), tf_filename = ps ! 2,
        tf_declaredSize = nat n, tf_relayedBytes = 0, tf_accepted = False, tf_lastActivity = now\<rparr>"
    for r n now tr
  proof -
    have rl: "r \<in> live w" using findClientByNick_live [OF assms(2) r(1)] by simp
    have n: "1 \<le> n" "n \<le> MAX_FILE_SIZE" using assms(1) sz by (auto simp: parse_law_def)
    have "transfer_ok tr"
      using r(2) fn n table_ok_fd [OF assms(2,3)] table_ok_fd [OF assms(2) rl]
      by (simp add: transfer_ok_def tr)
    then have "ft_ok \<lparr>ft_transfers = om_put (ft_nextId t) tr (ft_transfers t), ft_nextId = ft_nextId t + 1\<rparr>"
      using assms(4) a by (intro ft_ok_offer) (simp_all add: ft_good_def tr)
    moreover have "ft_within (live w) \<lparr>ft_transfers = om_put (ft_nextId t) tr (ft_transfers t), ft_nextId = ft_nextId t + 1\<rparr>"
      using assms(4) table_ok_fd [OF assms(2,3)] table_ok_fd [OF assms(2) rl] assms(3) rl
      by (auto simp: ft_good_def ft_within_def findById_def map_simps tr)
    ultimately show ?thesis by (simp add: ft_good_def)
  qed
  show ?thesis
    using assms(4) offer by (simp add: ft_cmdSend_def Let_def case_prod_beta split: option.split)
qed

lemma ft_good_cmdAnswer:
  "ft_good fs (fst st) \<Longrightarrow> ft_good fs (fst (ft_cmdAnswer L f ps acc st))"
  by (cases st) (auto simp: ft_cmdAnswer_def Let_def case_prod_beta transfer_ok_def pair_of_def
      split: option.split intro!: ft_good_upd ft_good_erase)

lemma ft_good_cmdData:
  "ft_good fs (fst st) \<Longrightarrow> ft_good fs (fst (ft_cmdData L f ps st))"
  by (cases st) (auto simp: ft_cmdData_def Let_def case_prod_beta transfer_ok_def pair_of_def
      split: option.split intro!: ft_good_upd ft_good_abort)

lemma ft_good_cmdEnd: "ft_good fs (fst st) \<Longrightarrow> ft_good fs (fst (ft_cmdEnd L f ps st))"
  by (cases st) (auto simp: ft_cmdEnd_def Let_def split: option.split)

lemma ft_good_cmdAbort: "ft_good fs (fst st) \<Longrightarrow> ft_good fs (fst (ft_cmdAbort L f ps st))"
  by (cases st) (auto simp: ft_cmdAbort_def intro: ft_good_abort split: option.split)

lemma ft_good_onCommand:
  assumes "parse_law L" and "table_ok w" and "f \<in> live w" and "ft_good (live w) t"
  shows "ft_good (live w) (fst (snd (ft_onCommand L f msg (t, w))))"
  using assms(4) ft_good_cmdSend [OF assms]
  by (auto simp: ft_onCommand_def Let_def intro: ft_good_cmdAnswer ft_good_cmdData ft_good_cmdEnd ft_good_cmdAbort)

lemma ft_good_onTick: "ft_good fs (fst st) \<Longrightarrow> ft_good fs (fst (ft_onTick L now st))"
  unfolding ft_onTick_def split_beta
  by (rule foldl_inv [where P = "\<lambda>s. ft_good fs (fst s)"]) (auto intro: ft_good_abort)

text \<open>A disconnect takes out exactly the transfers of the client that leaves.\<close>

lemma abort_loop_lookup:
  "findById j (fst (foldl (\<lambda>st e. if P (snd e) then abortTransfer L (fst e) why st else st) st es)) =
    (if \<exists>tr. (j, tr) \<in> set es \<and> P tr then None else findById j (fst st))"
proof (induction es arbitrary: st)
  case (Cons e es)
  obtain i tr where e: "e = (i, tr)" by (cases e)
  obtain t w where st: "st = (t, w)" by (cases st)
  have "findById j (fst (abortTransfer L i why st)) = (if j = i then None else findById j t)"
    by (simp add: st fst_abort split: option.split)
  then show ?case by (auto simp: Cons e st)
qed simp

lemma ft_onClientDisconnect_lookup:
  assumes "ft_ok t" and "cl_fd (cl w f) = f"
  shows "findById j (fst (ft_onClientDisconnect L f (t, w))) =
    (case findById j t of None \<Rightarrow> None
     | Some tr \<Rightarrow> if tf_senderFd tr = f \<or> tf_recipientFd tr = f then None else Some tr)"
proof -
  have "(\<exists>tr. (j, tr) \<in> set (ft_transfers t) \<and> P tr) \<longleftrightarrow> (\<exists>tr. findById j t = Some tr \<and> P tr)" for P
    using assms(1) by (auto simp: findById_def ft_ok_def om_ok_distinct)
  then show ?thesis
    unfolding ft_onClientDisconnect_def split_beta fst_conv snd_conv assms(2)
    by (subst abort_loop_lookup [where P = "\<lambda>tr. tf_senderFd tr = f \<or> tf_recipientFd tr = f"])
      (auto split: option.split)
qed

lemma ft_onClientDisconnect_ok:
  "ft_ok (fst st) \<Longrightarrow> ft_ok (fst (ft_onClientDisconnect L f st))"
proof -
  assume ok: "ft_ok (fst st)"
  obtain t w where st: "st = (t, w)" by (cases st)
  have step: "ft_ok (fst (abortTransfer L i why s))" if "ft_ok (fst s)" for i why s
    using that by (cases s) (simp add: fst_abort ft_ok_erase split: option.split)
  show ?thesis
    using ok step unfolding st ft_onClientDisconnect_def split_beta fst_conv snd_conv
    by (intro foldl_inv [where P = "\<lambda>s. ft_ok (fst s)"]) auto
qed

lemma ft_good_onDisconnect:
  assumes "ft_good fs t" and "cl_fd (cl w f) = f"
  shows "ft_good (fs - {f}) (fst (ft_onClientDisconnect L f (t, w)))"
proof -
  have "ft_within (fs - {f}) (fst (ft_onClientDisconnect L f (t, w)))"
    using assms ft_onClientDisconnect_lookup [of t w f _ L]
    by (auto simp: ft_good_def ft_within_def split: option.splits if_splits)
  then show ?thesis
    using assms(1) ft_onClientDisconnect_ok [of "(t, w)" L f] by (simp add: ft_good_def)
qed

end
