(* ===== verification/Extensions.thy ===== *)
theory Extensions
  imports Bot_Ext File_Transfer
begin

text \<open>
  The interface \<open>IServerExtension\<close> (\<open>include/ext/IServerExtension.hpp\<close>): the virtual
  callbacks of the three extensions and the loops over \<open>_extensions\<close> that call them.
  A callback is a function of the index of its extension, which is what \<open>this\<close> is here.
  \<open>onServerStart\<close>, \<open>onClientRegistered\<close>, \<open>onJoin\<close> and \<open>onPart\<close> are overridden by
  no extension and do nothing.

  The locale \<open>ext_hook\<close> states what every callback promises the server: it leaves the
  clients (but for their send queues), the channels and the other extensions alone and
  turns the condition \<open>before\<close> of its own state into \<open>after\<close>.  What a loop over all
  extensions does follows once, inside it.
\<close>

section \<open>The callbacks\<close>

definition set_ext :: "nat \<Rightarrow> extension \<Rightarrow> 'io world \<Rightarrow> 'io world" where
  "set_ext i e w = w\<lparr>w_exts := (w_exts w)[i := e]\<rparr>"

definition ext_onPrivmsg ::
  "'io libcpp \<Rightarrow> fd \<Rightarrow> string \<Rightarrow> string \<Rightarrow> 'io world \<Rightarrow> nat \<Rightarrow> bool \<times> 'io world" where
  "ext_onPrivmsg L f target text w i =
     (case w_exts w ! i of
        ExtBot n \<Rightarrow> (let (handled, n', w') = bot_onPrivmsg L f target text (n, w)
                    in (handled, set_ext i (ExtBot n') w'))
      | _ \<Rightarrow> (False, w))"

definition ext_onCommand ::
  "'io libcpp \<Rightarrow> fd \<Rightarrow> message \<Rightarrow> 'io world \<Rightarrow> nat \<Rightarrow> bool \<times> 'io world" where
  "ext_onCommand L f msg w i =
     (case w_exts w ! i of
        ExtFile t \<Rightarrow> (let (handled, t', w') = ft_onCommand L f msg (t, w)
                     in (handled, set_ext i (ExtFile t') w'))
      | _ \<Rightarrow> (False, w))"

definition ext_onClientDisconnect :: "'io libcpp \<Rightarrow> fd \<Rightarrow> 'io world \<Rightarrow> nat \<Rightarrow> 'io world" where
  "ext_onClientDisconnect L f w i =
     (case w_exts w ! i of
        ExtFile t \<Rightarrow> (let (t', w') = ft_onClientDisconnect L f (t, w) in set_ext i (ExtFile t') w')
      | _ \<Rightarrow> w)"

definition ext_onTick :: "'io libcpp \<Rightarrow> int \<Rightarrow> 'io world \<Rightarrow> nat \<Rightarrow> 'io world" where
  "ext_onTick L now w i =
     (case w_exts w ! i of
        ExtFile t \<Rightarrow> (let (t', w') = ft_onTick L now (t, w) in set_ext i (ExtFile t') w')
      | _ \<Rightarrow> w)"

definition ext_reservesNick :: "'io libcpp \<Rightarrow> string \<Rightarrow> extension \<Rightarrow> bool" where
  "ext_reservesNick L nick e = (case e of ExtBot _ \<Rightarrow> bot_reservesNick L nick | _ \<Rightarrow> False)"

definition ext_onClientRegistered :: "fd \<Rightarrow> 'io world \<Rightarrow> nat \<Rightarrow> 'io world" where
  "ext_onClientRegistered f w i = w"

definition ext_onJoin :: "fd \<Rightarrow> string \<Rightarrow> 'io world \<Rightarrow> nat \<Rightarrow> 'io world" where
  "ext_onJoin f k w i = w"

definition ext_onPart :: "fd \<Rightarrow> string \<Rightarrow> 'io world \<Rightarrow> nat \<Rightarrow> 'io world" where
  "ext_onPart f k w i = w"

section \<open>The loops\<close>

definition each_ext :: "('io world \<Rightarrow> nat \<Rightarrow> 'io world) \<Rightarrow> 'io world \<Rightarrow> 'io world" where
  "each_ext step w = foldl step w [0..<length (w_exts w)]"

text \<open>The two loops that stop at the first extension that handles the event.\<close>

definition first_ext :: "('io world \<Rightarrow> nat \<Rightarrow> bool \<times> 'io world) \<Rightarrow> 'io world \<Rightarrow> bool \<times> 'io world" where
  "first_ext step w =
     foldl (\<lambda>(handled, w) i. if handled then (handled, w) else step w i) (False, w) [0..<length (w_exts w)]"

lemma each_ext_id [simp]:
  "each_ext (ext_onClientRegistered f) w = w" "each_ext (ext_onJoin f k) w = w" "each_ext (ext_onPart f k) w = w"
  unfolding each_ext_def ext_onClientRegistered_def ext_onJoin_def ext_onPart_def
  by (simp_all add: foldl_frame [where view = "\<lambda>w. w"])

lemma audit_each_ext: "audit ev actor detail w = each_ext (ext_onAudit ev actor detail) w"
  by (simp add: audit_def each_ext_def)

section \<open>What an extension's state satisfies\<close>

text \<open>The part of the server's state no callback touches.\<close>

definition net :: "'io world \<Rightarrow> (fd \<times> client) list \<times> (string \<times> channel) list \<times> string \<times> (fd \<times> 32 word) list" where
  "net w = (skel w, w_channels w, w_password w, w_epollMask w)"

lemma core_net:
  fixes w w' :: "'io world"
  shows "core w = core w' \<Longrightarrow> net w = net w'"
  by (auto simp: core_def net_def)

lemma net_live:
  fixes w w' :: "'io world"
  assumes "net w = net w'"
  shows "live w = live w'" "table_ok w = table_ok w'"
  using assms by (simp_all add: net_def live_def table_ok_def)

fun ext_ok :: "fd set \<Rightarrow> extension \<Rightarrow> bool" where
  "ext_ok fs (ExtBot n) \<longleftrightarrow> n < bot_jokeCount"
| "ext_ok fs (ExtFile t) \<longleftrightarrow> ft_good fs t"
| "ext_ok fs (ExtAudit a) \<longleftrightarrow> True"

fun ext_kind :: "extension \<Rightarrow> nat" where
  "ext_kind (ExtBot n) = 0"
| "ext_kind (ExtFile t) = 1"
| "ext_kind (ExtAudit a) = 2"

lemma ext_core_views [simp]: "ext_ok fs (ext_core e) = ext_ok fs e" "ext_kind (ext_core e) = ext_kind e"
  by (cases e; simp)+

lemma ext_core_eqD: "ext_core a = ext_core b \<Longrightarrow> ext_ok fs a = ext_ok fs b \<and> ext_kind a = ext_kind b"
  by (metis ext_core_views)

locale ext_hook =
  fixes step :: "'io world \<Rightarrow> nat \<Rightarrow> 'io world"
    and pre :: "'io world \<Rightarrow> bool"
    and before :: "'io world \<Rightarrow> fd set"
    and after :: "'io world \<Rightarrow> fd set"
  assumes frame: "net (step w i) = net w"
    and slots: "length (w_exts (step w i)) = length (w_exts w)"
    and others: "j \<noteq> i \<Longrightarrow> j < length (w_exts w) \<Longrightarrow>
      ext_core (w_exts (step w i) ! j) = ext_core (w_exts w ! j)"
    and own_kind: "i < length (w_exts w) \<Longrightarrow> ext_kind (w_exts (step w i) ! i) = ext_kind (w_exts w ! i)"
    and own: "pre w \<Longrightarrow> i < length (w_exts w) \<Longrightarrow> ext_ok (before w) (w_exts w ! i) \<Longrightarrow>
      ext_ok (after w) (w_exts (step w i) ! i)"
    and views: "net w = net w' \<Longrightarrow> pre w = pre w' \<and> before w = before w' \<and> after w = after w'"
begin

lemma kinds: "map ext_kind (w_exts (step w i)) = map ext_kind (w_exts w)"
proof (rule nth_equalityI)
  fix j assume "j < length (map ext_kind (w_exts (step w i)))"
  then have j: "j < length (w_exts w)" by (simp add: slots)
  have "ext_kind (w_exts (step w i) ! j) = ext_kind (w_exts w ! j)"
  proof (cases "j = i")
    case False
    then show ?thesis using ext_core_eqD [OF others [OF False j]] by simp
  qed (use own_kind j in simp)
  then show "map ext_kind (w_exts (step w i)) ! j = map ext_kind (w_exts w) ! j"
    using j by (simp add: slots)
qed (simp add: slots)

text \<open>After the first \<open>n\<close> calls, the first \<open>n\<close> extensions satisfy the later condition.\<close>

lemma loop_upto:
  assumes "pre w" and "\<forall>e \<in> set (w_exts w). ext_ok (before w) e" and "n \<le> length (w_exts w)"
  shows "net (foldl step w [0..<n]) = net w \<and>
    map ext_kind (w_exts (foldl step w [0..<n])) = map ext_kind (w_exts w) \<and>
    (\<forall>j < length (w_exts w). ext_ok (if j < n then after w else before w) (w_exts (foldl step w [0..<n]) ! j))"
  using assms(3)
proof (induction n)
  case 0
  then show ?case using assms(2) by simp
next
  case (Suc n)
  let ?w = "foldl step w [0..<n]"
  have IH: "net ?w = net w" "map ext_kind (w_exts ?w) = map ext_kind (w_exts w)"
    "\<And>j. j < length (w_exts w) \<Longrightarrow> ext_ok (if j < n then after w else before w) (w_exts ?w ! j)"
    using Suc by auto
  have len: "length (w_exts ?w) = length (w_exts w)" using IH(2) by (metis length_map)
  have v: "pre ?w = pre w" "before ?w = before w" "after ?w = after w" using views [OF IH(1)] by blast+
  have n: "n < length (w_exts ?w)" using Suc.prems len by simp
  have "ext_ok (if j < Suc n then after w else before w) (w_exts (step ?w n) ! j)"
    if j: "j < length (w_exts w)" for j
  proof (cases "j = n")
    case True
    have "ext_ok (before ?w) (w_exts ?w ! n)" using IH(3) [OF j] True v(2) by simp
    then have "ext_ok (after ?w) (w_exts (step ?w n) ! n)" using v(1) assms(1) n by (intro own) simp_all
    then show ?thesis using True v(3) by simp
  next
    case False
    then have "ext_ok fs (w_exts (step ?w n) ! j) = ext_ok fs (w_exts ?w ! j)" for fs
      using ext_core_eqD [OF others [of j n ?w]] j len by simp
    then show ?thesis using IH(3) [OF j] False by (simp add: less_Suc_eq)
  qed
  then show ?case using IH(1,2) frame kinds by simp
qed

lemma loop:
  assumes "pre w" and "\<forall>e \<in> set (w_exts w). ext_ok (before w) e"
  shows "net (each_ext step w) = net w" "map ext_kind (w_exts (each_ext step w)) = map ext_kind (w_exts w)"
    "\<forall>e \<in> set (w_exts (each_ext step w)). ext_ok (after w) e"
proof -
  note l = loop_upto [OF assms order.refl]
  have len: "length (w_exts (each_ext step w)) = length (w_exts w)"
    using l unfolding each_ext_def by (metis length_map)
  show "net (each_ext step w) = net w" "map ext_kind (w_exts (each_ext step w)) = map ext_kind (w_exts w)"
    using l by (simp_all add: each_ext_def)
  show "\<forall>e \<in> set (w_exts (each_ext step w)). ext_ok (after w) e"
    using l len unfolding each_ext_def all_set_conv_all_nth by auto
qed

lemma one_step:
  assumes "pre w" and "\<forall>e \<in> set (w_exts w). ext_ok (before w) e" and "before w = after w"
    and "i < length (w_exts w)"
  shows "\<forall>e \<in> set (w_exts (step w i)). ext_ok (after w) e"
  unfolding all_set_conv_all_nth slots
proof (intro allI impI)
  fix j assume j: "j < length (w_exts w)"
  show "ext_ok (after w) (w_exts (step w i) ! j)"
  proof (cases "j = i")
    case True
    then show ?thesis using own [OF assms(1,4)] assms(2) j by simp
  next
    case False
    have "ext_ok fs (w_exts (step w i) ! j) = ext_ok fs (w_exts w ! j)" for fs
      using ext_core_eqD [OF others [OF False j]] by simp
    then show ?thesis using assms(2,3) j by simp
  qed
qed

end

section \<open>The callbacks keep the contract\<close>

text \<open>
  Every callback either leaves the world alone, or runs an operation that only sends and
  audits (the core is unchanged) and stores the extension's new state in its slot.
\<close>

definition slot_step :: "'io world \<Rightarrow> nat \<Rightarrow> 'io world \<Rightarrow> bool" where
  "slot_step w i w' \<longleftrightarrow>
     (core w' = core w \<or> (\<exists>w1 e. w' = set_ext i e w1 \<and> core w1 = core w \<and>
        (i < length (w_exts w) \<longrightarrow> ext_kind e = ext_kind (w_exts w ! i))))"

lemma set_ext_views [simp]:
  "w_clients (set_ext i e w) = w_clients w" "w_channels (set_ext i e w) = w_channels w"
  "w_password (set_ext i e w) = w_password w" "w_epollMask (set_ext i e w) = w_epollMask w"
  "skel (set_ext i e w) = skel w" "net (set_ext i e w) = net w"
  "w_exts (set_ext i e w) = (w_exts w)[i := e]"
  by (simp_all add: set_ext_def skel_def net_def)

lemma core_exts_nth:
  fixes w w' :: "'io world"
  assumes "core w' = core w" and "j < length (w_exts w)"
  shows "ext_core (w_exts w' ! j) = ext_core (w_exts w ! j)"
  using core_eqD(3) [OF assms(1)] assms(2) by (metis length_map nth_map)

lemma slot_step_laws:
  assumes "slot_step w i w'"
  shows "net w' = net w" "length (w_exts w') = length (w_exts w)"
    "j \<noteq> i \<Longrightarrow> j < length (w_exts w) \<Longrightarrow> ext_core (w_exts w' ! j) = ext_core (w_exts w ! j)"
    "i < length (w_exts w) \<Longrightarrow> ext_kind (w_exts w' ! i) = ext_kind (w_exts w ! i)"
proof -
  consider (same) "core w' = core w"
    | (slot) w1 e where "w' = set_ext i e w1" "core w1 = core w"
      "i < length (w_exts w) \<longrightarrow> ext_kind e = ext_kind (w_exts w ! i)"
    using assms by (auto simp: slot_step_def)
  then have "net w' = net w \<and> length (w_exts w') = length (w_exts w) \<and>
    (j \<noteq> i \<longrightarrow> j < length (w_exts w) \<longrightarrow> ext_core (w_exts w' ! j) = ext_core (w_exts w ! j)) \<and>
    (i < length (w_exts w) \<longrightarrow> ext_kind (w_exts w' ! i) = ext_kind (w_exts w ! i))"
  proof cases
    case same
    then show ?thesis
      using core_net [OF same] core_views(7) [OF same] core_exts_nth [OF same] ext_core_eqD by metis
  next
    case slot
    then show ?thesis
      using core_net [OF slot(2)] core_views(7) [OF slot(2)] core_exts_nth [OF slot(2)] by simp
  qed
  then show "net w' = net w" "length (w_exts w') = length (w_exts w)"
    "j \<noteq> i \<Longrightarrow> j < length (w_exts w) \<Longrightarrow> ext_core (w_exts w' ! j) = ext_core (w_exts w ! j)"
    "i < length (w_exts w) \<Longrightarrow> ext_kind (w_exts w' ! i) = ext_kind (w_exts w ! i)"
    by auto
qed

lemma slot_step_refl [simp]: "slot_step w i w"
  by (simp add: slot_step_def)

lemma slot_step_core: "core w' = core w \<Longrightarrow> slot_step w i w'"
  by (simp add: slot_step_def)

lemma slot_step_set:
  "core w1 = core w \<Longrightarrow> ext_kind e = ext_kind (w_exts w ! i) \<Longrightarrow> slot_step w i (set_ext i e w1)"
  by (auto simp: slot_step_def)

lemma step_onAudit: "slot_step w i (ext_onAudit ev actor detail w i)"
  by (rule slot_step_core) simp

lemma step_onPrivmsg: "slot_step w i (snd (ext_onPrivmsg L f target text w i))"
  using core_bot_onPrivmsg [of L f target "text" "(_, w)"]
  by (auto simp: ext_onPrivmsg_def case_prod_beta split: extension.split intro!: slot_step_set)

lemma step_onCommand: "slot_step w i (snd (ext_onCommand L f msg w i))"
  using core_ft_onCommand [of L f msg "(_, w)"]
  by (auto simp: ext_onCommand_def case_prod_beta split: extension.split intro!: slot_step_set)

lemma step_onClientDisconnect: "slot_step w i (ext_onClientDisconnect L f w i)"
  using core_ft_onDisconnect [of L f "(_, w)"]
  by (auto simp: ext_onClientDisconnect_def case_prod_beta split: extension.split intro!: slot_step_set)

lemma step_onTick: "slot_step w i (ext_onTick L now w i)"
  using core_ft_onTick [of L now "(_, w)"]
  by (auto simp: ext_onTick_def case_prod_beta split: extension.split intro!: slot_step_set)

interpretation on_audit: ext_hook "ext_onAudit ev actor detail" "\<lambda>_. True" live live
proof (unfold_locales, goal_cases)
  case (5 w i)
  have "ext_core (w_exts (ext_onAudit ev actor detail w i) ! i) = ext_core (w_exts w ! i)"
    using 5 by (intro core_exts_nth) simp_all
  then show ?case using 5 ext_core_eqD by metis
qed (auto dest: net_live simp: slot_step_laws [OF step_onAudit])

interpretation on_tick: ext_hook "ext_onTick L now" "\<lambda>_. True" live live
proof (unfold_locales, goal_cases)
  case (5 w i)
  then show ?case
    using core_views(7) [OF core_ft_onTick [of L now "(_, w)"]] ft_good_onTick
    by (auto simp: ext_onTick_def case_prod_beta split: extension.splits)
qed (auto dest: net_live simp: slot_step_laws [OF step_onTick])

interpretation on_disconnect: ext_hook "ext_onClientDisconnect L f"
  "\<lambda>w. cl_fd (cl w f) = f \<and> f \<notin> live w" "\<lambda>w. insert f (live w)" live
proof (unfold_locales, goal_cases)
  case (5 w i)
  then show ?case
    using core_views(7) [OF core_ft_onDisconnect [of L f "(_, w)"]] ft_good_onDisconnect
    by (fastforce simp: ext_onClientDisconnect_def case_prod_beta split: extension.splits)
next
  case (6 w w')
  then have "skel w = skel w'" by (simp add: net_def)
  then show ?case using net_live(1) [OF 6] skel_cl_fields(1) by metis
qed (auto simp: slot_step_laws [OF step_onClientDisconnect])

interpretation on_privmsg: ext_hook "\<lambda>w i. snd (ext_onPrivmsg L f target text w i)" "\<lambda>_. True" live live
proof (unfold_locales, goal_cases)
  case (5 w i)
  then show ?case
    using core_views(7) [OF core_bot_onPrivmsg [of L f target "text" "(_, w)"]]
      bot_joke_index [of "(_, w)" L f target "text"]
    by (auto simp: ext_onPrivmsg_def case_prod_beta split: extension.splits)
qed (auto dest: net_live simp: slot_step_laws [OF step_onPrivmsg])

interpretation on_command: ext_hook "\<lambda>w i. snd (ext_onCommand L f msg w i)"
  "\<lambda>w. parse_law L \<and> table_ok w \<and> f \<in> live w" live live
proof (unfold_locales, goal_cases)
  case (5 w i)
  then show ?case
    using core_views(7) [OF core_ft_onCommand [of L f msg "(_, w)"]] ft_good_onCommand [of L w f _ msg]
    by (auto simp: ext_onCommand_def case_prod_beta split: extension.splits)
qed (auto dest: net_live simp: slot_step_laws [OF step_onCommand])

end
