(* ===== verification/Server_Inv.thy ===== *)
theory Server_Inv
  imports Extensions
begin

text \<open>
  The invariant of the server between two events, and how each kind of state change keeps
  it: sending, a change of one channel, of the channel table, of one client, of the
  extensions.  The command theories prove each handler from these.
\<close>

section \<open>The invariant\<close>

text \<open>The registered clients that are not being torn down.\<close>

definition users :: "'io world \<Rightarrow> fd set" where
  "users w = {f. \<exists>c. map_of (skel w) f = Some c \<and> \<not> cl_tearingDown c \<and> cl_registered c}"

definition client_ok :: "'io libcpp \<Rightarrow> string \<Rightarrow> client \<Rightarrow> bool" where
  "client_ok L pw c \<longleftrightarrow>
     (if cl_nickSet c then isValidNickname (cl_nickname c) \<and> length (cl_nickname c) \<le> MAX_NICKLEN
      else cl_nickname c = ''*'') \<and>
     (if cl_userSet c then isValidUsername (cl_username c) else cl_username c = []) \<and>
     length (cl_username c) \<le> MAX_USERLEN \<and> length (cl_hostname c) \<le> 15 \<and>
     (cl_registered c \<longrightarrow> cl_nickSet c \<and> cl_userSet c \<and> cl_passSent c \<and>
        lc_eq_consttime L (cl_password c) pw) \<and>
     (cl_tearingDown c \<longleftrightarrow> cl_pendingClose c)"

definition nick_reserved :: "'io libcpp \<Rightarrow> string \<Rightarrow> 'io world \<Rightarrow> bool" where
  "nick_reserved L nick w = list_ex (ext_reservesNick L nick) (w_exts w)"

definition nicks_unique :: "'io libcpp \<Rightarrow> 'io world \<Rightarrow> bool" where
  "nicks_unique L w \<longleftrightarrow>
     (\<forall>f g a b. map_of (skel w) f = Some a \<and> map_of (skel w) g = Some b \<and>
        \<not> cl_tearingDown a \<and> \<not> cl_tearingDown b \<and> cl_nickSet a \<and> cl_nickSet b \<and>
        ircEquals L (cl_nickname a) (cl_nickname b) \<longrightarrow> f = g)"

definition clients_wf :: "'io libcpp \<Rightarrow> 'io world \<Rightarrow> bool" where
  "clients_wf L w \<longleftrightarrow> table_ok w \<and> nicks_unique L w \<and>
     (\<forall>f c. map_of (skel w) f = Some c \<longrightarrow> client_ok L (w_password w) c \<and>
        (cl_nickSet c \<longrightarrow> \<not> nick_reserved L (cl_nickname c) w))"

definition chan_wf :: "'io libcpp \<Rightarrow> fd set \<Rightarrow> string \<Rightarrow> channel \<Rightarrow> bool" where
  "chan_wf L fs k ch \<longleftrightarrow> k = ircToLower L (ch_name ch) \<and> isValidChannelName (ch_name ch) \<and> chan_ok ch \<and>
     set (ch_members ch) \<union> ch_inviteList ch \<subseteq> fs \<and> length (ch_topic ch) \<le> MAX_TOPICLEN \<and>
     (ch_key ch = [] \<or> isValidChannelKey (ch_key ch)) \<and> int (ch_userLimit ch) \<le> MAX_USERLIMIT"

definition chans_wf :: "'io libcpp \<Rightarrow> 'io world \<Rightarrow> bool" where
  "chans_wf L w \<longleftrightarrow> om_ok (w_channels w) \<and>
     (\<forall>k ch. map_of (w_channels w) k = Some ch \<longrightarrow> chan_wf L (users w) k ch)"

definition exts_wf :: "'io world \<Rightarrow> bool" where
  "exts_wf w \<longleftrightarrow> (\<forall>e \<in> set (w_exts w). ext_ok (live w) e)"

definition mask_wf :: "'io world \<Rightarrow> bool" where
  "mask_wf w \<longleftrightarrow> om_ok (w_epollMask w) \<and> set (map fst (w_epollMask w)) = set (map fst (w_clients w))"

definition world_ok :: "'io libcpp \<Rightarrow> 'io world \<Rightarrow> bool" where
  "world_ok L w \<longleftrightarrow> clients_wf L w \<and> chans_wf L w \<and> exts_wf w \<and> mask_wf w"

lemma users_cl:
  "f \<in> users w \<longleftrightarrow> map_of (w_clients w) f \<noteq> None \<and> \<not> cl_tearingDown (cl w f) \<and> cl_registered (cl w f)"
  by (auto simp: users_def skel_look cl_def truncate_fields)

lemma users_live: "users w \<subseteq> live w"
  by (auto simp: users_def live_def)

lemma users_liveD: "f \<in> users w \<Longrightarrow> f \<in> live w"
  using users_live by blast

lemma findClientByNick_users:
  "table_ok w \<Longrightarrow> findClientByNick L n w = Some r \<Longrightarrow> r \<in> users w"
  using findClientByNick_live by (fastforce simp: users_cl live_cl)

lemma world_ok_table: "world_ok L w \<Longrightarrow> table_ok w"
  by (simp add: world_ok_def clients_wf_def)

lemma world_ok_fd: "world_ok L w \<Longrightarrow> f \<in> live w \<Longrightarrow> cl_fd (cl w f) = f"
  by (simp add: world_ok_table table_ok_fd)

lemma client_ok_cl:
  assumes "world_ok L w" and "f \<in> live w"
  shows "client_ok L (w_password w) (client.truncate (cl w f))"
proof -
  obtain c where c: "map_of (w_clients w) f = Some c" using assms(2) by (auto simp: live_cl)
  then have "map_of (skel w) f = Some (client.truncate c)" by (simp add: skel_look)
  then show ?thesis using assms(1) c unfolding world_ok_def clients_wf_def cl_def by fastforce
qed

lemma chan_wf_look:
  assumes "world_ok L w" and "map_of (w_channels w) k = Some ch"
  shows "chan_wf L (users w) k ch"
  using assms by (simp add: world_ok_def chans_wf_def)

lemma findChannel_Some:
  assumes "findChannel L name w = Some k"
  shows "k = ircToLower L name" "map_of (w_channels w) k = Some (chan w k)"
  using assms by (auto simp: findChannel_def chan_def Let_def split: option.splits)

lemma findChannel_None: "findChannel L name w = None \<longleftrightarrow> map_of (w_channels w) (ircToLower L name) = None"
  by (auto simp: findChannel_def Let_def split: option.splits)

lemma findChannel_wf:
  "world_ok L w \<Longrightarrow> findChannel L name w = Some k \<Longrightarrow> chan_wf L (users w) k (chan w k)"
  using chan_wf_look findChannel_Some(2) by blast

section \<open>Changes that only send or audit\<close>

lemma nick_reserved_kinds: "nick_reserved L n w \<longleftrightarrow> 0 \<in> set (map ext_kind (w_exts w)) \<and> bot_reservesNick L n"
proof -
  have "ext_reservesNick L n e \<longleftrightarrow> ext_kind e = 0 \<and> bot_reservesNick L n" for e
    by (cases e) (simp_all add: ext_reservesNick_def)
  then show ?thesis by (auto simp: nick_reserved_def list_ex_iff)
qed

lemma core_kinds:
  fixes w w' :: "'io world"
  assumes "core w = core w'"
  shows "map ext_kind (w_exts w) = map ext_kind (w_exts w')"
proof -
  have "map ext_kind (map ext_core (w_exts v)) = map ext_kind (w_exts v)" for v :: "'io world" by simp
  then show ?thesis using core_eqD(3) [OF assms] by metis
qed

lemma core_exts_wf:
  fixes w w' :: "'io world"
  assumes "core w = core w'"
  shows "exts_wf w = exts_wf w'"
proof -
  have "exts_wf v \<longleftrightarrow> Ball (set (map ext_core (w_exts v))) (ext_ok (live v))" for v :: "'io world"
    by (simp add: exts_wf_def)
  then show ?thesis using core_eqD(3) [OF assms] core_live(1) [OF assms] by metis
qed

lemma core_users:
  fixes w w' :: "'io world"
  assumes "core w = core w'"
  shows "users w = users w'"
  using core_eqD(1) [OF assms] by (simp add: users_def)

lemma core_world_ok:
  fixes w w' :: "'io world"
  assumes "core w = core w'"
  shows "world_ok L w = world_ok L w'"
  using core_eqD [OF assms] core_users [OF assms] core_kinds [OF assms] core_exts_wf [OF assms]
    core_live(2) [OF assms] core_views(5) [OF assms]
  by (simp add: world_ok_def clients_wf_def chans_wf_def mask_wf_def nicks_unique_def nick_reserved_kinds)

lemmas ok_frame [simp] =
  core_world_ok [OF core_queueMessage] core_world_ok [OF core_sendToClient] core_world_ok [OF core_sendReply]
  core_world_ok [OF core_broadcastMessage] core_world_ok [OF core_audit] core_world_ok [OF core_upd_trace]
  core_world_ok [OF core_os_call] core_world_ok [OF core_read_clock] core_world_ok [OF core_try_alloc]
  core_users [OF core_queueMessage] core_users [OF core_sendToClient] core_users [OF core_sendReply]
  core_users [OF core_broadcastMessage] core_users [OF core_audit] core_users [OF core_upd_trace]
  core_users [OF core_os_call] core_users [OF core_read_clock] core_users [OF core_try_alloc]

section \<open>Changes of the extensions\<close>

lemma world_ok_exts:
  fixes w w' :: "'io world"
  assumes "world_ok L w" and "net w' = net w" and "map ext_kind (w_exts w') = map ext_kind (w_exts w)"
    and "exts_wf w'"
  shows "world_ok L w'" "users w' = users w" "live w' = live w"
proof -
  have s: "skel w' = skel w" "w_channels w' = w_channels w" "w_password w' = w_password w"
      "w_epollMask w' = w_epollMask w"
    using assms(2) by (simp_all add: net_def)
  then have k: "map fst (w_clients w') = map fst (w_clients w)" using skel_keys by metis
  show "users w' = users w" "live w' = live w" using s by (simp_all add: users_def live_def)
  then show "world_ok L w'"
    using assms(1,3,4) s k
    by (simp add: world_ok_def clients_wf_def chans_wf_def mask_wf_def nicks_unique_def nick_reserved_kinds
        table_ok_def)
qed

section \<open>Changes of one channel and of the channel table\<close>

lemma upd_chan_views [simp]:
  "skel (upd_chan k g w) = skel w" "w_clients (upd_chan k g w) = w_clients w"
  "w_exts (upd_chan k g w) = w_exts w" "w_password (upd_chan k g w) = w_password w"
  "w_epollMask (upd_chan k g w) = w_epollMask w" "users (upd_chan k g w) = users w"
  "live (upd_chan k g w) = live w" "cl (upd_chan k g w) f = cl w f" "table_ok (upd_chan k g w) = table_ok w"
  "w_channels (upd_chan k g w) = om_upd k g (w_channels w)"
  by (simp_all add: upd_chan_def skel_def users_def live_def cl_def table_ok_def)

lemma set_channels_views [simp]:
  "skel (w\<lparr>w_channels := chs\<rparr>) = skel w" "users (w\<lparr>w_channels := chs\<rparr>) = users w"
  "live (w\<lparr>w_channels := chs\<rparr>) = live w" "cl (w\<lparr>w_channels := chs\<rparr>) f = cl w f"
  by (simp_all add: skel_def users_def live_def cl_def)

lemma world_ok_channels:
  assumes "world_ok L w"
  shows "world_ok L (w\<lparr>w_channels := chs\<rparr>) \<longleftrightarrow>
    om_ok chs \<and> (\<forall>k ch. map_of chs k = Some ch \<longrightarrow> chan_wf L (users w) k ch)"
proof -
  have s: "skel (w\<lparr>w_channels := chs\<rparr>) = skel w" by (simp add: skel_def)
  have "users (w\<lparr>w_channels := chs\<rparr>) = users w" "live (w\<lparr>w_channels := chs\<rparr>) = live w"
    by (simp_all add: users_def live_def s)
  then show ?thesis
    using assms by (simp add: s world_ok_def clients_wf_def chans_wf_def mask_wf_def nicks_unique_def
        nick_reserved_def exts_wf_def table_ok_def)
qed

lemma world_ok_upd_chan:
  assumes "world_ok L w"
    and "\<And>ch. map_of (w_channels w) k = Some ch \<Longrightarrow> chan_wf L (users w) k ch \<Longrightarrow> chan_wf L (users w) k (g ch)"
  shows "world_ok L (upd_chan k g w)"
proof -
  have wf: "om_ok (w_channels w)" "\<And>j ch. map_of (w_channels w) j = Some ch \<Longrightarrow> chan_wf L (users w) j ch"
    using assms(1) by (auto simp: world_ok_def chans_wf_def)
  have "chan_wf L (users w) j ch" if "map_of (om_upd k g (w_channels w)) j = Some ch" for j ch
    using that wf(2) assms(2) by (auto simp: map_simps split: if_splits)
  then show ?thesis
    using wf(1) unfolding upd_chan_def world_ok_channels [OF assms(1)] by simp
qed

lemma chan_upd_chan [simp]:
  "map_of (w_channels w) k \<noteq> None \<Longrightarrow> chan (upd_chan k g w) j = (if j = k then g (chan w k) else chan w j)"
  by (auto simp: chan_def map_simps)

lemma world_ok_put_chan:
  assumes "world_ok L w" and "chan_wf L (users w) k ch"
  shows "world_ok L (w\<lparr>w_channels := om_put k ch (w_channels w)\<rparr>)"
proof -
  have "om_ok (w_channels w)" using assms(1) by (simp add: world_ok_def chans_wf_def)
  then show ?thesis
    unfolding world_ok_channels [OF assms(1)]
    using assms(2) chan_wf_look [OF assms(1)] by (auto simp: map_simps om_ok_put)
qed

lemma world_ok_removeChannel:
  assumes "world_ok L w"
  shows "world_ok L (removeChannel L name w)"
proof -
  have "om_ok (w_channels w)" using assms by (simp add: world_ok_def chans_wf_def)
  then show ?thesis
    unfolding removeChannel_def world_ok_channels [OF assms]
    using chan_wf_look [OF assms] by (auto simp: map_simps om_ok_del)
qed

lemma removeChannel_views [simp]:
  "skel (removeChannel L name w) = skel w" "users (removeChannel L name w) = users w"
  "live (removeChannel L name w) = live w" "w_clients (removeChannel L name w) = w_clients w"
  "cl (removeChannel L name w) f = cl w f"
  by (simp_all add: removeChannel_def skel_def users_def live_def cl_def)

section \<open>Changes of one client\<close>

lemma chan_wf_mono: "chan_wf L fs k ch \<Longrightarrow> fs \<subseteq> gs \<Longrightarrow> chan_wf L gs k ch"
  by (auto simp: chan_wf_def)

text \<open>Nobody else who is connected uses the nickname.\<close>

definition nick_free :: "'io libcpp \<Rightarrow> fd \<Rightarrow> string \<Rightarrow> 'io world \<Rightarrow> bool" where
  "nick_free L f nick w \<longleftrightarrow>
     (\<forall>g b. map_of (skel w) g = Some b \<and> g \<noteq> f \<and> \<not> cl_tearingDown b \<and> cl_nickSet b \<longrightarrow>
        \<not> ircEquals L nick (cl_nickname b) \<and> \<not> ircEquals L (cl_nickname b) nick)"

lemma nick_free_own:
  "world_ok L w \<Longrightarrow> map_of (skel w) f = Some c \<Longrightarrow> \<not> cl_tearingDown c \<Longrightarrow> cl_nickSet c \<Longrightarrow>
   nick_free L f (cl_nickname c) w"
  unfolding world_ok_def clients_wf_def nicks_unique_def nick_free_def by blast

lemma nick_free_not_in_use:
  assumes "casemap_law L" and "\<not> isNickInUse L nick f w"
  shows "nick_free L f nick w"
proof -
  have "\<not> ircEquals L (cl_nickname b) nick"
    if "map_of (skel w) g = Some b" "g \<noteq> f" "\<not> cl_tearingDown b" for g b
    using assms(2) om_look_in [OF that(1)] that(2,3) unfolding isNickInUse_skel list_ex_iff by force
  then show ?thesis
    using assms(1) unfolding nick_free_def ircEquals_def casemap_law_def by metis
qed

lemma upd_client_sets:
  assumes "skel (upd_client f g w) = om_upd f h (skel w)" and "map_of (skel w) f = Some c"
    and "cl_tearingDown (h c) = cl_tearingDown c" and "cl_registered c \<longrightarrow> cl_registered (h c)"
  shows "live (upd_client f g w) = live w" "users w \<subseteq> users (upd_client f g w)"
    "users (upd_client f g w) \<subseteq> insert f (users w)"
  using assms by (auto simp: live_def users_def map_simps)

lemma nicks_unique_upd:
  assumes "nicks_unique L w" and "map_of (skel w) f = Some c"
    and "skel w' = om_upd f h (skel w)" and "cl_tearingDown (h c) = cl_tearingDown c"
    and "cl_nickSet (h c) \<longrightarrow> nick_free L f (cl_nickname (h c)) w"
  shows "nicks_unique L w'"
  unfolding nicks_unique_def
proof (intro allI impI, elim conjE)
  fix i j a b
  assume a: "map_of (skel w') i = Some a" "\<not> cl_tearingDown a" "cl_nickSet a"
    and b: "map_of (skel w') j = Some b" "\<not> cl_tearingDown b" "cl_nickSet b"
    and eq: "ircEquals L (cl_nickname a) (cl_nickname b)"
  have look: "map_of (skel w') k = (if k = f then Some (h c) else map_of (skel w) k)" for k
    using assms(2,3) by (simp add: map_simps)
  consider "i = f" "j = f" | "i = f" "j \<noteq> f" | "i \<noteq> f" "j = f" | "i \<noteq> f" "j \<noteq> f" by blast
  then show "i = j"
  proof cases
    case 1
    then show ?thesis by simp
  next
    case 2
    then have "a = h c" "map_of (skel w) j = Some b" using a b look by simp_all
    then show ?thesis using assms(5) a(3) b eq 2 unfolding nick_free_def by blast
  next
    case 3
    then have "b = h c" "map_of (skel w) i = Some a" using a b look by simp_all
    then show ?thesis using assms(5) b(3) a eq 3 unfolding nick_free_def by blast
  next
    case 4
    then have "map_of (skel w) i = Some a" "map_of (skel w) j = Some b" using a b look by simp_all
    then show ?thesis using assms(1) a b eq unfolding nicks_unique_def by blast
  qed
qed

lemma world_ok_upd_client:
  assumes ok: "world_ok L w" and f: "map_of (skel w) f = Some c"
    and t: "\<And>c. client.truncate (g c) = h (client.truncate c)"
    and h: "cl_fd (h c) = cl_fd c" "cl_tearingDown (h c) = cl_tearingDown c"
      "cl_registered c \<longrightarrow> cl_registered (h c)" "client_ok L (w_password w) (h c)"
      "cl_nickSet (h c) \<longrightarrow> \<not> nick_reserved L (cl_nickname (h c)) w \<and> nick_free L f (cl_nickname (h c)) w"
  shows "world_ok L (upd_client f g w)"
proof -
  let ?w = "upd_client f g w"
  have s: "skel ?w = om_upd f h (skel w)" by (rule skel_upd_client) (rule t)
  have look: "map_of (skel ?w) k = (if k = f then Some (h c) else map_of (skel w) k)" for k
    using f by (simp add: s map_simps)
  note sets = upd_client_sets [OF s f h(2,3)]
  have cw: "clients_wf L w" "chans_wf L w" "exts_wf w" "mask_wf w" using ok by (auto simp: world_ok_def)
  have res: "nick_reserved L n ?w = nick_reserved L n w" for n by (simp add: nick_reserved_def)
  have "table_ok ?w"
    using cw(1) f h(1) unfolding clients_wf_def table_ok_def look by (auto simp: s)
  moreover have "nicks_unique L ?w"
    using cw(1) h(5) by (intro nicks_unique_upd [OF _ f s h(2)]) (auto simp: clients_wf_def)
  moreover have "client_ok L (w_password ?w) d \<and> (cl_nickSet d \<longrightarrow> \<not> nick_reserved L (cl_nickname d) ?w)"
    if "map_of (skel ?w) k = Some d" for k d
    using that cw(1) h(4,5) unfolding look res clients_wf_def by (auto split: if_splits)
  ultimately have "clients_wf L ?w" unfolding clients_wf_def by blast
  moreover have "chans_wf L ?w"
    using cw(2) chan_wf_mono [where L = L, OF _ sets(2)] unfolding chans_wf_def by (auto split: if_splits)
  moreover have "exts_wf ?w" using cw(3) sets(1) by (simp add: exts_wf_def)
  moreover have "mask_wf ?w" using cw(4) by (simp add: mask_wf_def)
  ultimately show ?thesis by (simp add: world_ok_def)
qed

text \<open>The usual case: everything but the nickname and the registration may change.\<close>

lemma world_ok_upd_client_same:
  assumes ok: "world_ok L w" and f: "f \<in> live w"
    and t: "\<And>c. client.truncate (g c) = h (client.truncate c)"
    and h: "\<And>c. cl_fd (h c) = cl_fd c" "\<And>c. cl_tearingDown (h c) = cl_tearingDown c"
      "\<And>c. cl_registered (h c) = cl_registered c" "\<And>c. cl_nickSet (h c) = cl_nickSet c"
      "\<And>c. cl_nickname (h c) = cl_nickname c"
      "client_ok L (w_password w) (client.truncate (cl w f)) \<Longrightarrow>
         client_ok L (w_password w) (h (client.truncate (cl w f)))"
  shows "world_ok L (upd_client f g w)" "users (upd_client f g w) = users w"
    "live (upd_client f g w) = live w"
proof -
  obtain c where c: "map_of (skel w) f = Some c" "\<not> cl_tearingDown c" using f by (auto simp: live_def)
  then have eq: "client.truncate (cl w f) = c" by (auto simp: skel_look cl_def)
  have ok': "client_ok L (w_password w) c" "cl_nickSet c \<longrightarrow> \<not> nick_reserved L (cl_nickname c) w"
    using ok c(1) by (auto simp: world_ok_def clients_wf_def)
  show "world_ok L (upd_client f g w)"
    using ok c ok' h eq nick_free_own [OF ok c] by (intro world_ok_upd_client [where h = h] t) auto
  have s: "skel (upd_client f g w) = om_upd f h (skel w)" by (rule skel_upd_client) (rule t)
  show "users (upd_client f g w) = users w" "live (upd_client f g w) = live w"
    using h(2,3) by (auto simp: users_def live_def s map_simps split: if_splits)
qed

section \<open>Several changes of the same client\<close>

lemma upd_client_comp: "upd_client f g (upd_client f h w) = upd_client f (\<lambda>c. g (h c)) w"
proof -
  have "om_upd f g (om_upd f h m) = om_upd f (\<lambda>c. g (h c)) m" for m :: "(fd \<times> 'a conn) list"
    by (induction m) (auto simp: om_upd_def)
  then show ?thesis by (simp add: upd_client_def)
qed

lemma upd_client_id: "upd_client f (\<lambda>c. c) w = w"
proof -
  have "om_upd f (\<lambda>c. c) m = m" for m :: "(fd \<times> 'a conn) list"
    by (induction m) (auto simp: om_upd_def)
  then show ?thesis by (simp add: upd_client_def)
qed

lemma cl_upd_client:
  "map_of (w_clients w) f \<noteq> None \<Longrightarrow> cl (upd_client f g w) j = (if j = f then g (cl w f) else cl w j)"
  by (auto simp: cl_def upd_client_def map_simps)

lemma live_dom: "f \<in> live w \<Longrightarrow> map_of (w_clients w) f \<noteq> None"
  by (simp add: live_cl)

lemma truncate_upds [simp]:
  "client.truncate (c\<lparr>cl_password := p\<rparr>) = (client.truncate c)\<lparr>cl_password := p\<rparr>"
  "client.truncate (c\<lparr>cl_passSent := b\<rparr>) = (client.truncate c)\<lparr>cl_passSent := b\<rparr>"
  "client.truncate (c\<lparr>cl_nickname := n\<rparr>) = (client.truncate c)\<lparr>cl_nickname := n\<rparr>"
  "client.truncate (c\<lparr>cl_nickSet := b\<rparr>) = (client.truncate c)\<lparr>cl_nickSet := b\<rparr>"
  "client.truncate (c\<lparr>cl_userSet := b\<rparr>) = (client.truncate c)\<lparr>cl_userSet := b\<rparr>"
  "client.truncate (c\<lparr>cl_username := n\<rparr>) = (client.truncate c)\<lparr>cl_username := n\<rparr>"
  "client.truncate (c\<lparr>cl_realname := n\<rparr>) = (client.truncate c)\<lparr>cl_realname := n\<rparr>"
  "client.truncate (c\<lparr>cl_registered := b\<rparr>) = (client.truncate c)\<lparr>cl_registered := b\<rparr>"
  "client.truncate (c\<lparr>cl_invisible := b\<rparr>) = (client.truncate c)\<lparr>cl_invisible := b\<rparr>"
  "client.truncate (c\<lparr>cl_wallops := b\<rparr>) = (client.truncate c)\<lparr>cl_wallops := b\<rparr>"
  "client.truncate (c\<lparr>cl_pingSent := b\<rparr>) = (client.truncate c)\<lparr>cl_pingSent := b\<rparr>"
  "client.truncate (c\<lparr>cl_lastActivity := t\<rparr>) = (client.truncate c)\<lparr>cl_lastActivity := t\<rparr>"
  by (simp_all add: client.truncate_def)

lemma client_ok_other [simp]:
  "client_ok L pw (c\<lparr>cl_lastActivity := t\<rparr>) = client_ok L pw c"
  "client_ok L pw (c\<lparr>cl_pingSent := b\<rparr>) = client_ok L pw c"
  "client_ok L pw (c\<lparr>cl_lastActivity := t, cl_pingSent := b\<rparr>) = client_ok L pw c"
  "client_ok L pw (c\<lparr>cl_invisible := b\<rparr>) = client_ok L pw c"
  "client_ok L pw (c\<lparr>cl_wallops := b\<rparr>) = client_ok L pw c"
  by (simp_all add: client_ok_def)

section \<open>What a handler run for one client leaves of the others\<close>

text \<open>The invariant holds again, and everybody else who was connected still is.\<close>

definition stays :: "'io libcpp \<Rightarrow> fd \<Rightarrow> 'io world \<Rightarrow> 'io world \<Rightarrow> bool" where
  "stays L f w w' \<longleftrightarrow> world_ok L w' \<and> live w - {f} \<subseteq> live w'"

lemma stays_core: "world_ok L w \<Longrightarrow> core w' = core w \<Longrightarrow> stays L f w w'"
  using core_world_ok [of w' w L] core_live [of w' w] by (simp add: stays_def)

lemma stays_after: "stays L f w v \<Longrightarrow> core u = core v \<Longrightarrow> stays L f w u"
  using core_world_ok [of u v L] core_live [of u v] by (simp add: stays_def)

lemma stays_trans: "stays L f w v \<Longrightarrow> stays L f v u \<Longrightarrow> stays L f w u"
  by (auto simp: stays_def)

lemma stays_refl: "world_ok L w \<Longrightarrow> stays L f w w"
  by (auto simp: stays_def)

lemma stays_ok: "stays L f w v \<Longrightarrow> world_ok L v"
  by (simp add: stays_def)

lemma live_upd_client_others: "live w - {f} \<subseteq> live (upd_client f g w)"
proof -
  have "map_of (skel (upd_client f g w)) j = map_of (skel w) j" if "j \<noteq> f" for j
    using that by (simp add: skel_look upd_client_def map_simps)
  then show ?thesis by (auto simp: live_def)
qed

lemma stays_upd_client: "world_ok L (upd_client f g w) \<Longrightarrow> stays L f w (upd_client f g w)"
  using live_upd_client_others [of w f g] by (simp add: stays_def)

end
