(* ===== verification/Disconnect.thy ===== *)
theory Disconnect
  imports Server_Inv
begin

text \<open>
  How a connection ends (\<open>src/Server.cpp\<close>): \<open>teardownClientState\<close> takes the client out
  of every channel and tells its neighbours, \<open>finalizeDisconnect\<close> closes and deletes it;
  \<open>disconnectClient\<close> defers the second step while data is pending.
  \<open>broadcastToChannels\<close>, which shares the once-per-client sending, is here too.

  The failure log of \<open>epoll_ctl\<close> in \<open>removeFromEpoll\<close> and \<open>modifyEpoll\<close> depends on
  the kernel's answer and is not modelled; the call is recorded in \<open>w_calls\<close>.
\<close>

section \<open>Sending once to everybody who shares a channel\<close>

definition send_once :: "'io libcpp \<Rightarrow> string \<Rightarrow> fd set \<times> 'io world \<Rightarrow> fd list \<Rightarrow> fd set \<times> 'io world" where
  "send_once L msg st members =
     foldl (\<lambda>(alreadySent, w) m.
        let mfd = cl_fd (cl w m)
        in if mfd \<in> alreadySent then (alreadySent, w)
           else (insert mfd alreadySent, queueMessage L m msg w)) st members"

definition broadcastToChannels :: "'io libcpp \<Rightarrow> fd \<Rightarrow> string \<Rightarrow> 'io world \<Rightarrow> 'io world" where
  "broadcastToChannels L f msg w =
     snd (foldl (\<lambda>(alreadySent, w) k.
            let ch = chan w k
            in if \<not> isMember ch f then (alreadySent, w)
               else send_once L msg (alreadySent, w) (ch_members ch))
          ({cl_fd (cl w f)}, w) (om_keys (w_channels w)))"

section \<open>Tearing a client down\<close>

definition teardown_chan ::
  "'io libcpp \<Rightarrow> fd \<Rightarrow> string \<Rightarrow> fd set \<times> 'io world \<Rightarrow> string \<Rightarrow> fd set \<times> 'io world" where
  "teardown_chan L f quitMsg st k =
     (let (alreadySent, w) = st;
          w1 = upd_chan k (removeInvite f) w
      in if isMember (chan w1 k) f then
           let (alreadySent', w2) = send_once L quitMsg (alreadySent, w1) (ch_members (chan w1 k));
               w3 = upd_chan k (removeMember f) w2
           in (alreadySent', if isEmpty (chan w3 k) then w3\<lparr>w_channels := om_del k (w_channels w3)\<rparr> else w3)
         else (alreadySent, w1))"

definition teardownClientState :: "'io libcpp \<Rightarrow> fd \<Rightarrow> string \<Rightarrow> 'io world \<Rightarrow> 'io world" where
  "teardownClientState L f reason w =
     (if cl_tearingDown (cl w f) then w
      else
        let w1 = upd_client f markTearingDown w;
            fdn = cl_fd (cl w1 f);
            quitMsg = '':'' @ getPrefix (cl w1 f) @ '' QUIT :'' @ reason;
            w2 = snd (foldl (teardown_chan L f quitMsg) ({fdn}, w1) (om_keys (w_channels w1)));
            w3 = each_ext (ext_onClientDisconnect L f) w2;
            w4 = upd_trace (sessionClose L fdn (nick_of w3 f) reason) w3;
            w5 = upd_trace (log_info (''client disconnected: '' @ nick_of w4 f @ '' ('' @ reason @ '')'')) w4
        in audit ''disconnect'' (nick_of w5 f) reason w5)"

definition finalizeDisconnect :: "fd \<Rightarrow> 'io world \<Rightarrow> 'io world" where
  "finalizeDisconnect f w =
     (let w1 = w\<lparr>w_epollMask := om_del f (w_epollMask w)\<rparr>;
          w2 = os_call (OsClose f) (os_call (OsRemove f) w1)
      in w2\<lparr>w_clients := om_del f (w_clients w2)\<rparr>)"

definition disconnectClient :: "'io libcpp \<Rightarrow> fd \<Rightarrow> string \<Rightarrow> 'io world \<Rightarrow> 'io world" where
  "disconnectClient L f reason w =
     (case map_of (w_clients w) f of
        None \<Rightarrow> w
      | Some c \<Rightarrow>
          if cl_tearingDown c then w
          else let w1 = teardownClientState L f reason w
               in if \<not> hasPendingData L (cl w1 f) then finalizeDisconnect f w1
                  else let (now, w2) = read_clock w1 in upd_client f (markPendingClose now) w2)"

definition disconnectClientNow :: "'io libcpp \<Rightarrow> fd \<Rightarrow> string \<Rightarrow> 'io world \<Rightarrow> 'io world" where
  "disconnectClientNow L f reason w =
     (case map_of (w_clients w) f of
        None \<Rightarrow> w
      | Some c \<Rightarrow>
          if cl_pendingClose c then finalizeDisconnect f w
          else if cl_tearingDown c then w
          else finalizeDisconnect f (teardownClientState L f reason w))"

section \<open>Sending keeps the state\<close>

lemma core_send_once [simp]: "core (snd (send_once L msg st members)) = core (snd st)"
  unfolding send_once_def
  by (rule foldl_frame [where view = "\<lambda>st. core (snd st)"]) (simp add: Let_def case_prod_beta)

lemma core_broadcastToChannels [simp]: "core (broadcastToChannels L f msg w) = core w"
proof -
  have "core (snd (foldl (\<lambda>(alreadySent, w) k. let ch = chan w k
            in if \<not> isMember ch f then (alreadySent, w)
               else send_once L msg (alreadySent, w) (ch_members ch)) st ks)) = core (snd st)" for st ks
    by (rule foldl_frame [where view = "\<lambda>st. core (snd st)"]) (simp add: Let_def case_prod_beta)
  then show ?thesis by (simp add: broadcastToChannels_def)
qed

lemmas broadcastToChannels_frame [simp] =
  core_fields [OF core_broadcastToChannels] core_world_ok [OF core_broadcastToChannels]
  core_users [OF core_broadcastToChannels] core_live [OF core_broadcastToChannels]

section \<open>What the teardown does to the channels\<close>

text \<open>A channel without the client; \<open>None\<close> when nobody is left.\<close>

definition strip :: "fd \<Rightarrow> channel \<Rightarrow> channel option" where
  "strip f ch =
     (let ch1 = removeInvite f ch
      in if isMember ch1 f
         then (if isEmpty (removeMember f ch1) then None else Some (removeMember f ch1))
         else Some ch1)"

definition strip_key :: "fd \<Rightarrow> (string \<times> channel) list \<Rightarrow> string \<Rightarrow> (string \<times> channel) list" where
  "strip_key f chs k =
     (case map_of chs k of
        None \<Rightarrow> chs
      | Some ch \<Rightarrow> (case strip f ch of None \<Rightarrow> om_del k chs | Some ch' \<Rightarrow> om_upd k (\<lambda>_. ch') chs))"

lemma strip_key_look:
  "map_of (strip_key f chs k) j = (if j = k then Option.bind (map_of chs k) (strip f) else map_of chs j)"
  by (auto simp: strip_key_def map_simps split: option.split)

lemma strip_key_ok: "om_ok chs \<Longrightarrow> om_ok (strip_key f chs k)"
  by (auto simp: strip_key_def om_ok_del split: option.split)

lemma strip_loop:
  assumes "distinct ks" and "om_ok chs"
  shows "map_of (foldl (strip_key f) chs ks) j =
      (if j \<in> set ks then Option.bind (map_of chs j) (strip f) else map_of chs j)"
    and "om_ok (foldl (strip_key f) chs ks)"
  using assms by (induction ks arbitrary: chs) (auto simp: strip_key_look strip_key_ok)

lemma om_upd_del: "om_del k (om_upd k g m) = om_del k m"
  by (induction m) (auto simp: om_del_def om_upd_def)

lemma om_upd_upd: "om_upd k g (om_upd k h m) = om_upd k (\<lambda>v. g (h v)) m"
  by (induction m) (auto simp: om_upd_def)

lemma om_upd_const:
  assumes "distinct (map fst m)" and "map_of m k = Some v"
  shows "om_upd k g m = om_upd k (\<lambda>_. g v) m"
proof -
  have "snd e = v" if "e \<in> set m" "fst e = k" for e
  proof -
    have "map_of m (fst e) = Some (snd e)" using assms(1) that(1) by (intro map_of_is_SomeI) simp_all
    then show ?thesis using assms(2) that(2) by simp
  qed
  then show ?thesis by (auto simp: om_upd_def)
qed

lemma core_upd_channels:
  fixes w w' :: "'io world"
  shows "core w = core w' \<Longrightarrow> core (w\<lparr>w_channels := chs\<rparr>) = core (w'\<lparr>w_channels := chs\<rparr>)"
  by (simp add: core_def skel_def)

lemma teardown_chan_core:
  assumes "om_ok (w_channels w)" and "map_of (w_channels w) k = Some ch"
  shows "core (snd (teardown_chan L f q (sent, w) k)) = core (w\<lparr>w_channels := strip_key f (w_channels w) k\<rparr>)"
proof -
  let ?w1 = "upd_chan k (removeInvite f) w"
  let ?w2 = "snd (send_once L q (sent, ?w1) (ch_members (chan ?w1 k)))"
  let ?ch1 = "removeInvite f ch"
  have c1: "chan ?w1 k = ?ch1" using assms(2) by (simp add: chan_def map_simps)
  have w2: "core ?w2 = core ?w1" by simp
  then have chs2: "w_channels ?w2 = om_upd k (removeInvite f) (w_channels w)"
    using core_eqD(2) [OF w2] by simp
  have d: "distinct (map fst (w_channels w))" using assms(1) by (rule om_ok_distinct)
  have look2: "map_of (w_channels ?w2) k = Some ?ch1" unfolding chs2 om_look_upd using assms(2) by simp
  have c3: "chan (upd_chan k (removeMember f) ?w2) k = removeMember f ?ch1"
    using look2 by (simp add: chan_def map_simps)
  have keep: "core (?w2\<lparr>w_channels := x\<rparr>) = core (w\<lparr>w_channels := x\<rparr>)" for x
    using core_upd_channels [OF w2, of x] by (simp add: core_def skel_def upd_chan_def)
  have upd: "om_upd k (removeInvite f) (w_channels w) = om_upd k (\<lambda>_. ?ch1) (w_channels w)"
    using om_upd_const [OF d assms(2), of "removeInvite f"] .
  have upd2: "om_upd k (removeMember f) (w_channels ?w2) = om_upd k (\<lambda>_. removeMember f ?ch1) (w_channels w)"
    by (simp add: chs2 upd om_upd_upd)
  show ?thesis
  proof (cases "isMember ?ch1 f")
    case False
    then have "strip_key f (w_channels w) k = om_upd k (removeInvite f) (w_channels w)"
      by (simp add: strip_key_def strip_def Let_def assms(2) upd)
    moreover have "snd (teardown_chan L f q (sent, w) k) = ?w1"
      using False by (simp add: teardown_chan_def Let_def c1)
    ultimately show ?thesis by (simp add: upd_chan_def)
  next
    case True
    have eq: "snd (teardown_chan L f q (sent, w) k) =
      (if isEmpty (removeMember f ?ch1)
       then ?w2\<lparr>w_channels := om_del k (om_upd k (removeMember f) (w_channels ?w2))\<rparr>
       else ?w2\<lparr>w_channels := om_upd k (removeMember f) (w_channels ?w2)\<rparr>)"
    proof -
      have "snd (teardown_chan L f q (sent, w) k) =
        (let w3 = upd_chan k (removeMember f) ?w2
         in if isEmpty (chan w3 k) then w3\<lparr>w_channels := om_del k (w_channels w3)\<rparr> else w3)"
        using True by (simp add: teardown_chan_def Let_def c1 case_prod_beta)
      then show ?thesis unfolding Let_def c3 by (simp add: upd_chan_def)
    qed
    show ?thesis
      unfolding eq upd2 om_upd_del if_distrib [of core] keep using True
      by (simp add: strip_key_def strip_def Let_def assms(2))
  qed
qed

lemma teardown_loop_core:
  assumes "om_ok (w_channels w)" and "distinct ks" and "set ks \<subseteq> set (om_keys (w_channels w))"
  shows "core (snd (foldl (teardown_chan L f q) (sent, w) ks)) =
    core (w\<lparr>w_channels := foldl (strip_key f) (w_channels w) ks\<rparr>)"
  using assms
proof (induction ks arbitrary: sent w)
  case Nil
  then show ?case by (simp add: core_def skel_def)
next
  case (Cons k ks)
  obtain ch where ch: "map_of (w_channels w) k = Some ch"
    using Cons.prems(3) om_keys_look [of k "w_channels w"] by auto
  obtain sent1 w1 where st: "teardown_chan L f q (sent, w) k = (sent1, w1)" by (cases "teardown_chan L f q (sent, w) k")
  have c: "core w1 = core (w\<lparr>w_channels := strip_key f (w_channels w) k\<rparr>)"
    using teardown_chan_core [OF Cons.prems(1) ch, of L f q sent] st by simp
  then have chs: "w_channels w1 = strip_key f (w_channels w) k" using core_eqD(2) [OF c] by simp
  have "set ks \<subseteq> set (om_keys (w_channels w1))"
  proof
    fix j assume j: "j \<in> set ks"
    then have "map_of (w_channels w) j \<noteq> None" "j \<noteq> k"
      using Cons.prems(2,3) om_keys_look [of j "w_channels w"] by auto
    then show "j \<in> set (om_keys (w_channels w1))" unfolding om_keys_look chs strip_key_look by simp
  qed
  then have IH: "core (snd (foldl (teardown_chan L f q) (sent1, w1) ks)) =
      core (w1\<lparr>w_channels := foldl (strip_key f) (w_channels w1) ks\<rparr>)"
    using Cons.IH [of w1 sent1] Cons.prems(1,2) by (simp add: chs strip_key_ok)
  show ?case
    using IH core_upd_channels [OF c, of "foldl (strip_key f) (w_channels w1) ks"]
    by (simp add: st chs)
qed

section \<open>A teardown leaves no trace of the client\<close>

lemma strip_Some:
  assumes "strip f ch = Some ch'"
  shows "set (ch_members ch') = set (ch_members ch) - {f}" "ch_operators ch' = ch_operators ch - (if isMember ch f then {f} else {})"
    "ch_inviteList ch' = ch_inviteList ch - {f}" "ch_name ch' = ch_name ch" "ch_topic ch' = ch_topic ch"
    "ch_key ch' = ch_key ch" "ch_userLimit ch' = ch_userLimit ch"
  using assms
  by (auto simp: strip_def Let_def removeInvite_def removeMember_def isMember_def split: if_splits)

lemma strip_None:
  assumes "strip f ch = None"
  shows "set (ch_members ch) = {f}"
proof -
  have m: "f \<in> set (ch_members ch)" "os_del f (ch_members ch) = []"
    using assms by (simp_all add: strip_def Let_def removeInvite_def removeMember_def isMember_def isEmpty_def
        split: if_splits)
  then have "set (ch_members ch) - {f} = {}" using set_os_del [of f "ch_members ch"] by simp
  then show ?thesis using m(1) by blast
qed

lemma strip_wf:
  assumes "chan_wf L fs k ch" and "strip f ch = Some ch'"
  shows "chan_wf L (fs - {f}) k ch'"
proof -
  have "chan_ok ch'"
    using assms by (auto simp: chan_wf_def strip_def Let_def removeInvite_ok removeMember_ok split: if_splits)
  then show ?thesis
    using assms(1) strip_Some [OF assms(2)] by (auto simp: chan_wf_def)
qed

lemma truncate_marks [simp]:
  "client.truncate (markTearingDown c) = markTearingDown (client.truncate c)"
  "client.truncate (markPendingClose now c) = markPendingClose now (client.truncate c)"
  by (simp_all add: client.truncate_def markTearingDown_def markPendingClose_def)

lemma teardown_effect:
  fixes w :: "'io world" and reason :: string
  assumes ok: "world_ok L w" and f: "f \<in> live w"
  defines "w' \<equiv> teardownClientState L f reason w"
  shows "skel w' = om_upd f markTearingDown (skel w)"
    "map_of (w_channels w') j = Option.bind (map_of (w_channels w) j) (strip f)" "om_ok (w_channels w')"
    "w_password w' = w_password w" "w_epollMask w' = w_epollMask w"
    "map ext_kind (w_exts w') = map ext_kind (w_exts w)" "exts_wf w'"
proof -
  define w1 where "w1 = upd_client f markTearingDown w"
  define q where "q = '':'' @ getPrefix (cl w1 f) @ '' QUIT :'' @ reason"
  define w2 where "w2 = snd (foldl (teardown_chan L f q) ({cl_fd (cl w1 f)}, w1) (om_keys (w_channels w1)))"
  define w3 where "w3 = each_ext (ext_onClientDisconnect L f) w2"
  have run: "core w' = core w3"
    using f by (simp add: w'_def teardownClientState_def Let_def w1_def q_def w2_def w3_def live_cl)
  have s1: "skel w1 = om_upd f markTearingDown (skel w)"
    unfolding w1_def by (rule skel_upd_client) simp
  have om: "om_ok (w_channels w1)"
    using ok by (simp add: w1_def world_ok_def chans_wf_def)
  have c2: "core w2 = core (w1\<lparr>w_channels := foldl (strip_key f) (w_channels w1) (om_keys (w_channels w1))\<rparr>)"
    unfolding w2_def by (rule teardown_loop_core) (use om om_ok_distinct in auto)
  have s2: "skel w2 = skel w1" using core_eqD(1) [OF c2] by (simp add: skel_def)
  have live1: "live w1 = live w - {f}" using f by (auto simp: live_def s1 map_simps markTearingDown_def)
  have live2: "live w2 = live w - {f}" using live1 s2 by (simp add: live_def)
  have fd1: "cl_fd (cl w1 f) = f"
    using world_ok_fd [OF ok f] f
    by (auto simp: w1_def cl_def upd_client_def map_simps markTearingDown_def live_cl)
  have pre: "cl_fd (cl w2 f) = f \<and> f \<notin> live w2"
    using skel_cl_fields(1) [OF s2, of f] fd1 live2 by simp
  have exts1: "exts_wf w" "w_exts w1 = w_exts w" using ok by (simp_all add: world_ok_def w1_def)
  have "Ball (set (map ext_core (w_exts w2))) (ext_ok (insert f (live w2)))"
    using core_eqD(3) [OF c2] exts1 f by (simp add: exts_wf_def live2 insert_absorb)
  then have bef: "\<forall>e \<in> set (w_exts w2). ext_ok (insert f (live w2)) e" by simp
  note loop = on_disconnect.loop [OF pre bef, of L, folded w3_def]
  have n3: "skel w3 = skel w2" "w_channels w3 = w_channels w2" "w_password w3 = w_password w2"
      "w_epollMask w3 = w_epollMask w2"
    using loop(1) by (simp_all add: net_def)
  have chs: "w_channels w' = foldl (strip_key f) (w_channels w) (om_keys (w_channels w))"
    using core_eqD(2) [OF run] n3(2) core_eqD(2) [OF c2] by (simp add: w1_def)
  have omw: "om_ok (w_channels w)" "distinct (om_keys (w_channels w))" using om om_ok_distinct by (auto simp: w1_def)
  show "skel w' = om_upd f markTearingDown (skel w)"
    using core_eqD(1) [OF run] n3(1) s2 s1 by simp
  show "map_of (w_channels w') j = Option.bind (map_of (w_channels w) j) (strip f)"
    using strip_loop(1) [OF omw(2,1), of f j] om_keys_look [of j "w_channels w"]
    by (cases "map_of (w_channels w) j") (auto simp: chs)
  show "om_ok (w_channels w')" unfolding chs by (rule strip_loop(2) [OF omw(2,1)])
  show "w_password w' = w_password w" "w_epollMask w' = w_epollMask w"
    using core_eqD(4,5) [OF run] n3(3,4) core_eqD(4,5) [OF c2] by (simp_all add: w1_def)
  show "map ext_kind (w_exts w') = map ext_kind (w_exts w)"
    using core_kinds [OF run] loop(2) core_kinds [OF c2] exts1(2) by simp
  have "exts_wf w3"
    using loop(3) live2 n3(1) s2 unfolding exts_wf_def by (simp add: live_def)
  then show "exts_wf w'" using core_exts_wf [OF run] by simp
qed

lemma world_ok_without:
  fixes w w' :: "'io world"
  assumes ok: "world_ok L w" and f: "f \<in> live w"
    and sk: "om_ok (skel w')" "\<And>g. g \<noteq> f \<Longrightarrow> map_of (skel w') g = map_of (skel w) g"
      "map_of (skel w') f = None \<or>
       (\<exists>now. map_of (skel w') f = map_option (\<lambda>c. markPendingClose now (markTearingDown c)) (map_of (skel w) f))"
    and rest: "w_password w' = w_password w" "map ext_kind (w_exts w') = map ext_kind (w_exts w)"
      "exts_wf w'" "mask_wf w'" "om_ok (w_channels w')"
      "\<And>j. map_of (w_channels w') j = Option.bind (map_of (w_channels w) j) (strip f)"
  shows "world_ok L w'" "live w' = live w - {f}" "users w' = users w - {f}"
proof -
  obtain c where c: "map_of (skel w) f = Some c" using f by (auto simp: live_def)
  have dead: "cl_tearingDown d \<and> (\<exists>now. d = markPendingClose now (markTearingDown c))"
    if "map_of (skel w') f = Some d" for d
    using sk(3) that c by (auto simp: markPendingClose_def markTearingDown_def)
  show live': "live w' = live w - {f}" and users': "users w' = users w - {f}"
    using sk(2) dead by (fastforce simp: live_def users_def)+
  have cw: "clients_wf L w" "chans_wf L w" using ok by (auto simp: world_ok_def)
  have res: "nick_reserved L n w' = nick_reserved L n w" for n
    using rest(2) by (simp add: nick_reserved_kinds)
  have "cl_fd d = g" if "map_of (skel w') g = Some d" for g d
    using that cw(1) dead c sk(2) unfolding clients_wf_def table_ok_def
    by (cases "g = f") (auto simp: markPendingClose_def markTearingDown_def)
  moreover have "nicks_unique L w'"
    unfolding nicks_unique_def
  proof (intro allI impI, elim conjE)
    fix i j a b
    assume a: "map_of (skel w') i = Some a" "\<not> cl_tearingDown a" "cl_nickSet a"
      and b: "map_of (skel w') j = Some b" "\<not> cl_tearingDown b" "cl_nickSet b"
      and eq: "ircEquals L (cl_nickname a) (cl_nickname b)"
    have "i \<noteq> f" "j \<noteq> f" using a b dead by auto
    then show "i = j" using cw(1) a b eq sk(2) unfolding clients_wf_def nicks_unique_def by metis
  qed
  moreover have "client_ok L (w_password w') d \<and> (cl_nickSet d \<longrightarrow> \<not> nick_reserved L (cl_nickname d) w')"
    if d: "map_of (skel w') g = Some d" for g d
  proof (cases "g = f")
    case True
    then obtain now where "d = markPendingClose now (markTearingDown c)" using d dead by blast
    moreover have "client_ok L (w_password w) c" "cl_nickSet c \<longrightarrow> \<not> nick_reserved L (cl_nickname c) w"
      using cw(1) c unfolding clients_wf_def by auto
    ultimately show ?thesis
      by (simp add: rest(1) res client_ok_def markPendingClose_def markTearingDown_def)
  next
    case False
    then show ?thesis using d cw(1) sk(2) unfolding clients_wf_def rest(1) res by metis
  qed
  ultimately have "clients_wf L w'" using sk(1) unfolding clients_wf_def table_ok_def by blast
  moreover have "chan_wf L (users w') k ch'" if "map_of (w_channels w') k = Some ch'" for k ch'
    using that cw(2) strip_wf users' unfolding rest(6) chans_wf_def
    by (fastforce simp: bind_eq_Some_conv)
  ultimately show "world_ok L w'"
    using rest(3,4,5) by (simp add: world_ok_def chans_wf_def)
qed

section \<open>Every way to disconnect keeps the invariant\<close>

lemma finalize_views [simp]:
  "w_channels (finalizeDisconnect f w) = w_channels w" "w_exts (finalizeDisconnect f w) = w_exts w"
  "w_password (finalizeDisconnect f w) = w_password w"
  "w_epollMask (finalizeDisconnect f w) = om_del f (w_epollMask w)"
  "w_clients (finalizeDisconnect f w) = om_del f (w_clients w)"
  "w_calls (finalizeDisconnect f w) = w_calls w @ [OsRemove f, OsClose f]"
  by (simp_all add: finalizeDisconnect_def Let_def os_call_def)

lemma skel_finalize [simp]: "skel (finalizeDisconnect f w) = om_del f (skel w)"
proof -
  have "map (\<lambda>e. (fst e, client.truncate (snd e))) (om_del f m) =
      om_del f (map (\<lambda>e. (fst e, client.truncate (snd e))) m)" for m :: "(fd \<times> 'a conn) list"
    by (induction m) (auto simp: om_del_def)
  then show ?thesis by (simp add: skel_def)
qed

lemma mask_wf_finalize:
  assumes "mask_wf w"
  shows "mask_wf (finalizeDisconnect f w)"
  using assms om.keys_del [of f "w_epollMask w"] om.keys_del [of f "w_clients w"]
  by (simp add: mask_wf_def om_ok_del)

lemma world_ok_finalize:
  assumes ok: "world_ok L w" and f: "f \<notin> live w"
  shows "world_ok L (finalizeDisconnect f w)" "live (finalizeDisconnect f w) = live w"
    "users (finalizeDisconnect f w) = users w"
proof -
  have look: "map_of (skel (finalizeDisconnect f w)) g = (if g = f then None else map_of (skel w) g)" for g
    by (simp add: map_simps)
  have f': "\<And>c. map_of (skel w) f = Some c \<Longrightarrow> cl_tearingDown c" using f by (auto simp: live_def)
  show l: "live (finalizeDisconnect f w) = live w" and u: "users (finalizeDisconnect f w) = users w"
    unfolding live_def users_def look using f' by auto
  have "om_ok (skel (finalizeDisconnect f w))"
    using ok om_ok_del [of "skel w" f] by (simp only: world_ok_def clients_wf_def table_ok_def skel_finalize)
  then have "clients_wf L (finalizeDisconnect f w)"
    using ok unfolding world_ok_def clients_wf_def table_ok_def nicks_unique_def look nick_reserved_def
      finalize_views
    by (auto split: if_splits)
  moreover have "chans_wf L (finalizeDisconnect f w)" "exts_wf (finalizeDisconnect f w)"
    using ok by (simp_all add: world_ok_def chans_wf_def exts_wf_def u l)
  ultimately show "world_ok L (finalizeDisconnect f w)"
    using ok mask_wf_finalize [of w f] by (simp add: world_ok_def)
qed

text \<open>Tearing down and then deleting, or keeping the client until its data is sent.\<close>

lemma teardown_finalize_ok:
  assumes ok: "world_ok L w" and f: "f \<in> live w"
  shows "world_ok L (finalizeDisconnect f (teardownClientState L f reason w))"
    "live (finalizeDisconnect f (teardownClientState L f reason w)) = live w - {f}"
    "users (finalizeDisconnect f (teardownClientState L f reason w)) = users w - {f}"
proof -
  let ?t = "teardownClientState L f reason w" let ?w = "finalizeDisconnect f ?t"
  note t = teardown_effect [OF ok f, of reason]
  have om: "om_ok (skel ?w)" using ok om_ok_del [of "om_upd f markTearingDown (skel w)" f]
    unfolding skel_finalize t(1) world_ok_def clients_wf_def table_ok_def by (simp del: skel_keys)
  have keys: "map fst (w_clients ?t) = map fst (w_clients w)" using t(1) skel_keys by (metis om_keys_upd)
  have mask: "mask_wf ?t" using ok t(5) keys by (simp add: world_ok_def mask_wf_def)
  have live': "live ?t = live w - {f}" using f by (auto simp: live_def t(1) map_simps markTearingDown_def)
  have "live ?w = live ?t" by (auto simp: live_def map_simps t(1) markTearingDown_def)
  then have ex: "exts_wf ?w" using t(7) by (simp add: exts_wf_def)
  have other: "map_of (skel ?w) g = map_of (skel w) g" if "g \<noteq> f" for g
    using that by (simp add: t(1) map_simps)
  have gone: "map_of (skel ?w) f = None" by (simp add: map_simps)
  have ch: "w_channels ?w = w_channels ?t" "w_password ?w = w_password w"
      "map ext_kind (w_exts ?w) = map ext_kind (w_exts w)"
    using t(4,6) by simp_all
  have o: "om_ok (w_channels ?w)" "\<And>j. map_of (w_channels ?w) j = Option.bind (map_of (w_channels w) j) (strip f)"
    unfolding ch(1) by (rule t(3), rule t(2))
  note r = world_ok_without [OF ok f om other disjI1 [OF gone] ch(2,3) ex mask_wf_finalize [OF mask] o]
  show "world_ok L ?w" by (rule r(1))
  show "live ?w = live w - {f}" by (rule r(2))
  show "users ?w = users w - {f}" by (rule r(3))
qed

lemma teardown_pending_ok:
  assumes ok: "world_ok L w" and f: "f \<in> live w"
    and w2: "core w2 = core (teardownClientState L f reason w)"
  shows "world_ok L (upd_client f (markPendingClose now) w2)"
    "live (upd_client f (markPendingClose now) w2) = live w - {f}"
    "users (upd_client f (markPendingClose now) w2) = users w - {f}"
proof -
  let ?t = "teardownClientState L f reason w" let ?w = "upd_client f (markPendingClose now) w2"
  note t = teardown_effect [OF ok f, of reason]
  have s: "skel ?w = om_upd f (markPendingClose now) (om_upd f markTearingDown (skel w))"
    using core_eqD(1) [OF w2] t(1) by (subst skel_upd_client) simp_all
  have om: "om_ok (skel ?w)" using ok by (simp add: s world_ok_def clients_wf_def table_ok_def)
  have keys: "map fst (w_clients ?w) = map fst (w_clients w)"
    using core_views(5) [OF w2] t(1) skel_keys [of ?t] by (metis om_keys_upd skel_keys upd_client_other(7))
  have mask: "mask_wf ?w" using ok t(5) keys core_eqD(5) [OF w2] by (simp add: world_ok_def mask_wf_def)
  have live': "live ?w = live w - {f}" "live ?t = live w - {f}"
    using f by (auto simp: live_def s t(1) map_simps markTearingDown_def markPendingClose_def)
  have "exts_wf w2" using core_exts_wf [OF w2] t(7) by simp
  then have ex: "exts_wf ?w" using live' core_live(1) [OF w2] by (simp add: exts_wf_def)
  have ch: "w_channels ?w = w_channels ?t" "w_password ?w = w_password w"
      "map ext_kind (w_exts ?w) = map ext_kind (w_exts w)"
    using core_eqD [OF w2] core_kinds [OF w2] t(4,6) by simp_all
  have o: "om_ok (w_channels ?w)" "\<And>j. map_of (w_channels ?w) j = Option.bind (map_of (w_channels w) j) (strip f)"
    unfolding ch(1) by (rule t(3), rule t(2))
  have f': "\<exists>n. map_of (skel ?w) f = map_option (\<lambda>c. markPendingClose n (markTearingDown c)) (map_of (skel w) f)"
    by (auto simp: s map_simps option.map_comp comp_def)
  have other: "map_of (skel ?w) g = map_of (skel w) g" if "g \<noteq> f" for g
    using that by (simp add: s map_simps)
  note r = world_ok_without [OF ok f om other disjI2 [OF f'] ch(2,3) ex mask o]
  show "world_ok L ?w" by (rule r(1))
  show "live ?w = live w - {f}" by (rule r(2))
  show "users ?w = users w - {f}" by (rule r(3))
qed

theorem disconnectClient_ok:
  assumes "world_ok L w"
  shows "world_ok L (disconnectClient L f reason w)"
    "live (disconnectClient L f reason w) = live w - {f}" "users (disconnectClient L f reason w) = users w - {f}"
proof -
  have "world_ok L (disconnectClient L f reason w) \<and> live (disconnectClient L f reason w) = live w - {f} \<and>
    users (disconnectClient L f reason w) = users w - {f}"
  proof (cases "f \<in> live w")
    case False
    then have "disconnectClient L f reason w = w"
      by (auto simp: disconnectClient_def live_cl cl_def split: option.split)
    then show ?thesis using False assms users_live by auto
  next
    case True
    then obtain c where c: "map_of (w_clients w) f = Some c" "\<not> cl_tearingDown c"
      by (auto simp: live_cl cl_def)
    have "core (snd (read_clock (teardownClientState L f reason w))) = core (teardownClientState L f reason w)"
      by simp
    note p = teardown_pending_ok [OF assms True this]
    show ?thesis
      using c teardown_finalize_ok [OF assms True] p
      by (simp add: disconnectClient_def Let_def case_prod_beta)
  qed
  then show "world_ok L (disconnectClient L f reason w)"
    "live (disconnectClient L f reason w) = live w - {f}" "users (disconnectClient L f reason w) = users w - {f}"
    by blast+
qed

theorem disconnectClientNow_ok:
  assumes "world_ok L w"
  shows "world_ok L (disconnectClientNow L f reason w)"
    "live (disconnectClientNow L f reason w) = live w - {f}"
    "users (disconnectClientNow L f reason w) = users w - {f}"
    "map_of (w_clients (disconnectClientNow L f reason w)) f = None"
proof -
  let ?w = "disconnectClientNow L f reason w"
  have "world_ok L ?w \<and> live ?w = live w - {f} \<and> users ?w = users w - {f} \<and> map_of (w_clients ?w) f = None"
  proof (cases "map_of (w_clients w) f")
    case None
    then show ?thesis using assms by (auto simp: disconnectClientNow_def live_cl users_cl)
  next
    case (Some c)
    then have "map_of (skel w) f = Some (client.truncate c)" by (simp add: skel_look)
    then have "client_ok L (w_password w) (client.truncate c)"
      using assms unfolding world_ok_def clients_wf_def by blast
    then have pt: "cl_tearingDown c = cl_pendingClose c" by (simp add: client_ok_def truncate_fields)
    show ?thesis
    proof (cases "cl_pendingClose c")
      case True
      then have "f \<notin> live w" using Some pt by (auto simp: live_cl cl_def)
      then show ?thesis
        using Some True world_ok_finalize [OF assms, of f] users_live
        by (auto simp: disconnectClientNow_def om_look_del)
    next
      case False
      then have "f \<in> live w" using Some pt by (auto simp: live_cl cl_def)
      then show ?thesis
        using Some False pt teardown_finalize_ok [OF assms, of f] by (simp add: disconnectClientNow_def om_look_del)
    qed
  qed
  then show "world_ok L ?w" "live ?w = live w - {f}" "users ?w = users w - {f}"
    "map_of (w_clients ?w) f = None" by blast+
qed

end
