(* ===== verification/Registration.thy ===== *)
theory Registration
  imports Disconnect
begin

unbundle bit_operations_syntax

text \<open>
  \<open>src/CommandRegistration.cpp\<close>: \<open>CAP\<close>, \<open>PASS\<close>, \<open>NICK\<close>, \<open>USER\<close> and the
  completion of the registration.  A handler takes the client's descriptor, the message
  and the world, and returns the world after it.
\<close>

definition cmdCap :: "'io libcpp \<Rightarrow> fd \<Rightarrow> message \<Rightarrow> 'io world \<Rightarrow> 'io world" where
  "cmdCap L f msg w =
     (if m_params msg = [] then w
      else let subcommand = lc_to_upper L (m_params msg ! 0)
           in if subcommand = ''LS'' then queueMessage L f ('':'' @ SERVER_NAME @ '' CAP * LS :'') w
              else w)"

definition cmdPass :: "'io libcpp \<Rightarrow> fd \<Rightarrow> message \<Rightarrow> 'io world \<Rightarrow> 'io world" where
  "cmdPass L f msg w =
     (if cl_registered (cl w f) then sendReply L f ERR_ALREADYREGISTRED '':You may not reregister'' w
      else if m_params msg = [] then sendReply L f ERR_NEEDMOREPARAMS ''PASS :Not enough parameters'' w
      else
        let w1 = upd_client f (\<lambda>c. c\<lparr>cl_password :=
                   (if matched msg then field msg ''password'' else m_params msg ! 0)\<rparr>) w
        in upd_client f (\<lambda>c. c\<lparr>cl_passSent := True\<rparr>) w1)"

section \<open>Completing the registration\<close>

definition completeRegistration :: "'io libcpp \<Rightarrow> fd \<Rightarrow> 'io world \<Rightarrow> 'io world" where
  "completeRegistration L f w =
     (if \<not> cl_passSent (cl w f) \<or> \<not> lc_eq_consttime L (cl_password (cl w f)) (w_password w) then
        let w1 = sendReply L f ERR_PASSWDMISMATCH '':Password incorrect'' w
        in disconnectClient L (cl_fd (cl w1 f)) ''Password mismatch'' w1
      else
        let w1 = upd_client f (\<lambda>c. c\<lparr>cl_registered := True\<rparr>) w;
            nick = nick_of w1 f;
            prefix = getPrefix (cl w1 f);
            w2 = sendReply L f RPL_WELCOME ('':Welcome to the '' @ SERVER_NAME @ '' Network '' @ prefix) w1;
            w3 = sendReply L f RPL_YOURHOST
                   ('':Your host is '' @ SERVER_NAME @ '', running version '' @ SERVER_VERSION) w2;
            w4 = sendReply L f RPL_CREATED ('':This server was created '' @ SERVER_CREATED) w3;
            w5 = sendReply L f RPL_MYINFO (SERVER_NAME @ '' '' @ SERVER_VERSION @ '' o itkol'') w4;
            w6 = sendReply L f RPL_ISUPPORT
                   (''CHANTYPES=# PREFIX=(o)@ CHANMODES=,,kl,it '' @ ''NICKLEN=9 CHANNELLEN=50 TOPICLEN=390 '' @
                    ''NETWORK='' @ SERVER_NAME @ '' CASEMAPPING=ascii '' @ '':are supported by this server'') w5;
            w7 = sendReply L f ERR_NOMOTD '':MOTD File is missing'' w6;
            w8 = upd_trace (sessionRegistered L (cl_fd (cl w7 f)) prefix) w7;
            w9 = upd_trace (log_success (''registered '' @ nick @ '' ('' @ cl_username (cl w8 f) @ ''@'' @
                   cl_hostname (cl w8 f) @ '')'')) w8;
            w10 = audit ''register'' nick (cl_username (cl w9 f) @ ''@'' @ cl_hostname (cl w9 f)) w9
        in each_ext (ext_onClientRegistered f) w10)"

section \<open>NICK and USER\<close>

definition cmdNick :: "'io libcpp \<Rightarrow> fd \<Rightarrow> message \<Rightarrow> 'io world \<Rightarrow> 'io world" where
  "cmdNick L f msg w =
     (if m_params msg = [] then sendReply L f ERR_NONICKNAMEGIVEN '':No nickname given'' w
      else let nick0 = (if matched msg then field msg ''newnick'' else m_params msg ! 0) in
      if \<not> isValidNickname nick0 then sendReply L f ERR_ERRONEUSNICKNAME (nick0 @ '' :Erroneous nickname'') w
      else let nick = (if MAX_NICKLEN < length nick0 then take MAX_NICKLEN nick0 else nick0) in
      if isNickInUse L nick f w then
        sendReply L f ERR_NICKNAMEINUSE (nick @ '' :Nickname is already in use'') w
      else if list_ex (ext_reservesNick L nick) (w_exts w) then
        sendReply L f ERR_NICKNAMEINUSE (nick @ '' :Nickname is already in use'') w
      else if cl_registered (cl w f) then
        let oldPrefix = getPrefix (cl w f);
            nickMsg = '':'' @ oldPrefix @ '' NICK :'' @ nick;
            w1 = queueMessage L f nickMsg w;
            w2 = broadcastToChannels L f nickMsg w1
        in upd_client f (\<lambda>c. c\<lparr>cl_nickname := nick\<rparr>) w2
      else
        let w1 = upd_client f (\<lambda>c. c\<lparr>cl_nickname := nick\<rparr>) w;
            w2 = upd_client f (\<lambda>c. c\<lparr>cl_nickSet := True\<rparr>) w1
        in if cl_userSet (cl w2 f) then completeRegistration L f w2 else w2)"

definition applyUserModeBitmask :: "'io libcpp \<Rightarrow> fd \<Rightarrow> string \<Rightarrow> 'io world \<Rightarrow> 'io world" where
  "applyUserModeBitmask L f param w =
     (case lc_parse_long L param 0 255 of
        None \<Rightarrow> w
      | Some bits \<Rightarrow>
          let w1 = (if bits AND 4 \<noteq> 0 then upd_client f (\<lambda>c. c\<lparr>cl_wallops := True\<rparr>) w else w)
          in (if bits AND 8 \<noteq> 0 then upd_client f (\<lambda>c. c\<lparr>cl_invisible := True\<rparr>) w1 else w1))"

definition cmdUser :: "'io libcpp \<Rightarrow> fd \<Rightarrow> message \<Rightarrow> 'io world \<Rightarrow> 'io world" where
  "cmdUser L f msg w =
     (if cl_registered (cl w f) then sendReply L f ERR_ALREADYREGISTRED '':You may not reregister'' w
      else if length (m_params msg) < 4 then sendReply L f ERR_NEEDMOREPARAMS ''USER :Not enough parameters'' w
      else if (if matched msg then False else m_trailingIndex msg \<noteq> 3) then
        sendReply L f ERR_NEEDMOREPARAMS ''USER :Not enough parameters'' w
      else
        let username0 = (if matched msg then field msg ''username'' else m_params msg ! 0);
            username = (if MAX_USERLEN < length username0 then take MAX_USERLEN username0 else username0) in
      if \<not> isValidUsername username then sendReply L f ERR_NEEDMOREPARAMS ''USER :Invalid username'' w
      else
        let w1 = upd_client f (\<lambda>c. c\<lparr>cl_username := username\<rparr>) w;
            w2 = applyUserModeBitmask L f (m_params msg ! 1) w1;
            w3 = upd_client f (\<lambda>c. c\<lparr>cl_realname :=
                   (if matched msg then field msg ''realname'' else m_params msg ! 3)\<rparr>) w2;
            w4 = upd_client f (\<lambda>c. c\<lparr>cl_userSet := True\<rparr>) w3
        in if cl_nickSet (cl w4 f) then completeRegistration L f w4 else w4)"

section \<open>The handlers keep the invariant\<close>

lemma cmdCap_core: "core (cmdCap L f msg w) = core w"
  by (simp add: cmdCap_def Let_def)

lemma cmdPass_ok:
  assumes "world_ok L w" and "f \<in> live w"
  shows "stays L f w (cmdPass L f msg w)"
proof (cases "cl_registered (cl w f)")
  case False
  define p where "p = (if matched msg then field msg ''password'' else m_params msg ! 0)"
  have u: "world_ok L (upd_client f (\<lambda>c. c\<lparr>cl_password := p, cl_passSent := True\<rparr>) w)"
    by (rule world_ok_upd_client_same(1) [OF assms, where h = "\<lambda>c. c\<lparr>cl_password := p, cl_passSent := True\<rparr>"])
      (use False in \<open>auto simp: client_ok_def truncate_fields\<close>)
  show ?thesis
    using assms(1) False stays_upd_client [OF u]
    by (simp add: cmdPass_def Let_def upd_client_comp stays_core flip: p_def)
qed (use assms in \<open>simp add: cmdPass_def stays_core\<close>)

lemma completeRegistration_success:
  assumes "cl_passSent (cl w f)" and "lc_eq_consttime L (cl_password (cl w f)) (w_password w)"
  shows "core (completeRegistration L f w) = core (upd_client f (\<lambda>c. c\<lparr>cl_registered := True\<rparr>) w)"
proof -
  have "\<not> (\<not> cl_passSent (cl w f) \<or> \<not> lc_eq_consttime L (cl_password (cl w f)) (w_password w))"
    using assms by simp
  note n = this
  show ?thesis
    unfolding completeRegistration_def if_not_P [OF n]
    by (((rule let_core | rule let_pure)+)?,
      simp only: each_ext_id core_sendReply core_audit core_upd_trace)
qed

text \<open>Only a client with a nickname and a user name is ever registered.\<close>

lemma completeRegistration_ok:
  assumes ok: "world_ok L w" and f: "f \<in> live w" and n: "cl_nickSet (cl w f)" "cl_userSet (cl w f)"
  shows "stays L f w (completeRegistration L f w)"
proof (cases "\<not> cl_passSent (cl w f) \<or> \<not> lc_eq_consttime L (cl_password (cl w f)) (w_password w)")
  case True
  then show ?thesis
    using ok world_ok_fd [OF ok f] by (simp add: completeRegistration_def Let_def disconnectClient_ok stays_def)
next
  case False
  obtain c where c: "map_of (skel w) f = Some c" "\<not> cl_tearingDown c" using f by (auto simp: live_def)
  then have eq: "client.truncate (cl w f) = c" by (auto simp: skel_look cl_def)
  have cok: "client_ok L (w_password w) c" "cl_nickSet c \<longrightarrow> \<not> nick_reserved L (cl_nickname c) w"
    using ok c(1) by (auto simp: world_ok_def clients_wf_def)
  have fields: "cl_nickSet c" "cl_userSet c" "cl_passSent c" "lc_eq_consttime L (cl_password c) (w_password w)"
    using n False by (simp_all add: truncate_fields flip: eq)
  have "client_ok L (w_password w) (c\<lparr>cl_registered := True\<rparr>)"
    using cok(1) fields by (simp add: client_ok_def)
  then have reg: "world_ok L (upd_client f (\<lambda>c. c\<lparr>cl_registered := True\<rparr>) w)"
    using cok(2) fields nick_free_own [OF ok c]
    by (intro world_ok_upd_client [OF ok c(1), where h = "\<lambda>c. c\<lparr>cl_registered := True\<rparr>"]) simp_all
  have "core (completeRegistration L f w) = core (upd_client f (\<lambda>c. c\<lparr>cl_registered := True\<rparr>) w)"
    by (rule completeRegistration_success) (use False in blast)+
  then show ?thesis by (rule stays_after [OF stays_upd_client [OF reg]])
qed

lemma isValidNickname_take: "isValidNickname nick \<Longrightarrow> 0 < n \<Longrightarrow> isValidNickname (take n nick)"
proof -
  assume v: "isValidNickname nick" and n: "0 < n"
  obtain first rest where nick: "nick = first # rest" using v by (cases nick) (auto simp: isValidNickname_def)
  obtain m where m: "n = Suc m" using n by (cases n) auto
  have all: "list_all P (take m rest)" if "list_all P rest" for P
    using that by (auto simp: list_all_iff dest: in_set_takeD)
  show ?thesis
    using v all unfolding nick m take_Suc_Cons isValidNickname_def list.case by blast
qed

lemma cmdNick_ok:
  assumes ok: "world_ok L w" and f: "f \<in> live w" and L: "casemap_law L"
  shows "stays L f w (cmdNick L f msg w)"
proof -
  define nick0 where "nick0 = (if matched msg then field msg ''newnick'' else m_params msg ! 0)"
  define nick where "nick = (if MAX_NICKLEN < length nick0 then take MAX_NICKLEN nick0 else nick0)"
  obtain c where c: "map_of (skel w) f = Some c" "\<not> cl_tearingDown c" using f by (auto simp: live_def)
  then have eq: "client.truncate (cl w f) = c" by (auto simp: skel_look cl_def)
  have cok: "client_ok L (w_password w) c" using ok c(1) by (auto simp: world_ok_def clients_wf_def)
  show ?thesis
  proof (cases "m_params msg = [] \<or> \<not> isValidNickname nick0 \<or> isNickInUse L nick f w \<or> nick_reserved L nick w")
    case True
    then show ?thesis
      using ok by (auto simp: cmdNick_def Let_def nick_reserved_def stays_core simp flip: nick0_def nick_def)
  next
    case False
    then have v: "isValidNickname nick" "length nick \<le> MAX_NICKLEN"
      using isValidNickname_take [of nick0 MAX_NICKLEN] by (auto simp: nick_def MAX_NICKLEN_def)
    have free: "nick_free L f nick w" using nick_free_not_in_use [OF L] False by blast
    have set: "world_ok L (upd_client f g w)"
      if "\<And>c. client.truncate (g c) = h (client.truncate c)" "h c = c\<lparr>cl_nickname := nick, cl_nickSet := True\<rparr>" for g h
    proof -
      have "client_ok L (w_password w) (h c)" using cok v that(2) by (simp add: client_ok_def)
      then show ?thesis
        using free False that by (intro world_ok_upd_client [OF ok c(1), where h = h]) simp_all
    qed
    show ?thesis
    proof (cases "cl_registered (cl w f)")
      case True
      let ?m = "'':'' @ getPrefix (cl w f) @ '' NICK :'' @ nick"
      let ?w2 = "broadcastToChannels L f ?m (queueMessage L f ?m w)"
      have c2: "core ?w2 = core w" by simp
      have reg: "cl_nickSet c"
        using cok True by (auto simp: client_ok_def truncate_fields eq [symmetric])
      have "core (upd_client f g ?w2) = core (upd_client f g w)"
        if "\<And>c. client.truncate (g c) = h (client.truncate c)" for g h
        using core_eqD [OF c2] by (simp add: core_def skel_upd_client [of g h, OF that])
      then have ce: "core (upd_client f (\<lambda>c. c\<lparr>cl_nickname := nick\<rparr>) ?w2) =
          core (upd_client f (\<lambda>c. c\<lparr>cl_nickname := nick\<rparr>) w)"
        using truncate_upds(3) by blast
      have "world_ok L (upd_client f (\<lambda>c. c\<lparr>cl_nickname := nick\<rparr>) w)"
        by (rule set [where h = "\<lambda>c. c\<lparr>cl_nickname := nick\<rparr>"]) (use reg in simp_all)
      then have "stays L f w (upd_client f (\<lambda>c. c\<lparr>cl_nickname := nick\<rparr>) ?w2)"
        using stays_after [OF stays_upd_client ce] by blast
      then show ?thesis
        using False True
        by (simp add: cmdNick_def Let_def nick_reserved_def flip: nick0_def nick_def)
    next
      case unreg: False
      let ?w2 = "upd_client f (\<lambda>c. c\<lparr>cl_nickname := nick, cl_nickSet := True\<rparr>) w"
      have ok2: "world_ok L ?w2"
        by (rule set [where h = "\<lambda>c. c\<lparr>cl_nickname := nick, cl_nickSet := True\<rparr>"]) simp_all
      have "f \<in> live ?w2" "cl_nickSet (cl ?w2 f)"
        using f live_dom [OF f] by (auto simp: live_cl cl_upd_client) (simp_all add: upd_client_def map_simps)
      then have "cl_userSet (cl ?w2 f) \<Longrightarrow> stays L f w (completeRegistration L f ?w2)"
        using completeRegistration_ok [OF ok2] stays_trans [OF stays_upd_client [OF ok2]] by blast
      then show ?thesis
        using False unreg stays_upd_client [OF ok2]
        by (simp add: cmdNick_def Let_def nick_reserved_def upd_client_comp flip: nick0_def nick_def)
    qed
  qed
qed

text \<open>The four updates of \<open>USER\<close> are one update of the client.\<close>

definition mode_bits :: "'io libcpp \<Rightarrow> string \<Rightarrow> 'a client_scheme \<Rightarrow> 'a client_scheme" where
  "mode_bits L param c =
     (case lc_parse_long L param 0 255 of
        None \<Rightarrow> c
      | Some bits \<Rightarrow> c\<lparr>cl_wallops := cl_wallops c \<or> bits AND 4 \<noteq> 0, cl_invisible := cl_invisible c \<or> bits AND 8 \<noteq> 0\<rparr>)"

lemma applyUserModeBitmask_upd: "applyUserModeBitmask L f p w = upd_client f (mode_bits L p) w"
proof (cases "lc_parse_long L p 0 255")
  case None
  then have "mode_bits L p = (\<lambda>c. c :: 'a conn)" by (auto simp: mode_bits_def)
  then show ?thesis using None by (simp add: applyUserModeBitmask_def upd_client_id)
next
  case (Some bits)
  have wallops: "(if bits AND 4 \<noteq> 0 then upd_client f (\<lambda>c. c\<lparr>cl_wallops := True\<rparr>) w else w) =
      upd_client f (\<lambda>c. c\<lparr>cl_wallops := cl_wallops c \<or> bits AND 4 \<noteq> 0\<rparr>) w"
    by (simp add: upd_client_id)
  have invisible: "(if bits AND 8 \<noteq> 0 then upd_client f (\<lambda>c. c\<lparr>cl_invisible := True\<rparr>) v else v) =
      upd_client f (\<lambda>c. c\<lparr>cl_invisible := cl_invisible c \<or> bits AND 8 \<noteq> 0\<rparr>) v" for v :: "'a world"
    by (simp add: upd_client_id)
  have "mode_bits L p = (\<lambda>c :: 'a conn. c\<lparr>cl_wallops := cl_wallops c \<or> bits AND 4 \<noteq> 0,
      cl_invisible := cl_invisible c \<or> bits AND 8 \<noteq> 0\<rparr>)"
    by (simp add: mode_bits_def Some fun_eq_iff)
  then show ?thesis
    by (simp only: applyUserModeBitmask_def Some option.case Let_def wallops invisible upd_client_comp) simp
qed

lemma mode_bits_fields [simp]:
  "cl_fd (mode_bits L p c) = cl_fd c" "cl_nickname (mode_bits L p c) = cl_nickname c"
  "cl_username (mode_bits L p c) = cl_username c" "cl_hostname (mode_bits L p c) = cl_hostname c"
  "cl_password (mode_bits L p c) = cl_password c" "cl_registered (mode_bits L p c) = cl_registered c"
  "cl_passSent (mode_bits L p c) = cl_passSent c" "cl_nickSet (mode_bits L p c) = cl_nickSet c"
  "cl_userSet (mode_bits L p c) = cl_userSet c" "cl_pendingClose (mode_bits L p c) = cl_pendingClose c"
  "cl_tearingDown (mode_bits L p c) = cl_tearingDown c" "cl_realname (mode_bits L p c) = cl_realname c"
  by (simp_all add: mode_bits_def split: option.split)

lemma truncate_mode_bits [simp]: "client.truncate (mode_bits L p c) = mode_bits L p (client.truncate c)"
  by (simp add: mode_bits_def client.truncate_def split: option.split)

definition user_update :: "'io libcpp \<Rightarrow> string \<Rightarrow> string \<Rightarrow> string \<Rightarrow> 'a client_scheme \<Rightarrow> 'a client_scheme" where
  "user_update L username p realname c =
     (mode_bits L p (c\<lparr>cl_username := username\<rparr>))\<lparr>cl_realname := realname, cl_userSet := True\<rparr>"

lemma cmdUser_upd:
  assumes "\<not> cl_registered (cl w f)" and "4 \<le> length (m_params msg)" and "matched msg \<or> m_trailingIndex msg = 3"
  shows "\<exists>username0 realname. cmdUser L f msg w =
    (let username = (if MAX_USERLEN < length username0 then take MAX_USERLEN username0 else username0);
         w1 = upd_client f (user_update L username (m_params msg ! 1) realname) w
     in if \<not> isValidUsername username then sendReply L f ERR_NEEDMOREPARAMS ''USER :Invalid username'' w
        else if cl_nickSet (cl w1 f) then completeRegistration L f w1 else w1)"
proof -
  have n: "\<not> length (m_params msg) < 4" using assms(2) by simp
  have t: "\<not> (if matched msg then False else m_trailingIndex msg \<noteq> 3)" using assms(3) by auto
  show ?thesis
    apply (rule exI [of _ "if matched msg then field msg ''username'' else m_params msg ! 0"],
      rule exI [of _ "if matched msg then field msg ''realname'' else m_params msg ! 3"])
    by (simp only: cmdUser_def if_not_P [OF assms(1)] if_not_P [OF n] if_not_P [OF t]
        Let_def applyUserModeBitmask_upd upd_client_comp user_update_def [abs_def])
qed

lemma client_ok_user_update:
  assumes "client_ok L pw c" and "\<not> cl_registered c" and "isValidUsername u" and "length u \<le> MAX_USERLEN"
  shows "client_ok L pw (user_update L u p r c)"
  using assms by (simp add: client_ok_def user_update_def)

lemma cmdUser_ok:
  assumes ok: "world_ok L w" and f: "f \<in> live w"
  shows "stays L f w (cmdUser L f msg w)"
proof (cases "\<not> cl_registered (cl w f) \<and> 4 \<le> length (m_params msg) \<and> (matched msg \<or> m_trailingIndex msg = 3)")
  case False
  then show ?thesis using ok by (auto simp: cmdUser_def stays_core)
next
  case True
  then obtain username0 realname where eq: "cmdUser L f msg w =
    (let username = (if MAX_USERLEN < length username0 then take MAX_USERLEN username0 else username0);
         w1 = upd_client f (user_update L username (m_params msg ! 1) realname) w
     in if \<not> isValidUsername username then sendReply L f ERR_NEEDMOREPARAMS ''USER :Invalid username'' w
        else if cl_nickSet (cl w1 f) then completeRegistration L f w1 else w1)"
    using cmdUser_upd by blast
  define username where "username = (if MAX_USERLEN < length username0 then take MAX_USERLEN username0 else username0)"
  define g :: "'a conn \<Rightarrow> 'a conn" where "g = user_update L username (m_params msg ! 1) realname"
  have len: "length username \<le> MAX_USERLEN" by (simp add: username_def)
  have run: "cmdUser L f msg w = (if \<not> isValidUsername username
      then sendReply L f ERR_NEEDMOREPARAMS ''USER :Invalid username'' w
      else if cl_nickSet (cl (upd_client f g w) f) then completeRegistration L f (upd_client f g w)
      else upd_client f g w)"
    unfolding eq Let_def username_def [symmetric] g_def [symmetric] ..
  have upd: "world_ok L (upd_client f g w) \<and> live (upd_client f g w) = live w" if v: "isValidUsername username"
  proof -
    have "client_ok L (w_password w) (user_update L username (m_params msg ! 1) realname (client.truncate (cl w f)))"
      if "client_ok L (w_password w) (client.truncate (cl w f))"
      using client_ok_user_update [OF that _ v len] True by (simp add: truncate_fields)
    note same = world_ok_upd_client_same
      [OF ok f, of g "user_update L username (m_params msg ! 1) realname", OF _ _ _ _ _ _ this]
    show ?thesis
      using same by (simp add: g_def user_update_def)
  qed
  have "cl_userSet (cl (upd_client f g w) f)"
    using f live_dom [OF f] by (simp add: cl_upd_client g_def user_update_def)
  then have "isValidUsername username \<Longrightarrow> cl_nickSet (cl (upd_client f g w) f) \<Longrightarrow>
      stays L f w (completeRegistration L f (upd_client f g w))"
    using upd f completeRegistration_ok [of L "upd_client f g w" f] stays_trans [OF stays_upd_client] by blast
  then show ?thesis
    unfolding run using ok upd stays_upd_client [of L f g w] by (simp add: stays_core)
qed

end
