(* ===== verification/Channel_Commands.thy ===== *)
theory Channel_Commands
  imports Registration
begin

text \<open>
  \<open>src/CommandChannel.cpp\<close>: \<open>JOIN\<close> and \<open>PART\<close>.  The body of the loop over the
  channel list of \<open>JOIN\<close> is \<open>join_one\<close>, an iteration that ends in \<open>continue\<close>
  is a branch that returns; what the joining client is told afterwards is \<open>join_burst\<close>.
\<close>

section \<open>JOIN\<close>

text \<open>Topic, member list and modes, sent to a client that has just joined.\<close>

definition topic_burst :: "'io libcpp \<Rightarrow> fd \<Rightarrow> string \<Rightarrow> channel \<Rightarrow> 'io world \<Rightarrow> 'io world" where
  "topic_burst L f name ch w =
     (if ch_topic ch \<noteq> [] then
        let w1 = sendReply L f RPL_TOPIC (name @ '' :'' @ ch_topic ch) w
        in sendReply L f RPL_TOPICWHOTIME
             (name @ '' '' @ ch_topicSetter ch @ '' '' @ lc_to_string L (ch_topicTime ch)) w1
      else sendReply L f RPL_NOTOPIC (name @ '' :No topic is set'') w)"

definition names_budget :: "string \<Rightarrow> string \<Rightarrow> nat" where
  "names_budget nick namesHead =
     (let framing = 1 + length SERVER_NAME + 1 + 3 + 1 + length nick + 1 + length namesHead
      in if framing + 1 < MAX_MSGLEN - 2 then MAX_MSGLEN - 2 - framing else 1)"

definition names_burst :: "'io libcpp \<Rightarrow> fd \<Rightarrow> string \<Rightarrow> channel \<Rightarrow> 'io world \<Rightarrow> 'io world" where
  "names_burst L f name ch w =
     (let namesHead = ''= '' @ name @ '' :'';
          budget = names_budget (nick_of w f) namesHead;
          chunks = getNamesChunks (nick_of w) budget ch;
          w1 = foldl (\<lambda>w chunk. sendReply L f RPL_NAMREPLY (namesHead @ chunk) w) w chunks
      in sendReply L f RPL_ENDOFNAMES (name @ '' :End of /NAMES list'') w1)"

definition modes_burst :: "'io libcpp \<Rightarrow> fd \<Rightarrow> string \<Rightarrow> channel \<Rightarrow> 'io world \<Rightarrow> 'io world" where
  "modes_burst L f name ch w =
     (let modes = getModeString ch;
          modeParams = getModeParams L ch;
          modeReply = name @ '' '' @ modes @ (if modeParams \<noteq> [] then '' '' @ modeParams else []);
          w1 = sendReply L f RPL_CHANNELMODEIS modeReply w
      in sendReply L f RPL_CREATIONTIME (name @ '' '' @ lc_to_string L (ch_creationTime ch)) w1)"

definition join_burst :: "'io libcpp \<Rightarrow> fd \<Rightarrow> string \<Rightarrow> string \<Rightarrow> 'io world \<Rightarrow> 'io world" where
  "join_burst L f name k w =
     (let w1 = broadcastMessage L ('':'' @ getPrefix (cl w f) @ '' JOIN '' @ ch_name (chan w k)) None (chan w k) w;
          w2 = audit ''join'' (nick_of w1 f) name w1;
          w3 = each_ext (ext_onJoin f k) w2;
          w4 = topic_burst L f name (chan w3 k) w3;
          w5 = names_burst L f name (chan w4 k) w4
      in modes_burst L f name (chan w5 k) w5)"

text \<open>Why an existing channel refuses the client, as the numeric and the text of the reply.\<close>

definition join_refusal :: "channel \<Rightarrow> fd \<Rightarrow> string \<Rightarrow> (string \<times> string) option" where
  "join_refusal ch f key =
     (if ch_inviteOnly ch \<and> \<not> isInvited ch f then Some (ERR_INVITEONLYCHAN, '' :Cannot join channel (+i)'')
      else if ch_key ch \<noteq> [] \<and> ch_key ch \<noteq> key then Some (ERR_BADCHANNELKEY, '' :Cannot join channel (+k)'')
      else if 0 < ch_userLimit ch \<and> ch_userLimit ch \<le> getMemberCount ch
      then Some (ERR_CHANNELISFULL, '' :Cannot join channel (+l)'')
      else None)"

definition join_one :: "'io libcpp \<Rightarrow> fd \<Rightarrow> string \<Rightarrow> string \<Rightarrow> 'io world \<Rightarrow> 'io world" where
  "join_one L f name key w =
     (if \<not> isValidChannelName name then sendReply L f ERR_BADCHANMASK (name @ '' :Bad Channel Mask'') w
      else case findChannel L name w of
        Some k \<Rightarrow>
          (if isMember (chan w k) f then w
           else case join_refusal (chan w k) f key of
             Some (numeric, why) \<Rightarrow> sendReply L f numeric (name @ why) w
           | None \<Rightarrow>
               let w1 = upd_chan k (addMember f) w;
                   w2 = upd_chan k (removeInvite f) w1
               in join_burst L f name k w2)
      | None \<Rightarrow>
          (case createChannel L name f w of
             (None, w1) \<Rightarrow> sendReply L f ERR_NOSUCHCHANNEL (name @ '' :Cannot create channel (server error)'') w1
           | (Some k, w1) \<Rightarrow> join_burst L f name k w1))"

section \<open>PART\<close>

definition part_one :: "'io libcpp \<Rightarrow> fd \<Rightarrow> string \<Rightarrow> string \<Rightarrow> 'io world \<Rightarrow> 'io world" where
  "part_one L f reason chanName w =
     (case findChannel L chanName w of
        None \<Rightarrow> sendReply L f ERR_NOSUCHCHANNEL (chanName @ '' :No such channel'') w
      | Some k \<Rightarrow>
          if \<not> isMember (chan w k) f
          then sendReply L f ERR_NOTONCHANNEL (chanName @ '' :You're not on that channel'') w
          else
            let partMsg = '':'' @ getPrefix (cl w f) @ '' PART '' @ ch_name (chan w k) @
                          (if reason \<noteq> [] then '' :'' @ reason else []);
                w1 = broadcastMessage L partMsg None (chan w k) w;
                w2 = audit ''part'' (nick_of w1 f) chanName w1;
                w3 = each_ext (ext_onPart f k) w2;
                w4 = upd_chan k (removeMember f) w3
            in if isEmpty (chan w4 k) then removeChannel L chanName w4 else w4)"

definition cmdPart :: "'io libcpp \<Rightarrow> fd \<Rightarrow> message \<Rightarrow> 'io world \<Rightarrow> 'io world" where
  "cmdPart L f msg w =
     (if \<not> matched msg then sendReply L f ERR_NEEDMOREPARAMS ''PART :Not enough parameters'' w
      else foldl (\<lambda>w chanName. part_one L f (field msg ''partmsg'') chanName w) w
             (m_list L msg ''chanlist'' (CHR '','')))"

definition part_all_one :: "'io libcpp \<Rightarrow> fd \<Rightarrow> 'io world \<Rightarrow> string \<Rightarrow> 'io world" where
  "part_all_one L f w name =
     (case findChannel L name w of
        None \<Rightarrow> w
      | Some k \<Rightarrow>
          let partMsg = '':'' @ getPrefix (cl w f) @ '' PART '' @ ch_name (chan w k);
              w1 = broadcastMessage L partMsg None (chan w k) w;
              w2 = audit ''part'' (nick_of w1 f) name w1;
              w3 = each_ext (ext_onPart f k) w2;
              w4 = upd_chan k (removeMember f) w3
          in if isEmpty (chan w4 k) then removeChannel L name w4 else w4)"

definition partAllChannels :: "'io libcpp \<Rightarrow> fd \<Rightarrow> 'io world \<Rightarrow> 'io world" where
  "partAllChannels L f w =
     foldl (part_all_one L f) w (map fst (filter (\<lambda>e. isMember (snd e) f) (w_channels w)))"

text \<open>\<open>keys[i]\<close> where the key list is long enough, the empty key elsewhere.\<close>

definition key_at :: "string list \<Rightarrow> nat \<Rightarrow> string" where
  "key_at keys i = (if i < length keys then keys ! i else [])"

definition cmdJoin :: "'io libcpp \<Rightarrow> fd \<Rightarrow> message \<Rightarrow> 'io world \<Rightarrow> 'io world" where
  "cmdJoin L f msg w =
     (if \<not> matched msg then sendReply L f ERR_NEEDMOREPARAMS ''JOIN :Not enough parameters'' w
      else if \<not> m_has msg ''chanlist'' then partAllChannels L f w
      else
        let channels = m_list L msg ''chanlist'' (CHR '','');
            keys = listKeepEmpty L msg ''keylist'' (CHR '','')
        in foldl (\<lambda>w i. join_one L f (channels ! i) (key_at keys i) w) w [0..<length channels])"

section \<open>The handlers keep the invariant\<close>

lemma core_topic_burst [simp]: "core (topic_burst L f name ch w) = core w"
  by (simp add: topic_burst_def)

lemma core_names_burst [simp]: "core (names_burst L f name ch w) = core w"
  unfolding names_burst_def Let_def by (simp only: core_sendReply) (rule core_foldl, rule core_sendReply)

lemma core_modes_burst [simp]: "core (modes_burst L f name ch w) = core w"
  by (simp add: modes_burst_def Let_def)

lemma core_join_burst [simp]: "core (join_burst L f name k w) = core w"
  unfolding join_burst_def Let_def
  by (simp only: core_modes_burst core_names_burst core_topic_burst each_ext_id core_audit core_broadcastMessage)

lemma addMember_wf:
  assumes "chan_wf L fs k ch" and "f \<in> fs"
  shows "chan_wf L fs k (removeInvite f (addMember f ch))"
  using assms addMember_removeInvite_ok [of ch f]
  by (auto simp: chan_wf_def) (auto simp: addMember_def removeInvite_def)

lemma newChannel_wf:
  assumes "isValidChannelName name" and "f \<in> fs"
  shows "chan_wf L fs (ircToLower L name) (newChannel name f now)"
  using assms newChannel_ok [of name f now]
  by (simp add: chan_wf_def) (simp add: newChannel_def addMember_def setOperator_def os_ins_def MAX_USERLIMIT_def)

lemma removeMember_wf:
  assumes "chan_wf L fs k ch" and "\<not> isEmpty (removeMember f ch)"
  shows "chan_wf L fs k (removeMember f ch)"
  using assms removeMember_ok [of ch f]
  by (auto simp: chan_wf_def) (auto simp: removeMember_def)

lemma upd_chan_comp: "upd_chan k g (upd_chan k h w) = upd_chan k (\<lambda>c. g (h c)) w"
proof -
  have "om_upd k g (om_upd k h m) = om_upd k (\<lambda>c. g (h c)) m" for m
    by (induction m) (auto simp: om_upd_def)
  then show ?thesis by (simp add: upd_chan_def)
qed

lemma createChannel_ok:
  assumes "world_ok L w" and "f \<in> users w" and "isValidChannelName name"
  shows "world_ok L (snd (createChannel L name f w))" "users (snd (createChannel L name f w)) = users w"
    "live (snd (createChannel L name f w)) = live w"
proof -
  let ?w = "snd (read_clock (snd (try_alloc w)))" and ?now = "fst (read_clock (snd (try_alloc w)))"
  have c: "world_ok L ?w" "users ?w = users w" using assms(1) by simp_all
  have "world_ok L (?w\<lparr>w_channels := om_put (ircToLower L name) (newChannel name f ?now) (w_channels ?w)\<rparr>)"
    by (rule world_ok_put_chan [OF c(1)]) (simp add: newChannel_wf assms)
  then show "world_ok L (snd (createChannel L name f w))" "users (snd (createChannel L name f w)) = users w"
    "live (snd (createChannel L name f w)) = live w"
    using assms(1) c(2) by (simp_all add: createChannel_def Let_def case_prod_beta)
qed

lemma join_one_ok:
  assumes ok: "world_ok L w" and f: "f \<in> users w"
  shows "world_ok L (join_one L f name key w)" "users (join_one L f name key w) = users w"
    "live (join_one L f name key w) = live w"
proof -
  have add: "world_ok L (upd_chan k (\<lambda>c. removeInvite f (addMember f c)) w)" for k
    by (rule world_ok_upd_chan [OF ok]) (use f addMember_wf in blast)
  note j = core_world_ok [OF core_join_burst] core_users [OF core_join_burst] core_live [OF core_join_burst]
  show "world_ok L (join_one L f name key w)" "users (join_one L f name key w) = users w"
    "live (join_one L f name key w) = live w"
    using ok add createChannel_ok [OF ok f, of name]
    by (auto simp: join_one_def j upd_chan_comp split: option.splits prod.splits)
qed

text \<open>Leaving a channel, with the removal of the channel when nobody is left.\<close>

lemma leave_ok:
  fixes f :: fd
  assumes ok: "world_ok L w" and k: "map_of (w_channels w) k \<noteq> None" and name: "k = ircToLower L name"
  defines "w' \<equiv> upd_chan k (removeMember f) w"
  shows "world_ok L (if isEmpty (chan w' k) then removeChannel L name w' else w')"
    "users (if isEmpty (chan w' k) then removeChannel L name w' else w') = users w"
    "live (if isEmpty (chan w' k) then removeChannel L name w' else w') = live w"
proof -
  obtain ch where ch: "map_of (w_channels w) k = Some ch" using k by blast
  have wf: "chan_wf L (users w) k ch" using chan_wf_look [OF ok ch] .
  have c: "chan w' k = removeMember f ch" using ch by (simp add: w'_def) (simp add: chan_def)
  have om: "om_ok (w_channels w)" using ok by (simp add: world_ok_def chans_wf_def)
  show "users (if isEmpty (chan w' k) then removeChannel L name w' else w') = users w"
    "live (if isEmpty (chan w' k) then removeChannel L name w' else w') = live w"
    by (simp_all add: w'_def)
  show "world_ok L (if isEmpty (chan w' k) then removeChannel L name w' else w')"
  proof (cases "isEmpty (removeMember f ch)")
    case False
    have "world_ok L w'"
      unfolding w'_def by (rule world_ok_upd_chan [OF ok]) (use ch False removeMember_wf in auto)
    then show ?thesis using False c by simp
  next
    case True
    have "removeChannel L name w' = w\<lparr>w_channels := om_del k (w_channels w)\<rparr>"
      by (simp add: removeChannel_def w'_def upd_chan_def name om_upd_del)
    then show ?thesis
      using True c world_ok_removeChannel [OF ok, of name] by (simp add: removeChannel_def name)
  qed
qed

text \<open>
  What a registered client's command may do to the world and what it must leave: the
  invariant, who is connected and who is registered.
\<close>

definition keeps :: "'io libcpp \<Rightarrow> 'io world \<Rightarrow> 'io world \<Rightarrow> bool" where
  "keeps L w w' \<longleftrightarrow> world_ok L w' \<and> users w' = users w \<and> live w' = live w"

lemma keeps_core: "world_ok L w \<Longrightarrow> core w' = core w \<Longrightarrow> keeps L w w'"
  using core_world_ok [of w' w L] core_users [of w' w] core_live [of w' w] by (simp add: keeps_def)

lemma keeps_refl: "world_ok L w \<Longrightarrow> keeps L w w"
  by (simp add: keeps_def)

lemma keeps_foldl:
  assumes "world_ok L w" and "\<And>v x. world_ok L v \<Longrightarrow> users v = users w \<Longrightarrow> live v = live w \<Longrightarrow> x \<in> set xs \<Longrightarrow> keeps L v (step v x)"
  shows "keeps L w (foldl step w xs)"
  by (rule foldl_inv [where P = "keeps L w"]) (use assms in \<open>auto simp: keeps_def\<close>)

text \<open>A handler is a tree of guards; these follow it down to its leaves.\<close>

lemma keeps_if: "(P \<Longrightarrow> keeps L w a) \<Longrightarrow> (\<not> P \<Longrightarrow> keeps L w b) \<Longrightarrow> keeps L w (if P then a else b)"
  by simp

lemma keeps_option:
  "(x = None \<Longrightarrow> keeps L w a) \<Longrightarrow> (\<And>y. x = Some y \<Longrightarrow> keeps L w (g y)) \<Longrightarrow>
   keeps L w (case x of None \<Rightarrow> a | Some y \<Rightarrow> g y)"
  by (cases x) simp_all

lemmas keeps_tree = keeps_if keeps_option

lemma keeps_reply: "world_ok L w \<Longrightarrow> keeps L w (sendReply L f numeric params w)"
  by (simp add: keeps_core)

lemma join_one_keeps: "world_ok L w \<Longrightarrow> f \<in> users w \<Longrightarrow> keeps L w (join_one L f name key w)"
  by (simp add: keeps_def join_one_ok)

lemma leave_keeps:
  assumes ok: "world_ok L w" and c: "core w3 = core w" and k: "findChannel L name w = Some k"
  shows "keeps L w (let w4 = upd_chan k (removeMember f) w3
     in if isEmpty (chan w4 k) then removeChannel L name w4 else w4)"
proof -
  have w3: "world_ok L w3" "users w3 = users w" "live w3 = live w"
    using ok core_world_ok [OF c] core_users [OF c] core_live(1) [OF c] by simp_all
  have "map_of (w_channels w3) k \<noteq> None" using findChannel_Some(2) [OF k] core_eqD(2) [OF c] by simp
  then show ?thesis
    using leave_ok [OF w3(1) _ findChannel_Some(1) [OF k], of f] w3(2,3) by (simp add: keeps_def Let_def)
qed

lemma part_one_keeps:
  assumes "world_ok L w"
  shows "keeps L w (part_one L f reason name w)"
proof (cases "findChannel L name w")
  case None
  then show ?thesis using assms by (simp add: part_one_def keeps_core)
next
  case (Some k)
  show ?thesis
  proof (cases "isMember (chan w k) f")
    case False
    then show ?thesis using assms by (simp add: part_one_def Some keeps_core)
  next
    case True
    then have m: "\<not> \<not> isMember (chan w k) f" by simp
    show ?thesis
      unfolding part_one_def Some option.case Let_def if_not_P [OF m]
      by (rule leave_keeps [OF assms _ Some, unfolded Let_def])
        (simp only: each_ext_id core_audit core_broadcastMessage)
  qed
qed

lemma cmdPart_keeps:
  assumes "world_ok L w"
  shows "keeps L w (cmdPart L f msg w)"
proof (cases "matched msg")
  case True
  have "keeps L w (foldl (\<lambda>w chanName. part_one L f (field msg ''partmsg'') chanName w) w
             (m_list L msg ''chanlist'' (CHR '','')))"
    by (rule keeps_foldl [OF assms]) (rule part_one_keeps)
  then show ?thesis using True by (simp add: cmdPart_def)
qed (use assms in \<open>simp add: cmdPart_def keeps_core\<close>)

lemma part_all_one_keeps:
  assumes "world_ok L w"
  shows "keeps L w (part_all_one L f w name)"
proof (cases "findChannel L name w")
  case None
  then show ?thesis using assms by (simp add: part_all_one_def keeps_refl)
next
  case (Some k)
  show ?thesis
    unfolding part_all_one_def Some option.case Let_def
    by (rule leave_keeps [OF assms _ Some, unfolded Let_def])
      (simp only: each_ext_id core_audit core_broadcastMessage)
qed

lemma cmdJoin_keeps:
  assumes "world_ok L w" and "f \<in> users w"
  shows "keeps L w (cmdJoin L f msg w)"
proof -
  have part: "keeps L w (partAllChannels L f w)"
    unfolding partAllChannels_def by (rule keeps_foldl [OF assms(1)]) (rule part_all_one_keeps)
  have "keeps L w (foldl (\<lambda>w i. join_one L f (chs ! i) (key_at keys i) w) w [0..<n])" for chs keys n
    by (rule keeps_foldl [OF assms(1)]) (rule join_one_keeps, assumption, use assms(2) in simp)
  then show ?thesis
    using part assms(1) by (simp add: cmdJoin_def Let_def keeps_core)
qed

end
