(* ===== verification/Messaging_Commands.thy ===== *)
theory Messaging_Commands
  imports Channel_Commands
begin

text \<open>
  \<open>src/CommandMessaging.cpp\<close> and \<open>src/CommandQuery.cpp\<close>: messages to channels and
  users, \<open>PING\<close>, \<open>PONG\<close>, \<open>QUIT\<close>, and the three queries.  Except for \<open>QUIT\<close>
  and the activity time of \<open>PONG\<close> these only send.
\<close>

section \<open>PRIVMSG and NOTICE\<close>

text \<open>\<open>target[0] == '#'\<close>; \<open>operator[]\<close> at the end of a string is the NUL character.\<close>

definition is_channel_target :: "string \<Rightarrow> bool" where
  "is_channel_target target \<longleftrightarrow> (case target of [] \<Rightarrow> False | c # _ \<Rightarrow> c = CHR ''#'')"

definition privmsg_one :: "'io libcpp \<Rightarrow> fd \<Rightarrow> string \<Rightarrow> 'io world \<Rightarrow> string \<Rightarrow> 'io world" where
  "privmsg_one L f text w target =
     (if is_channel_target target then
        (case findChannel L target w of
           None \<Rightarrow> sendReply L f ERR_NOSUCHCHANNEL (target @ '' :No such channel'') w
         | Some k \<Rightarrow>
             if \<not> isMember (chan w k) f
             then sendReply L f ERR_CANNOTSENDTOCHAN (target @ '' :Cannot send to channel'') w
             else broadcastMessage L ('':'' @ getPrefix (cl w f) @ '' PRIVMSG '' @ target @ '' :'' @ text)
                    (Some f) (chan w k) w)
      else
        let (handled, w1) = first_ext (ext_onPrivmsg L f target text) w
        in if handled then w1
           else (case findClientByNick L target w1 of
              None \<Rightarrow> sendReply L f ERR_NOSUCHNICK (target @ '' :No such nick/channel'') w1
            | Some dest \<Rightarrow>
                queueMessage L dest ('':'' @ getPrefix (cl w1 f) @ '' PRIVMSG '' @ target @ '' :'' @ text) w1))"

definition msg_targets :: "'io libcpp \<Rightarrow> message \<Rightarrow> string list" where
  "msg_targets L msg =
     (if matched msg then m_list L msg ''msgtarget'' (CHR '','')
      else lc_split_nonempty L (m_params msg ! 0) (CHR '',''))"

definition msg_text :: "message \<Rightarrow> string" where
  "msg_text msg = (if matched msg then field msg ''msgtext'' else m_params msg ! 1)"

definition cmdPrivmsg :: "'io libcpp \<Rightarrow> fd \<Rightarrow> message \<Rightarrow> 'io world \<Rightarrow> 'io world" where
  "cmdPrivmsg L f msg w =
     (if m_params msg = [] \<or> m_params msg ! 0 = [] then
        sendReply L f ERR_NORECIPIENT '':No recipient given (PRIVMSG)'' w
      else if length (m_params msg) < 2 \<or> m_params msg ! 1 = [] then
        sendReply L f ERR_NOTEXTTOSEND '':No text to send'' w
      else foldl (privmsg_one L f (msg_text msg)) w (msg_targets L msg))"

definition notice_one :: "'io libcpp \<Rightarrow> fd \<Rightarrow> string \<Rightarrow> 'io world \<Rightarrow> string \<Rightarrow> 'io world" where
  "notice_one L f text w target =
     (if is_channel_target target then
        (case findChannel L target w of
           None \<Rightarrow> w
         | Some k \<Rightarrow>
             if \<not> isMember (chan w k) f then w
             else broadcastMessage L ('':'' @ getPrefix (cl w f) @ '' NOTICE '' @ target @ '' :'' @ text)
                    (Some f) (chan w k) w)
      else (case findClientByNick L target w of
         None \<Rightarrow> w
       | Some dest \<Rightarrow>
           queueMessage L dest ('':'' @ getPrefix (cl w f) @ '' NOTICE '' @ target @ '' :'' @ text) w))"

definition cmdNotice :: "'io libcpp \<Rightarrow> fd \<Rightarrow> message \<Rightarrow> 'io world \<Rightarrow> 'io world" where
  "cmdNotice L f msg w =
     (if length (m_params msg) < 2 \<or> m_params msg ! 0 = [] \<or> m_params msg ! 1 = [] then w
      else foldl (notice_one L f (msg_text msg)) w (msg_targets L msg))"

section \<open>PING, PONG and QUIT\<close>

definition cmdPing :: "'io libcpp \<Rightarrow> fd \<Rightarrow> message \<Rightarrow> 'io world \<Rightarrow> 'io world" where
  "cmdPing L f msg w =
     (if m_params msg = [] then sendReply L f ERR_NEEDMOREPARAMS ''PING :Not enough parameters'' w
      else queueMessage L f ('':'' @ SERVER_NAME @ '' PONG '' @ SERVER_NAME @ '' :'' @ m_params msg ! 0) w)"

definition cmdPong :: "'io libcpp \<Rightarrow> fd \<Rightarrow> message \<Rightarrow> 'io world \<Rightarrow> 'io world" where
  "cmdPong L f msg w =
     (let (now, w1) = read_clock w;
          w2 = upd_client f (updateLastActivity now) w1
      in upd_client f (\<lambda>c. c\<lparr>cl_pingSent := False\<rparr>) w2)"

definition cmdQuit :: "'io libcpp \<Rightarrow> fd \<Rightarrow> message \<Rightarrow> 'io world \<Rightarrow> 'io world" where
  "cmdQuit L f msg w =
     (let reason = (if matched msg then field msg ''quitmsg''
                    else if m_params msg \<noteq> [] then m_params msg ! 0 else ''Quit'')
      in disconnectClient L (cl_fd (cl w f)) reason w)"

section \<open>WHO, WHOIS and USERHOST\<close>

definition who_member :: "'io libcpp \<Rightarrow> fd \<Rightarrow> string \<Rightarrow> channel \<Rightarrow> 'io world \<Rightarrow> fd \<Rightarrow> 'io world" where
  "who_member L f target ch w m =
     (let flags = ''H'' @ (if isOperator ch m then ''@'' else [])
      in sendReply L f RPL_WHOREPLY
           (target @ '' '' @ cl_username (cl w m) @ '' '' @ cl_hostname (cl w m) @ '' '' @ SERVER_NAME @ '' '' @
            nick_of w m @ '' '' @ flags @ '' :0 '' @ cl_realname (cl w m)) w)"

definition cmdWho :: "'io libcpp \<Rightarrow> fd \<Rightarrow> message \<Rightarrow> 'io world \<Rightarrow> 'io world" where
  "cmdWho L f msg w =
     (if m_params msg = [] \<or> m_params msg ! 0 = [] then sendReply L f RPL_ENDOFWHO ''* :End of WHO list'' w
      else let target = m_params msg ! 0 in
      if is_channel_target target then
        (case findChannel L target w of
           None \<Rightarrow> sendReply L f RPL_ENDOFWHO (target @ '' :End of WHO list'') w
         | Some k \<Rightarrow>
             let ch = chan w k; w1 = foldl (who_member L f target ch) w (ch_members ch)
             in sendReply L f RPL_ENDOFWHO (target @ '' :End of WHO list'') w1)
      else
        let w1 = (case findClientByNick L target w of
                    None \<Rightarrow> w
                  | Some dest \<Rightarrow>
                      sendReply L f RPL_WHOREPLY
                        (''* '' @ cl_username (cl w dest) @ '' '' @ cl_hostname (cl w dest) @ '' '' @ SERVER_NAME @
                         '' '' @ nick_of w dest @ '' H'' @ '' :0 '' @ cl_realname (cl w dest)) w)
        in sendReply L f RPL_ENDOFWHO (target @ '' :End of WHO list'') w1)"

definition whois_channels :: "(string \<times> channel) list \<Rightarrow> fd \<Rightarrow> string" where
  "whois_channels channels dest =
     foldl (\<lambda>chanList e.
        if isMember (snd e) dest then
          chanList @ (if chanList \<noteq> [] then '' '' else []) @ (if isOperator (snd e) dest then ''@'' else []) @
          ch_name (snd e)
        else chanList) [] channels"

definition cmdWhois :: "'io libcpp \<Rightarrow> fd \<Rightarrow> message \<Rightarrow> 'io world \<Rightarrow> 'io world" where
  "cmdWhois L f msg w =
     (let params = m_params msg; i = (if 1 < length params then 1 else 0) in
      if params = [] \<or> params ! i = [] then sendReply L f ERR_NONICKNAMEGIVEN '':No nickname given'' w
      else let nick = params ! i in
      case findClientByNick L nick w of
        None \<Rightarrow> sendReply L f ERR_NOSUCHNICK (nick @ '' :No such nick/channel'') w
      | Some dest \<Rightarrow>
          let w1 = sendReply L f RPL_WHOISUSER
                     (nick_of w dest @ '' '' @ cl_username (cl w dest) @ '' '' @ cl_hostname (cl w dest) @ '' * :'' @
                      cl_realname (cl w dest)) w;
              w2 = sendReply L f RPL_WHOISSERVER (nick_of w1 dest @ '' '' @ SERVER_NAME @ '' :ft_irc server'') w1;
              chanList = whois_channels (w_channels w2) dest;
              w3 = (if chanList \<noteq> [] then sendReply L f RPL_WHOISCHANNELS (nick_of w2 dest @ '' :'' @ chanList) w2
                    else w2)
          in sendReply L f RPL_ENDOFWHOIS (nick_of w3 dest @ '' :End of WHOIS list'') w3)"

definition userhost_reply :: "'io libcpp \<Rightarrow> string list \<Rightarrow> 'io world \<Rightarrow> string" where
  "userhost_reply L nicks w =
     foldl (\<lambda>reply nick.
        case findClientByNick L nick w of
          None \<Rightarrow> reply
        | Some dest \<Rightarrow>
            reply @ (if reply \<noteq> [] then '' '' else []) @ nick_of w dest @ ''=+'' @ cl_username (cl w dest) @ ''@'' @
            cl_hostname (cl w dest)) [] nicks"

definition cmdUserhost :: "'io libcpp \<Rightarrow> fd \<Rightarrow> message \<Rightarrow> 'io world \<Rightarrow> 'io world" where
  "cmdUserhost L f msg w =
     (if m_params msg = [] then sendReply L f ERR_NEEDMOREPARAMS ''USERHOST :Not enough parameters'' w
      else sendReply L f RPL_USERHOST ('':'' @ userhost_reply L (take 5 (m_params msg)) w) w)"

section \<open>The handlers keep the invariant\<close>

lemma exts_changed_keeps:
  assumes "world_ok L w" and "net w' = net w" and "map ext_kind (w_exts w') = map ext_kind (w_exts w)"
    and "\<forall>e \<in> set (w_exts w'). ext_ok (live w) e"
  shows "keeps L w w'"
proof -
  have "live w' = live w" using net_live(1) [OF assms(2)] .
  then have "exts_wf w'" using assms(4) by (simp add: exts_wf_def)
  then show ?thesis using world_ok_exts [OF assms(1-3)] by (simp add: keeps_def)
qed

text \<open>A loop that asks the extensions in turn.\<close>

lemma first_ext_keeps:
  assumes ok: "world_ok L w"
    and step: "\<And>v i. world_ok L v \<Longrightarrow> users v = users w \<Longrightarrow> live v = live w \<Longrightarrow> length (w_exts v) = length (w_exts w) \<Longrightarrow>
      i < length (w_exts w) \<Longrightarrow>
      keeps L v (snd (step v i)) \<and> net (snd (step v i)) = net v \<and> length (w_exts (snd (step v i))) = length (w_exts v)"
  shows "keeps L w (snd (first_ext step w))" "net (snd (first_ext step w)) = net w"
proof -
  let ?P = "\<lambda>st :: bool \<times> 'a world. world_ok L (snd st) \<and> users (snd st) = users w \<and> net (snd st) = net w \<and>
      length (w_exts (snd st)) = length (w_exts w)"
  have "?P (first_ext step w)"
    unfolding first_ext_def
  proof (rule foldl_inv [where P = ?P])
    fix st i assume P: "?P st" and i: "i \<in> set [0..<length (w_exts w)]"
    obtain h v where st: "st = (h, v)" by (cases st)
    have "live v = live w" using P st net_live(1) [of v w] by simp
    then show "?P ((\<lambda>(handled, w) i. if handled then (handled, w) else step w i) st i)"
      using P step [of v i] i by (auto simp: st keeps_def)
  qed (use ok in simp)
  then show "keeps L w (snd (first_ext step w))" "net (snd (first_ext step w)) = net w"
    using net_live(1) [of "snd (first_ext step w)" w] by (simp_all add: keeps_def)
qed

lemma first_privmsg_keeps:
  assumes ok: "world_ok L w"
  shows "keeps L w (snd (first_ext (ext_onPrivmsg L f target text) w))"
    "net (snd (first_ext (ext_onPrivmsg L f target text) w)) = net w"
proof -
  have step: "keeps L v (snd (ext_onPrivmsg L f target text v i)) \<and>
      net (snd (ext_onPrivmsg L f target text v i)) = net v \<and>
      length (w_exts (snd (ext_onPrivmsg L f target text v i))) = length (w_exts v)"
    if v: "world_ok L v" and i: "i < length (w_exts v)" for v :: "'a world" and i
  proof -
    have "\<forall>e \<in> set (w_exts v). ext_ok (live v) e" using v by (simp add: world_ok_def exts_wf_def)
    then have "\<forall>e \<in> set (w_exts (snd (ext_onPrivmsg L f target text v i))). ext_ok (live v) e"
      by (rule on_privmsg.one_step [OF TrueI _ refl i])
    then show ?thesis
      using exts_changed_keeps [OF v on_privmsg.frame on_privmsg.kinds] on_privmsg.frame on_privmsg.slots by blast
  qed
  show "keeps L w (snd (first_ext (ext_onPrivmsg L f target text) w))"
    "net (snd (first_ext (ext_onPrivmsg L f target text) w)) = net w"
    using first_ext_keeps [OF ok, of "ext_onPrivmsg L f target text"] step by simp_all
qed

lemma privmsg_one_keeps:
  assumes "world_ok L w"
  shows "keeps L w (privmsg_one L f text w target)"
proof -
  obtain h w1 where e: "first_ext (ext_onPrivmsg L f target text) w = (h, w1)"
    by (cases "first_ext (ext_onPrivmsg L f target text) w")
  have k: "keeps L w w1" using first_privmsg_keeps(1) [OF assms, of f target "text"] e by simp
  have "keeps L w v" if "core v = core w1" for v
    using k core_world_ok [OF that] core_users [OF that] core_live(1) [OF that] by (simp add: keeps_def)
  then show ?thesis
    using assms k by (auto simp: privmsg_one_def e keeps_core split: option.split)
qed

lemma cmdPrivmsg_keeps: "world_ok L w \<Longrightarrow> keeps L w (cmdPrivmsg L f msg w)"
  by (auto simp: cmdPrivmsg_def intro!: keeps_core keeps_foldl privmsg_one_keeps)

lemma core_notice_one [simp]: "core (notice_one L f text w target) = core w"
  by (simp add: notice_one_def split: option.split)

lemma core_cmdNotice [simp]: "core (cmdNotice L f msg w) = core w"
  by (simp add: cmdNotice_def core_foldl)

lemma core_cmdPing [simp]: "core (cmdPing L f msg w) = core w"
  by (simp add: cmdPing_def)

lemma core_who_member [simp]: "core (who_member L f target ch w m) = core w"
  by (simp only: who_member_def Let_def core_sendReply)

lemma core_cmdWho [simp]: "core (cmdWho L f msg w) = core w"
  by (simp add: cmdWho_def Let_def core_foldl split: option.split)

lemma core_cmdWhois [simp]: "core (cmdWhois L f msg w) = core w"
  by (simp add: cmdWhois_def Let_def split: option.split)

lemma core_cmdUserhost [simp]: "core (cmdUserhost L f msg w) = core w"
  by (simp add: cmdUserhost_def)

lemma cmdPong_keeps:
  assumes "world_ok L w" and "f \<in> live w"
  shows "keeps L w (cmdPong L f msg w)"
proof -
  let ?now = "fst (read_clock w)" and ?w = "snd (read_clock w)"
  let ?g = "\<lambda>c. (updateLastActivity ?now c)\<lparr>cl_pingSent := False\<rparr>"
  have w: "world_ok L ?w" "f \<in> live ?w" "users ?w = users w" "live ?w = live w" using assms by simp_all
  have "world_ok L (upd_client f ?g ?w) \<and> users (upd_client f ?g ?w) = users ?w \<and>
      live (upd_client f ?g ?w) = live ?w"
    using world_ok_upd_client_same [OF w(1,2), of ?g ?g]
    by (simp add: updateLastActivity_def)
  then show ?thesis
    using w(3,4) by (simp add: cmdPong_def Let_def case_prod_beta upd_client_comp keeps_def)
qed

lemma cmdQuit_ok: "world_ok L w \<Longrightarrow> f \<in> live w \<Longrightarrow> stays L f w (cmdQuit L f msg w)"
  by (simp add: cmdQuit_def stays_def disconnectClient_ok world_ok_fd)

end
