(* ===== verification/Mode_Lines.thy ===== *)
theory Mode_Lines
  imports Channel_Model
begin

text \<open>
  The helpers of \<open>src/CommandOperator.cpp\<close> that do not touch the server: reporting an
  error once per command, counting the parameters a mode string still needs, and
  \<open>renderModeLines\<close>, which spreads the applied changes over as many \<open>MODE\<close> lines
  as the line limit asks for.
\<close>

definition alreadyReported :: "string list \<Rightarrow> string \<Rightarrow> bool \<times> string list" where
  "alreadyReported seen what = (if list_ex (\<lambda>s. s = what) seen then (True, seen) else (False, seen @ [what]))"

text \<open>\<open>paramsRequiredFrom\<close> on the part of the mode string from the given index.\<close>

fun paramsRequired :: "string \<Rightarrow> bool \<Rightarrow> nat" where
  "paramsRequired [] adding = 0"
| "paramsRequired (c # cs) adding =
     (if c = CHR ''+'' then paramsRequired cs True
      else if c = CHR ''-'' then paramsRequired cs False
      else if c = CHR ''o'' then Suc (paramsRequired cs adding)
      else if (c = CHR ''k'' \<or> c = CHR ''l'') \<and> adding then Suc (paramsRequired cs adding)
      else paramsRequired cs adding)"

definition paramsRequiredFrom :: "string \<Rightarrow> nat \<Rightarrow> bool \<Rightarrow> nat" where
  "paramsRequiredFrom modeStr from sign = paramsRequired (drop from modeStr) sign"

record mode_change =
  mc_adding :: bool
  mc_letter :: char
  mc_param :: string

abbreviation ModeChange :: "bool \<Rightarrow> char \<Rightarrow> string \<Rightarrow> mode_change" where
  "ModeChange add c p \<equiv> \<lparr>mc_adding = add, mc_letter = c, mc_param = p\<rparr>"

section \<open>The lines\<close>

definition sign_char :: "bool \<Rightarrow> char" where
  "sign_char adding = (if adding then CHR ''+'' else CHR ''-'')"

text \<open>
  The inner loop: changes are taken while the line stays within 510 bytes, the first one
  in any case.  It returns the mode letters, the parameters and the changes left.
\<close>

fun mode_line :: "string \<Rightarrow> string \<Rightarrow> string \<Rightarrow> bool \<Rightarrow> bool \<Rightarrow> nat \<Rightarrow> mode_change list \<Rightarrow>
    (string \<times> string) \<times> mode_change list" where
  "mode_line head modes params haveSign sign taken [] = ((modes, params), [])"
| "mode_line head modes params haveSign sign taken (mc # rest) =
     (let nextModes = modes @ (if \<not> haveSign \<or> mc_adding mc \<noteq> sign then [sign_char (mc_adding mc)] else []) @
                      [mc_letter mc];
          nextParams = (if mc_param mc \<noteq> []
                        then (if params \<noteq> [] then params @ '' '' else params) @ mc_param mc else params);
          len = length head + length nextModes + (if nextParams \<noteq> [] then 1 + length nextParams else 0)
      in if 0 < taken \<and> MAX_MSGLEN - 2 < len then ((modes, params), mc # rest)
         else mode_line head nextModes nextParams True (mc_adding mc) (Suc taken) rest)"

lemma mode_line_rest: "length (snd (mode_line head modes params hs sign taken mcs)) \<le> length mcs"
  by (induction mcs arbitrary: modes params hs sign taken) (simp_all add: Let_def le_SucI)

lemma mode_line_progress: "mcs \<noteq> [] \<Longrightarrow> length (snd (mode_line head modes params hs sign 0 mcs)) < length mcs"
  using mode_line_rest by (cases mcs) (auto simp: Let_def less_Suc_eq_le)

function renderModeLines :: "string \<Rightarrow> mode_change list \<Rightarrow> string list" where
  "renderModeLines head applied =
     (if applied = [] then []
      else let line = mode_line head [] [] False True 0 applied;
               modes = fst (fst line);
               params = snd (fst line)
           in (head @ modes @ (if params \<noteq> [] then '' '' @ params else [])) # renderModeLines head (snd line))"
  by pat_completeness auto
termination
  by (relation "measure (\<lambda>(head, applied). length applied)") (simp_all add: mode_line_progress)

declare renderModeLines.simps [simp del]

section \<open>What the lines say\<close>

text \<open>The letters of a group of changes with a sign wherever it changes, and its parameters.\<close>

fun modes_text :: "bool option \<Rightarrow> mode_change list \<Rightarrow> string" where
  "modes_text cur [] = []"
| "modes_text cur (mc # mcs) =
     (if cur = Some (mc_adding mc) then [] else [sign_char (mc_adding mc)]) @ [mc_letter mc] @
     modes_text (Some (mc_adding mc)) mcs"

definition params_text :: "mode_change list \<Rightarrow> string" where
  "params_text mcs = join_words (filter (\<lambda>p. p \<noteq> []) (map mc_param mcs))"

definition group_line :: "string \<Rightarrow> mode_change list \<Rightarrow> string" where
  "group_line head mcs =
     head @ modes_text None mcs @ (if params_text mcs \<noteq> [] then '' '' @ params_text mcs else [])"

text \<open>How a client reads the letters of a \<open>MODE\<close> line.\<close>

fun read_modes :: "bool \<Rightarrow> string \<Rightarrow> (bool \<times> char) list" where
  "read_modes adding [] = []"
| "read_modes adding (c # cs) =
     (if c = CHR ''+'' then read_modes True cs
      else if c = CHR ''-'' then read_modes False cs
      else (adding, c) # read_modes adding cs)"

lemma read_modes_text:
  assumes "\<forall>mc \<in> set mcs. mc_letter mc \<noteq> CHR ''+'' \<and> mc_letter mc \<noteq> CHR ''-''" and "cur = None \<or> cur = Some adding"
  shows "read_modes adding (modes_text cur mcs) = map (\<lambda>mc. (mc_adding mc, mc_letter mc)) mcs"
  using assms by (induction mcs arbitrary: cur adding) (auto simp: sign_char_def)

lemma modes_text_snoc:
  "modes_text cur (mcs @ [mc]) = modes_text cur mcs @
     (if (if mcs = [] then cur else Some (mc_adding (last mcs))) = Some (mc_adding mc) then []
      else [sign_char (mc_adding mc)]) @ [mc_letter mc]"
  by (induction mcs arbitrary: cur) auto

lemma params_text_snoc:
  "params_text (mcs @ [mc]) =
     (if mc_param mc = [] then params_text mcs
      else (if params_text mcs \<noteq> [] then params_text mcs @ '' '' else []) @ mc_param mc)"
proof -
  have "params_text mcs = [] \<longleftrightarrow> filter (\<lambda>p. p \<noteq> []) (map mc_param mcs) = []"
    unfolding params_text_def by (rule join_words_empty) simp
  then show ?thesis
    using join_words_snoc [of "filter (\<lambda>p. p \<noteq> []) (map mc_param mcs)" "mc_param mc"]
    by (auto simp: params_text_def)
qed

text \<open>The inner loop takes a non-empty group and returns its text.\<close>

lemma mode_line_group:
  assumes "modes = modes_text None prev" and "params = params_text prev" and "hs = (prev \<noteq> [])"
    and "prev \<noteq> [] \<Longrightarrow> sign = mc_adding (last prev)" and "taken = length prev"
  shows "\<exists>group rest. mode_line head modes params hs sign taken mcs =
      ((modes_text None (prev @ group), params_text (prev @ group)), rest) \<and> mcs = group @ rest \<and>
      (prev = [] \<and> mcs \<noteq> [] \<longrightarrow> group \<noteq> []) \<and>
      (length (group_line head (prev @ group)) \<le> 510 \<or> group = [] \<or> (prev = [] \<and> length group = 1))"
  using assms
proof (induction mcs arbitrary: prev modes params hs sign taken)
  case Nil
  then show ?case by (intro exI [of _ "[]"]) simp
next
  case (Cons mc mcs)
  let ?nm = "modes_text None (prev @ [mc])" and ?np = "params_text (prev @ [mc])"
  have nm: "modes @ (if \<not> hs \<or> mc_adding mc \<noteq> sign then [sign_char (mc_adding mc)] else []) @ [mc_letter mc] = ?nm"
    using Cons.prems by (auto simp: modes_text_snoc)
  have np: "(if mc_param mc \<noteq> [] then (if params \<noteq> [] then params @ '' '' else params) @ mc_param mc else params) = ?np"
    using Cons.prems(2) by (simp add: params_text_snoc)
  let ?len = "length head + length ?nm + (if ?np \<noteq> [] then 1 + length ?np else 0)"
  have len: "length (group_line head (prev @ [mc])) = ?len" by (simp add: group_line_def)
  have run: "mode_line head modes params hs sign taken (mc # mcs) =
      (if 0 < taken \<and> MAX_MSGLEN - 2 < ?len then ((modes, params), mc # mcs)
       else mode_line head ?nm ?np True (mc_adding mc) (Suc taken) mcs)"
    by (simp only: mode_line.simps Let_def nm np)
  show ?case
  proof (cases "0 < taken \<and> MAX_MSGLEN - 2 < ?len")
    case True
    then show ?thesis
      unfolding run using Cons.prems by (intro exI [of _ "[]"] exI [of _ "mc # mcs"]) simp
  next
    case False
    obtain group rest where IH: "mode_line head ?nm ?np True (mc_adding mc) (Suc taken) mcs =
        ((modes_text None ((prev @ [mc]) @ group), params_text ((prev @ [mc]) @ group)), rest)"
      "mcs = group @ rest"
      "length (group_line head ((prev @ [mc]) @ group)) \<le> 510 \<or> group = []"
      using Cons.IH [of ?nm "prev @ [mc]" ?np True "mc_adding mc" "Suc taken"] Cons.prems(5) by auto
    have fits: "length (group_line head (prev @ [mc])) \<le> 510 \<or> prev = []"
      using False len Cons.prems(5) by (auto simp: limit_defs)
    show ?thesis
      unfolding run
      by (rule exI [of _ "mc # group"], rule exI [of _ rest]) (use False IH fits in auto)
  qed
qed

text \<open>
  The changes are cut into consecutive groups, one line each; a line over 510 bytes holds
  one change only.
\<close>

theorem renderModeLines_groups:
  "\<exists>groups. renderModeLines head applied = map (group_line head) groups \<and> concat groups = applied \<and>
     [] \<notin> set groups \<and> (\<forall>g \<in> set groups. length (group_line head g) \<le> 510 \<or> length g = 1)"
proof (induction applied rule: length_induct)
  case (1 applied)
  show ?case
  proof (cases "applied = []")
    case True
    then show ?thesis by (intro exI [of _ "[]"]) (simp add: renderModeLines.simps)
  next
    case False
    have "modes_text None [] = []" "params_text [] = []" by (simp_all add: params_text_def)
    then obtain group rest where g: "mode_line head [] [] False True 0 applied =
        ((modes_text None group, params_text group), rest)" "applied = group @ rest" "group \<noteq> []"
      "length (group_line head group) \<le> 510 \<or> length group = 1"
      using mode_line_group [of "[]" "[]" "[]" False True 0 head applied] False by auto
    then have "length rest < length applied" by simp
    then obtain groups where IH: "renderModeLines head rest = map (group_line head) groups"
      "concat groups = rest" "[] \<notin> set groups"
      "\<forall>g \<in> set groups. length (group_line head g) \<le> 510 \<or> length g = 1"
      using 1 by blast
    have "renderModeLines head applied = map (group_line head) (group # groups)"
      using False g(1) IH(1) by (subst renderModeLines.simps) (simp add: group_line_def)
    then show ?thesis
      using IH g by (intro exI [of _ "group # groups"]) auto
  qed
qed

end
