(* ===== verification/Operator_Commands.thy ===== *)
theory Operator_Commands
  imports Messaging_Commands Mode_Lines
begin

text \<open>
  \<open>src/CommandOperator.cpp\<close>: \<open>KICK\<close>, \<open>INVITE\<close>, \<open>TOPIC\<close> and \<open>MODE\<close>.  The two
  loops over a mode string keep their local variables in a record; one iteration is
  \<open>user_mode_step\<close> or \<open>channel_mode_step\<close>.
\<close>

section \<open>KICK, INVITE, TOPIC\<close>

definition cmdKick :: "'io libcpp \<Rightarrow> fd \<Rightarrow> message \<Rightarrow> 'io world \<Rightarrow> 'io world" where
  "cmdKick L f msg w =
     (if \<not> matched msg then sendReply L f ERR_NEEDMOREPARAMS ''KICK :Not enough parameters'' w
      else
        let chanName = field msg ''kickchans'';
            target = field msg ''kickusers'';
            reason = (if m_has msg ''kickreason'' then field msg ''kickreason'' else nick_of w f) in
      case findChannel L chanName w of
        None \<Rightarrow> sendReply L f ERR_NOSUCHCHANNEL (chanName @ '' :No such channel'') w
      | Some k \<Rightarrow>
          if \<not> isMember (chan w k) f
          then sendReply L f ERR_NOTONCHANNEL (chanName @ '' :You're not on that channel'') w
          else if \<not> isOperator (chan w k) f
          then sendReply L f ERR_CHANOPRIVSNEEDED (chanName @ '' :You're not channel operator'') w
          else (case findMember L (nick_of w) target (chan w k) of
             None \<Rightarrow> sendReply L f ERR_USERNOTINCHANNEL
                       (target @ '' '' @ chanName @ '' :They aren't on that channel'') w
           | Some t \<Rightarrow>
               let kickMsg = '':'' @ getPrefix (cl w f) @ '' KICK '' @ ch_name (chan w k) @ '' '' @ nick_of w t @
                               '' :'' @ reason;
                   w1 = broadcastMessage L kickMsg None (chan w k) w;
                   w2 = upd_chan k (removeMember t) w1
               in if isEmpty (chan w2 k) then removeChannel L chanName w2 else w2))"

definition cmdInvite :: "'io libcpp \<Rightarrow> fd \<Rightarrow> message \<Rightarrow> 'io world \<Rightarrow> 'io world" where
  "cmdInvite L f msg w =
     (if \<not> matched msg then sendReply L f ERR_NEEDMOREPARAMS ''INVITE :Not enough parameters'' w
      else
        let target = field msg ''invnick''; chanName = field msg ''invchan'' in
      case findChannel L chanName w of
        None \<Rightarrow> sendReply L f ERR_NOSUCHCHANNEL (chanName @ '' :No such channel'') w
      | Some k \<Rightarrow>
          if \<not> isMember (chan w k) f
          then sendReply L f ERR_NOTONCHANNEL (chanName @ '' :You're not on that channel'') w
          else if ch_inviteOnly (chan w k) \<and> \<not> isOperator (chan w k) f
          then sendReply L f ERR_CHANOPRIVSNEEDED (chanName @ '' :You're not channel operator'') w
          else (case findClientByNick L target w of
             None \<Rightarrow> sendReply L f ERR_NOSUCHNICK (target @ '' :No such nick/channel'') w
           | Some t \<Rightarrow>
               if isMember (chan w k) t
               then sendReply L f ERR_USERONCHANNEL (target @ '' '' @ chanName @ '' :is already on channel'') w
               else
                 let w1 = upd_chan k (addInvite t) w;
                     w2 = sendReply L f RPL_INVITING (target @ '' '' @ chanName) w1
                 in queueMessage L t ('':'' @ getPrefix (cl w2 f) @ '' INVITE '' @ target @ '' :'' @ chanName) w2))"

definition cmdTopic :: "'io libcpp \<Rightarrow> fd \<Rightarrow> message \<Rightarrow> 'io world \<Rightarrow> 'io world" where
  "cmdTopic L f msg w =
     (if m_params msg = [] \<or> m_params msg ! 0 = [] then
        sendReply L f ERR_NEEDMOREPARAMS ''TOPIC :Not enough parameters'' w
      else let chanName = m_params msg ! 0 in
      case findChannel L chanName w of
        None \<Rightarrow> sendReply L f ERR_NOSUCHCHANNEL (chanName @ '' :No such channel'') w
      | Some k \<Rightarrow>
          if \<not> isMember (chan w k) f
          then sendReply L f ERR_NOTONCHANNEL (chanName @ '' :You're not on that channel'') w
          else if length (m_params msg) = 1 then topic_burst L f chanName (chan w k) w
          else if ch_topicRestricted (chan w k) \<and> \<not> isOperator (chan w k) f
          then sendReply L f ERR_CHANOPRIVSNEEDED (chanName @ '' :You're not channel operator'') w
          else
            let newTopic0 = (if matched msg then field msg ''topictext'' else m_params msg ! 1);
                newTopic = (if MAX_TOPICLEN < length newTopic0 then take MAX_TOPICLEN newTopic0 else newTopic0);
                (now, w1) = read_clock w;
                w2 = upd_chan k (setTopic newTopic (nick_of w1 f) now) w1
            in broadcastMessage L
                 ('':'' @ getPrefix (cl w2 f) @ '' TOPIC '' @ ch_name (chan w2 k) @ '' :'' @ newTopic)
                 None (chan w2 k) w2)"

section \<open>User modes\<close>

record 'io mode_state =
  ms_adding :: bool
  ms_paramIdx :: nat
  ms_applied :: "mode_change list"
  ms_reported :: "string list"
  ms_world :: "'io world"

definition mode_start :: "'io world \<Rightarrow> 'io mode_state" where
  "mode_start w = \<lparr>ms_adding = True, ms_paramIdx = 2, ms_applied = [], ms_reported = [], ms_world = w\<rparr>"

definition sendReplyOnce ::
  "'io libcpp \<Rightarrow> fd \<Rightarrow> string \<Rightarrow> string \<Rightarrow> string \<Rightarrow> 'io mode_state \<Rightarrow> 'io mode_state" where
  "sendReplyOnce L f what numeric params st =
     (let (already, reported) = alreadyReported (ms_reported st) what;
          st1 = st\<lparr>ms_reported := reported\<rparr>
      in if already then st1 else st1\<lparr>ms_world := sendReply L f numeric params (ms_world st1)\<rparr>)"

definition apply_change :: "mode_change \<Rightarrow> 'io world \<Rightarrow> 'io mode_state \<Rightarrow> 'io mode_state" where
  "apply_change mc w st = st\<lparr>ms_applied := ms_applied st @ [mc], ms_world := w\<rparr>"

definition user_mode_step :: "'io libcpp \<Rightarrow> fd \<Rightarrow> 'io mode_state \<Rightarrow> char \<Rightarrow> 'io mode_state" where
  "user_mode_step L f st c =
     (let adding = ms_adding st; w = ms_world st in
      if c = CHR ''+'' then st\<lparr>ms_adding := True\<rparr>
      else if c = CHR ''-'' then st\<lparr>ms_adding := False\<rparr>
      else if c = CHR ''i'' then
        apply_change (ModeChange adding (CHR ''i'') []) (upd_client f (\<lambda>x. x\<lparr>cl_invisible := adding\<rparr>) w) st
      else if c = CHR ''w'' then
        apply_change (ModeChange adding (CHR ''w'') []) (upd_client f (\<lambda>x. x\<lparr>cl_wallops := adding\<rparr>) w) st
      else sendReplyOnce L f (''501:'' @ [c]) ERR_UMODEUNKNOWNFLAG ([c] @ '' :is unknown mode char to me'') st)"

definition bad_mode_start :: "string \<Rightarrow> bool" where
  "bad_mode_start modeStr \<longleftrightarrow> modeStr = [] \<or> (hd modeStr \<noteq> CHR ''+'' \<and> hd modeStr \<noteq> CHR ''-'')"

definition handleUserMode :: "'io libcpp \<Rightarrow> fd \<Rightarrow> message \<Rightarrow> 'io world \<Rightarrow> 'io world" where
  "handleUserMode L f msg w =
     (let target = m_params msg ! 0 in
      if \<not> ircEquals L target (nick_of w f) then
        sendReply L f ERR_USERSDONTMATCH '':Can't change mode for other users'' w
      else if length (m_params msg) = 1 then sendReply L f RPL_UMODEIS (getUserModeString (cl w f)) w
      else let modeStr = m_params msg ! 1 in
      if bad_mode_start modeStr then w
      else
        let st = foldl (user_mode_step L f) (mode_start w) modeStr; w1 = ms_world st in
        if ms_applied st = [] then w1
        else foldl (\<lambda>w line. queueMessage L f line w) w1
               (renderModeLines ('':'' @ getPrefix (cl w1 f) @ '' MODE '' @ nick_of w1 f @ '' '') (ms_applied st)))"

section \<open>Channel modes\<close>

definition broadcastModeChanges ::
  "'io libcpp \<Rightarrow> string \<Rightarrow> string \<Rightarrow> mode_change list \<Rightarrow> 'io world \<Rightarrow> 'io world" where
  "broadcastModeChanges L k prefix applied w =
     (let head = '':'' @ prefix @ '' MODE '' @ ch_name (chan w k) @ '' ''
      in foldl (\<lambda>w line. broadcastMessage L line None (chan w k) w) w (renderModeLines head applied))"

text \<open>Taking the next parameter, or reporting that there is none.\<close>

definition with_param ::
  "'io libcpp \<Rightarrow> fd \<Rightarrow> string list \<Rightarrow> 'io mode_state \<Rightarrow> (string \<Rightarrow> 'io mode_state \<Rightarrow> 'io mode_state) \<Rightarrow> 'io mode_state"
where
  "with_param L f params st act =
     (if length params \<le> ms_paramIdx st
      then sendReplyOnce L f ''461'' ERR_NEEDMOREPARAMS ''MODE :Not enough parameters'' st
      else act (params ! ms_paramIdx st) (st\<lparr>ms_paramIdx := Suc (ms_paramIdx st)\<rparr>))"

definition mode_key_set :: "'io libcpp \<Rightarrow> fd \<Rightarrow> string \<Rightarrow> string \<Rightarrow> 'io mode_state \<Rightarrow> 'io mode_state" where
  "mode_key_set L f k key st =
     (let w = ms_world st in
      if \<not> isValidChannelKey key
      then sendReplyOnce L f (''525:'' @ key) ERR_INVALIDKEY (ch_name (chan w k) @ '' :Key is not well-formed'') st
      else apply_change (ModeChange True (CHR ''k'') key) (upd_chan k (\<lambda>c. c\<lparr>ch_key := key\<rparr>) w) st)"

definition mode_key_unset :: "string \<Rightarrow> string list \<Rightarrow> nat \<Rightarrow> 'io mode_state \<Rightarrow> 'io mode_state" where
  "mode_key_unset k params stillNeeded st =
     (let w1 = upd_chan k removeKey (ms_world st); idx = ms_paramIdx st;
          consume = (idx < length params \<and> stillNeeded < length params - idx);
          oldKey = (if consume then params ! idx else []);
          st1 = (if consume then st\<lparr>ms_paramIdx := Suc idx\<rparr> else st)
      in apply_change (ModeChange False (CHR ''k'') oldKey) w1 st1)"

definition mode_operator :: "'io libcpp \<Rightarrow> fd \<Rightarrow> string \<Rightarrow> string \<Rightarrow> 'io mode_state \<Rightarrow> 'io mode_state" where
  "mode_operator L f k nick st =
     (let w = ms_world st; adding = ms_adding st in
      case findMember L (nick_of w) nick (chan w k) of
        None \<Rightarrow> sendReplyOnce L f (''441:'' @ ircToLower L nick) ERR_USERNOTINCHANNEL
                  (nick @ '' '' @ ch_name (chan w k) @ '' :They aren't on that channel'') st
      | Some t \<Rightarrow> apply_change (ModeChange adding (CHR ''o'') (nick_of w t)) (upd_chan k (setOperator t adding) w) st)"

definition mode_limit_set :: "'io libcpp \<Rightarrow> fd \<Rightarrow> string \<Rightarrow> string \<Rightarrow> 'io mode_state \<Rightarrow> 'io mode_state" where
  "mode_limit_set L f k limitStr st =
     (let w = ms_world st in
      case lc_parse_long L limitStr 1 MAX_USERLIMIT of
        None \<Rightarrow> sendReplyOnce L f (''696:'' @ limitStr) ERR_INVALIDMODEPARAM
                  (ch_name (chan w k) @ '' l '' @ limitStr @ '' :Invalid channel limit'') st
      | Some limit \<Rightarrow>
          apply_change (ModeChange True (CHR ''l'') (lc_to_string L limit))
            (upd_chan k (\<lambda>c. c\<lparr>ch_userLimit := nat limit\<rparr>) w) st)"

text \<open>One iteration at index \<open>i\<close> of the mode string.\<close>

definition channel_mode_step ::
  "'io libcpp \<Rightarrow> fd \<Rightarrow> string \<Rightarrow> string list \<Rightarrow> string \<Rightarrow> 'io mode_state \<Rightarrow> nat \<Rightarrow> 'io mode_state" where
  "channel_mode_step L f k params modeStr st i =
     (let c = modeStr ! i; adding = ms_adding st; w = ms_world st in
      if c = CHR ''+'' then st\<lparr>ms_adding := True\<rparr>
      else if c = CHR ''-'' then st\<lparr>ms_adding := False\<rparr>
      else if c = CHR ''i'' then
        apply_change (ModeChange adding (CHR ''i'') []) (upd_chan k (\<lambda>x. x\<lparr>ch_inviteOnly := adding\<rparr>) w) st
      else if c = CHR ''t'' then
        apply_change (ModeChange adding (CHR ''t'') []) (upd_chan k (\<lambda>x. x\<lparr>ch_topicRestricted := adding\<rparr>) w) st
      else if c = CHR ''k'' then
        (if adding then with_param L f params st (mode_key_set L f k)
         else mode_key_unset k params (paramsRequiredFrom modeStr (i + 1) adding) st)
      else if c = CHR ''o'' then with_param L f params st (mode_operator L f k)
      else if c = CHR ''l'' then
        (if adding then with_param L f params st (mode_limit_set L f k)
         else apply_change (ModeChange False (CHR ''l'') []) (upd_chan k removeUserLimit w) st)
      else sendReplyOnce L f (''472:'' @ [c]) ERR_UNKNOWNMODE ([c] @ '' :is unknown mode char to me'') st)"

definition handleChannelMode :: "'io libcpp \<Rightarrow> fd \<Rightarrow> string \<Rightarrow> message \<Rightarrow> 'io world \<Rightarrow> 'io world" where
  "handleChannelMode L f k msg w =
     (if \<not> isMember (chan w k) f
      then sendReply L f ERR_NOTONCHANNEL (ch_name (chan w k) @ '' :You're not on that channel'') w
      else if \<not> isOperator (chan w k) f
      then sendReply L f ERR_CHANOPRIVSNEEDED (ch_name (chan w k) @ '' :You're not channel operator'') w
      else let modeStr = m_params msg ! 1 in
      if bad_mode_start modeStr then w
      else
        let st = foldl (channel_mode_step L f k (m_params msg) modeStr) (mode_start w) [0..<length modeStr];
            w1 = ms_world st
        in if ms_applied st = [] then w1 else broadcastModeChanges L k (getPrefix (cl w1 f)) (ms_applied st) w1)"

definition cmdMode :: "'io libcpp \<Rightarrow> fd \<Rightarrow> message \<Rightarrow> 'io world \<Rightarrow> 'io world" where
  "cmdMode L f msg w =
     (if m_params msg = [] \<or> m_params msg ! 0 = [] then
        sendReply L f ERR_NEEDMOREPARAMS ''MODE :Not enough parameters'' w
      else let target = m_params msg ! 0 in
      if is_channel_target target then
        (case findChannel L target w of
           None \<Rightarrow> sendReply L f ERR_NOSUCHCHANNEL (target @ '' :No such channel'') w
         | Some k \<Rightarrow>
             if length (m_params msg) = 1 then
               (if \<not> isMember (chan w k) f
                then sendReply L f ERR_NOTONCHANNEL (target @ '' :You're not on that channel'') w
                else modes_burst L f target (chan w k) w)
             else handleChannelMode L f k msg w)
      else handleUserMode L f msg w)"

section \<open>The handlers keep the invariant\<close>

lemma findMember_member: "findMember L nickOf n ch = Some t \<Longrightarrow> isMember ch t"
  by (auto simp: findMember_def isMember_def find_Some_iff)

lemma chan_upd_chan_look: "map_of (w_channels w) k = Some ch \<Longrightarrow> chan w k = ch"
  by (simp add: chan_def)

lemma chan_wf_simple [simp]:
  "chan_wf L fs k (ch\<lparr>ch_inviteOnly := b\<rparr>) = chan_wf L fs k ch"
  "chan_wf L fs k (ch\<lparr>ch_topicRestricted := b\<rparr>) = chan_wf L fs k ch"
  by (simp_all add: chan_wf_def)

lemma chan_wf_changes:
  assumes "chan_wf L fs k ch"
  shows "isValidChannelKey key \<Longrightarrow> chan_wf L fs k (ch\<lparr>ch_key := key\<rparr>)" "chan_wf L fs k (removeKey ch)"
    "int n \<le> MAX_USERLIMIT \<Longrightarrow> chan_wf L fs k (ch\<lparr>ch_userLimit := n\<rparr>)" "chan_wf L fs k (removeUserLimit ch)"
    "isMember ch t \<Longrightarrow> chan_wf L fs k (setOperator t op ch)"
    "length topic \<le> MAX_TOPICLEN \<Longrightarrow> chan_wf L fs k (setTopic topic setter now ch)"
    "t \<in> fs \<Longrightarrow> \<not> isMember ch t \<Longrightarrow> chan_wf L fs k (addInvite t ch)"
proof -
  show "isMember ch t \<Longrightarrow> chan_wf L fs k (setOperator t op ch)"
    using assms setOperator_ok [of ch t op] by (cases op) (auto simp: chan_wf_def setOperator_def)
  show "t \<in> fs \<Longrightarrow> \<not> isMember ch t \<Longrightarrow> chan_wf L fs k (addInvite t ch)"
    using assms addInvite_ok [of ch t] by (auto simp: chan_wf_def) (auto simp: addInvite_def)
  show "length topic \<le> MAX_TOPICLEN \<Longrightarrow> chan_wf L fs k (setTopic topic setter now ch)"
    using assms by (simp add: chan_wf_def) (simp add: setTopic_def)
qed (use assms in \<open>simp_all add: chan_wf_def removeKey_def removeUserLimit_def MAX_USERLIMIT_def\<close>)

lemma upd_chan_keeps:
  assumes "world_ok L w"
    and "\<And>ch. map_of (w_channels w) k = Some ch \<Longrightarrow> chan_wf L (users w) k ch \<Longrightarrow> chan_wf L (users w) k (g ch)"
  shows "keeps L w (upd_chan k g w)"
  using world_ok_upd_chan [OF assms] by (simp add: keeps_def)

lemma keeps_trans: "keeps L w v \<Longrightarrow> core u = core v \<Longrightarrow> keeps L w u"
  using core_world_ok [of u v L] core_users [of u v] core_live [of u v] by (simp add: keeps_def)

lemma keeps_trans_keeps: "keeps L w v \<Longrightarrow> keeps L v u \<Longrightarrow> keeps L w u"
  by (simp add: keeps_def)

lemma cmdKick_keeps:
  assumes ok: "world_ok L w"
  shows "keeps L w (cmdKick L f msg w)"
proof -
  have leave: "keeps L w (let w2 = upd_chan k (removeMember t) (broadcastMessage L m None (chan w k) w)
      in if isEmpty (chan w2 k) then removeChannel L name w2 else w2)"
    if "findChannel L name w = Some k" for k t m name
    by (rule leave_keeps [OF ok _ that]) simp
  show ?thesis
    unfolding cmdKick_def Let_def
    by (rule keeps_reply [OF ok] | (rule leave [unfolded Let_def], assumption) | rule keeps_tree)+
qed

lemma cmdInvite_keeps:
  assumes ok: "world_ok L w"
  shows "keeps L w (cmdInvite L f msg w)"
proof -
  have invite: "keeps L w (queueMessage L t m (sendReply L f n p (upd_chan k (addInvite t) w)))"
    if k: "findChannel L name w = Some k" and t: "findClientByNick L nick w = Some t" "\<not> isMember (chan w k) t"
    for name k nick t m n p
  proof -
    have "t \<in> users w" using findClientByNick_users [OF world_ok_table [OF ok] t(1)] .
    then have "keeps L w (upd_chan k (addInvite t) w)"
      using t(2) chan_wf_changes(7) by (intro upd_chan_keeps [OF ok]) (auto simp: chan_def)
    then show ?thesis by (rule keeps_trans) simp
  qed
  show ?thesis
    unfolding cmdInvite_def Let_def
    by (rule keeps_reply [OF ok] | (rule invite, assumption+) | rule keeps_tree)+
qed

lemma cmdTopic_keeps:
  assumes ok: "world_ok L w"
  shows "keeps L w (cmdTopic L f msg w)"
proof -
  have topic: "keeps L w (broadcastMessage L m None ch (upd_chan k (setTopic t s n) (snd (read_clock w))))"
    if "length t \<le> MAX_TOPICLEN" for m ch k t s n
  proof -
    have "keeps L (snd (read_clock w)) (upd_chan k (setTopic t s n) (snd (read_clock w)))"
      using ok chan_wf_changes(6) that by (intro upd_chan_keeps) auto
    then have "keeps L w (upd_chan k (setTopic t s n) (snd (read_clock w)))" by (simp add: keeps_def)
    then show ?thesis by (rule keeps_trans) simp
  qed
  show ?thesis
    unfolding cmdTopic_def Let_def case_prod_beta
    by (rule keeps_reply [OF ok] | rule keeps_core [OF ok core_topic_burst] | (rule topic, simp) | rule keeps_tree)+
qed

section \<open>The mode loops keep the invariant\<close>

lemma core_sendReplyOnce [simp]: "core (ms_world (sendReplyOnce L f what n p st)) = core (ms_world st)"
  by (simp add: sendReplyOnce_def Let_def case_prod_beta)

lemma apply_change_fields [simp]:
  "ms_world (apply_change mc w st) = w" "ms_applied (apply_change mc w st) = ms_applied st @ [mc]"
  "ms_adding (apply_change mc w st) = ms_adding st" "ms_paramIdx (apply_change mc w st) = ms_paramIdx st"
  by (simp_all add: apply_change_def)

lemma keeps_ok: "keeps L w v \<Longrightarrow> world_ok L v" "keeps L w v \<Longrightarrow> users v = users w"
  by (simp_all add: keeps_def)

lemma upd_mode_keeps:
  assumes "keeps L w v" and "f \<in> users w"
  shows "keeps L w (upd_client f (\<lambda>x. x\<lparr>cl_invisible := b\<rparr>) v)" "keeps L w (upd_client f (\<lambda>x. x\<lparr>cl_wallops := b\<rparr>) v)"
proof -
  have v: "world_ok L v" "f \<in> live v" using assms users_liveD [of f v] by (simp_all add: keeps_def)
  show "keeps L w (upd_client f (\<lambda>x. x\<lparr>cl_invisible := b\<rparr>) v)"
    using world_ok_upd_client_same [OF v, of "\<lambda>x. x\<lparr>cl_invisible := b\<rparr>" "\<lambda>x. x\<lparr>cl_invisible := b\<rparr>"] assms(1)
    by (simp add: keeps_def)
  show "keeps L w (upd_client f (\<lambda>x. x\<lparr>cl_wallops := b\<rparr>) v)"
    using world_ok_upd_client_same [OF v, of "\<lambda>x. x\<lparr>cl_wallops := b\<rparr>" "\<lambda>x. x\<lparr>cl_wallops := b\<rparr>"] assms(1)
    by (simp add: keeps_def)
qed

lemma keeps_once: "keeps L w (ms_world st) \<Longrightarrow> keeps L w (ms_world (sendReplyOnce L f what n p st))"
  by (rule keeps_trans) simp_all

lemma user_mode_step_keeps:
  assumes "keeps L w (ms_world st)" and "f \<in> users w"
  shows "keeps L w (ms_world (user_mode_step L f st c))"
proof -
  have s: "ms_world (st\<lparr>ms_adding := b\<rparr>) = ms_world st" for b by simp
  show ?thesis
    unfolding user_mode_step_def Let_def
    by (simp only: if_distrib [of ms_world] s apply_change_fields)
      (intro keeps_if assms upd_mode_keeps keeps_once)
qed

lemma send_lines_core: "core (foldl (\<lambda>w line. queueMessage L f line w) w lines) = core w"
  by (rule core_foldl) simp

lemma handleUserMode_keeps:
  assumes ok: "world_ok L w" and f: "f \<in> users w"
  shows "keeps L w (handleUserMode L f msg w)"
proof -
  have "keeps L w (ms_world (foldl (user_mode_step L f) (mode_start w) cs))" for cs
    by (rule foldl_inv [where P = "\<lambda>st. keeps L w (ms_world st)"])
      (use ok f in \<open>simp_all add: mode_start_def keeps_refl user_mode_step_keeps\<close>)
  note loop = this keeps_trans [OF this send_lines_core]
  show ?thesis
    unfolding handleUserMode_def Let_def
    by (rule keeps_reply [OF ok] keeps_refl [OF ok] loop | rule keeps_tree)+
qed

lemma mode_chan_keeps:
  assumes "keeps L w v"
    and "\<And>ch. map_of (w_channels v) k = Some ch \<Longrightarrow> chan_wf L (users v) k ch \<Longrightarrow> chan_wf L (users v) k (g ch)"
  shows "keeps L w (upd_chan k g v)"
  by (rule keeps_trans_keeps [OF assms(1) upd_chan_keeps [OF keeps_ok(1) [OF assms(1)]]]) (rule assms(2))

lemma with_param_keeps:
  assumes "keeps L w (ms_world st)"
    and "\<And>p. keeps L w (ms_world (act p (st\<lparr>ms_paramIdx := Suc (ms_paramIdx st)\<rparr>)))"
  shows "keeps L w (ms_world (with_param L f params st act))"
  using assms by (simp add: with_param_def keeps_once)

lemma mode_key_set_keeps:
  "keeps L w (ms_world st) \<Longrightarrow> keeps L w (ms_world (mode_key_set L f k key st))"
  by (auto simp: mode_key_set_def Let_def intro!: keeps_once mode_chan_keeps chan_wf_changes)

lemma mode_key_unset_keeps:
  "keeps L w (ms_world st) \<Longrightarrow> keeps L w (ms_world (mode_key_unset k params n st))"
  by (auto simp: mode_key_unset_def Let_def intro!: mode_chan_keeps chan_wf_changes)

lemma mode_operator_keeps:
  assumes "keeps L w (ms_world st)"
  shows "keeps L w (ms_world (mode_operator L f k nick st))"
proof (cases "findMember L (nick_of (ms_world st)) nick (chan (ms_world st) k)")
  case None
  then show ?thesis using assms by (simp add: mode_operator_def Let_def keeps_once)
next
  case (Some t)
  have "keeps L w (upd_chan k (setOperator t b) (ms_world st))" for b
    using findMember_member [OF Some]
    by (intro mode_chan_keeps [OF assms] chan_wf_changes(5)) (auto simp: chan_def)
  then show ?thesis using Some by (simp add: mode_operator_def Let_def)
qed

lemma mode_limit_set_keeps:
  assumes "parse_law L" and "keeps L w (ms_world st)"
  shows "keeps L w (ms_world (mode_limit_set L f k s st))"
proof (cases "lc_parse_long L s 1 MAX_USERLIMIT")
  case None
  then show ?thesis using assms by (simp add: mode_limit_set_def Let_def keeps_once)
next
  case (Some n)
  then have "int (nat n) \<le> MAX_USERLIMIT" "1 \<le> n" using assms(1) by (auto simp: parse_law_def MAX_USERLIMIT_def)
  then show ?thesis
    using assms(2) Some
    by (auto simp: mode_limit_set_def Let_def intro!: mode_chan_keeps chan_wf_changes)
qed

lemma channel_mode_step_keeps:
  assumes L: "parse_law L" and k: "keeps L w (ms_world st)"
  shows "keeps L w (ms_world (channel_mode_step L f k' params modeStr st i))"
proof -
  have s: "ms_world (st\<lparr>ms_adding := b\<rparr>) = ms_world st" for b by simp
  have p: "keeps L w (ms_world (st\<lparr>ms_paramIdx := n\<rparr>))" for n using k by simp
  have simple: "keeps L w (upd_chan k' (\<lambda>x. x\<lparr>ch_inviteOnly := b\<rparr>) (ms_world st))"
    "keeps L w (upd_chan k' (\<lambda>x. x\<lparr>ch_topicRestricted := b\<rparr>) (ms_world st))"
    "keeps L w (upd_chan k' removeUserLimit (ms_world st))" for b
    using k by (auto intro!: mode_chan_keeps chan_wf_changes)
  have params: "keeps L w (ms_world (with_param L f params st (mode_key_set L f k')))"
    "keeps L w (ms_world (with_param L f params st (mode_operator L f k')))"
    "keeps L w (ms_world (with_param L f params st (mode_limit_set L f k')))"
    by (intro with_param_keeps k mode_key_set_keeps mode_operator_keeps mode_limit_set_keeps L p)+
  show ?thesis
    unfolding channel_mode_step_def Let_def
    by (simp only: if_distrib [of ms_world] s apply_change_fields)
      (intro keeps_if k simple params mode_key_unset_keeps keeps_once)
qed

lemma core_broadcastModeChanges [simp]: "core (broadcastModeChanges L k prefix applied w) = core w"
  unfolding broadcastModeChanges_def Let_def by (rule core_foldl) simp

lemma handleChannelMode_keeps:
  assumes ok: "world_ok L w" and L: "parse_law L"
  shows "keeps L w (handleChannelMode L f k msg w)"
proof -
  have "keeps L w (ms_world (foldl (channel_mode_step L f k params modeStr) (mode_start w) is))" for params modeStr "is"
    by (rule foldl_inv [where P = "\<lambda>st. keeps L w (ms_world st)"])
      (use ok L in \<open>simp_all add: mode_start_def keeps_refl channel_mode_step_keeps\<close>)
  note loop = this keeps_trans [OF this core_broadcastModeChanges]
  show ?thesis
    unfolding handleChannelMode_def Let_def
    by (rule keeps_reply [OF ok] keeps_refl [OF ok] loop | rule keeps_tree)+
qed

lemma cmdMode_keeps:
  assumes "world_ok L w" and "f \<in> users w" and "parse_law L"
  shows "keeps L w (cmdMode L f msg w)"
  unfolding cmdMode_def Let_def
  by (rule keeps_reply [OF assms(1)] keeps_core [OF assms(1) core_modes_burst] handleUserMode_keeps [OF assms(1,2)]
      handleChannelMode_keeps [OF assms(1,3)] | rule keeps_tree)+

end
