(* ===== verification/Dispatch.thy ===== *)
theory Dispatch
  imports Operator_Commands
begin

text \<open>
  From a line to a handler (\<open>src/Server.cpp\<close>): the command table, the choice of the
  command's production, the generic parse, the dispatch.  The matcher behind
  \<open>Abnf::IMatcher\<close> is the function \<open>ps_match\<close>: a rule and a line to the captures, or
  \<open>None\<close> where \<open>match\<close> returns false.
\<close>

record parser =
  ps_grammar :: grammar
  ps_match :: "int \<Rightarrow> string \<Rightarrow> match_result option"
  ps_messageRule :: int
  ps_commandRules :: "(string \<times> int) list"

section \<open>The command table\<close>

definition kCommands ::
  "(string \<times> ('io libcpp \<Rightarrow> fd \<Rightarrow> message \<Rightarrow> 'io world \<Rightarrow> 'io world) \<times> bool) list" where
  "kCommands =
     [(''CAP'', cmdCap, False), (''PASS'', cmdPass, False), (''NICK'', cmdNick, False),
      (''USER'', cmdUser, False), (''QUIT'', cmdQuit, False), (''PONG'', cmdPong, False),
      (''PING'', cmdPing, True), (''JOIN'', cmdJoin, True), (''PART'', cmdPart, True),
      (''PRIVMSG'', cmdPrivmsg, True), (''NOTICE'', cmdNotice, True), (''KICK'', cmdKick, True),
      (''INVITE'', cmdInvite, True), (''TOPIC'', cmdTopic, True), (''MODE'', cmdMode, True),
      (''WHO'', cmdWho, True), (''WHOIS'', cmdWhois, True), (''USERHOST'', cmdUserhost, True)]"

definition findCommand ::
  "string \<Rightarrow> (string \<times> ('io libcpp \<Rightarrow> fd \<Rightarrow> message \<Rightarrow> 'io world \<Rightarrow> 'io world) \<times> bool) option" where
  "findCommand name = List.find (\<lambda>entry. fst entry = name) kCommands"

definition dispatchCommand :: "'io libcpp \<Rightarrow> fd \<Rightarrow> message \<Rightarrow> 'io world \<Rightarrow> 'io world" where
  "dispatchCommand L f msg w =
     (let otherwise =
        (if \<not> cl_registered (cl w f) then sendReply L f ERR_NOTREGISTERED '':You have not registered'' w
         else case findCommand (m_command msg) of
           Some (name, handler, needsRegistration) \<Rightarrow> handler L f msg w
         | None \<Rightarrow>
             (let (handled, w1) = first_ext (ext_onCommand L f msg) w
              in if handled then w1
                 else sendReply L f ERR_UNKNOWNCOMMAND (m_command msg @ '' :Unknown command'') w1))
      in case findCommand (m_command msg) of
           Some (name, handler, needsRegistration) \<Rightarrow>
             if \<not> needsRegistration then handler L f msg w else otherwise
         | None \<Rightarrow> otherwise)"

section \<open>Reading a line\<close>

definition to_upper_char :: "char \<Rightarrow> char" where
  "to_upper_char c = (if CHR ''a'' \<le> c \<and> c \<le> CHR ''z'' then char_of (of_char c - 97 + 65 :: nat) else c)"

definition bindCommandRules :: "grammar \<Rightarrow> (string \<times> int) list" where
  "bindCommandRules g =
     (let suffix = ''-cmd'' in
      foldl (\<lambda>rules i.
         let rule = ruleName g (int i) in
         if length rule \<le> length suffix then rules
         else if drop (length rule - length suffix) rule \<noteq> suffix then rules
         else om_put (map to_upper_char (take (length rule - length suffix) rule)) (int i) rules)
       [] [0..<length (g_ruleNames g)])"

text \<open>\<open>None\<close> when grammar and table agree, otherwise the text of the exception.\<close>

definition verifyCommandTable :: "(string \<times> int) list \<Rightarrow> string list \<Rightarrow> string \<Rightarrow> string option" where
  "verifyCommandTable rules table origin =
     (let missingHandler = filter (\<lambda>name. name \<notin> set table) (map fst rules);
          missingRule = filter (\<lambda>name. map_of rules name = None) table
      in if missingHandler = [] \<and> missingRule = [] then None
         else Some (''grammar from '' @ origin @ '' does not match the command table:'' @
                    concat (map (\<lambda>n. '' '' @ n @ ''-cmd has no handler;'') missingHandler) @
                    concat (map (\<lambda>n. '' '' @ n @ '' has no grammar rule;'') missingRule)))"

definition command_names :: "string list" where
  "command_names = map fst (kCommands :: (string \<times> (unit libcpp \<Rightarrow> fd \<Rightarrow> message \<Rightarrow> unit world \<Rightarrow> unit world) \<times> bool) list)"

definition commandRule :: "parser \<Rightarrow> string \<Rightarrow> int" where
  "commandRule P command =
     (case map_of (ps_commandRules P) command of None \<Rightarrow> kNoRule | Some rule \<Rightarrow> rule)"

definition firstToken :: "string \<Rightarrow> string" where
  "firstToken raw =
     (let s = dropWhile (\<lambda>c. c = CHR '' '') raw
      in case s of
           [] \<Rightarrow> []
         | c # _ \<Rightarrow> if c = CHR '':'' then [] else map to_upper_char (takeWhile (\<lambda>c. c \<noteq> CHR '' '') s))"

definition fillParams :: "parser \<Rightarrow> match_result \<Rightarrow> message \<Rightarrow> message" where
  "fillParams P caps out =
     (let commandSlot = captureIndex (ps_grammar P) ''command'';
          prefixSlot = captureIndex (ps_grammar P) ''prefix''
      in out\<lparr>m_params :=
           map (sequenceAt caps)
             (filter (\<lambda>i. \<not> (sequenceOwner caps i = commandSlot \<or> sequenceOwner caps i = prefixSlot))
                [0..<length (mr_sequence caps)])\<rparr>)"

definition parseLine :: "parser \<Rightarrow> string \<Rightarrow> message option" where
  "parseLine P raw =
     (case ps_match P (ps_messageRule P) raw of
        None \<Rightarrow> None
      | Some result \<Rightarrow>
          let out = fillParams P result (empty_message\<lparr>m_command := map to_upper_char (mr_get result ''command'')\<rparr>)
          in Some (if 0 < mr_count result ''trail''
                   then out\<lparr>m_trailingIndex := int (length (m_params out)) - 1\<rparr> else out))"

text \<open>The production of the command when it matches, the generic parse when it does not.\<close>

definition read_message :: "parser \<Rightarrow> string \<Rightarrow> message option" where
  "read_message P raw =
     (let name = firstToken raw;
          rule = (if name = [] then kNoRule else commandRule P name)
      in case (if rule \<noteq> kNoRule then ps_match P rule raw else None) of
           Some caps \<Rightarrow>
             Some (fillParams P caps (empty_message\<lparr>m_command := name, m_fields := Some caps\<rparr>))
         | None \<Rightarrow> parseLine P raw)"

definition handleMessage :: "'io libcpp \<Rightarrow> parser \<Rightarrow> fd \<Rightarrow> string \<Rightarrow> 'io world \<Rightarrow> 'io world" where
  "handleMessage L P f raw w =
     (let w1 = upd_trace (trace_inbound L (cl_fd (cl w f)) (nick_of w f) raw) w
      in case read_message P raw of
           None \<Rightarrow> w1
         | Some msg \<Rightarrow> if m_command msg = [] then w1 else dispatchCommand L f msg w1)"

section \<open>Every command keeps the invariant\<close>

text \<open>What the invariant rests on beside the code: the laws of the string library.\<close>

definition lib_ok :: "'io libcpp \<Rightarrow> bool" where
  "lib_ok L \<longleftrightarrow> casemap_law L \<and> parse_law L"

lemma findCommand_in:
  assumes "findCommand name = Some (n, h, r)"
  shows "(n, h, r) \<in> set kCommands \<and> n = name"
  using find_Some_in [OF assms [unfolded findCommand_def]] by auto

lemma keeps_stays: "keeps L w v \<Longrightarrow> stays L f w v"
  by (auto simp: keeps_def stays_def)

lemma open_commands_ok:
  assumes "world_ok L w" and "f \<in> live w" and "lib_ok L" and "(n, h, False) \<in> set kCommands"
  shows "stays L f w (h L f msg w)"
proof -
  have "h \<in> {cmdCap, cmdPass, cmdNick, cmdUser, cmdQuit, cmdPong}"
    using assms(4) unfolding kCommands_def by auto
  then show ?thesis
    using assms(1-3) stays_core [OF assms(1) cmdCap_core [of L f msg w]]
      keeps_stays [OF cmdPong_keeps [OF assms(1,2)]]
    by (auto simp: lib_ok_def cmdPass_ok cmdNick_ok cmdUser_ok cmdQuit_ok)
qed

lemma user_commands_keep:
  assumes ok: "world_ok L w" and f: "f \<in> users w" and L: "lib_ok L" and h: "(n, h, True) \<in> set kCommands"
  shows "keeps L w (h L f msg w)"
proof -
  have "h \<in> {cmdPing, cmdJoin, cmdPart, cmdPrivmsg, cmdNotice, cmdKick, cmdInvite, cmdTopic, cmdMode,
      cmdWho, cmdWhois, cmdUserhost}"
    using h unfolding kCommands_def by auto
  then consider "h = cmdPing" | "h = cmdJoin" | "h = cmdPart" | "h = cmdPrivmsg" | "h = cmdNotice" | "h = cmdKick"
    | "h = cmdInvite" | "h = cmdTopic" | "h = cmdMode" | "h = cmdWho" | "h = cmdWhois" | "h = cmdUserhost"
    by auto
  then show ?thesis
  proof cases
    case 9
    then show ?thesis using cmdMode_keeps [OF ok f] L by (simp add: lib_ok_def)
  qed (use ok f in \<open>simp_all add: keeps_core cmdJoin_keeps cmdPart_keeps cmdPrivmsg_keeps cmdKick_keeps
        cmdInvite_keeps cmdTopic_keeps\<close>)
qed

lemma first_command_keeps:
  assumes ok: "world_ok L w" and f: "f \<in> live w" and L: "lib_ok L"
  shows "keeps L w (snd (first_ext (ext_onCommand L f msg) w))"
proof (rule first_ext_keeps(1) [OF ok])
  fix v :: "'a world" and i
  assume v: "world_ok L v" "users v = users w" "live v = live w" "length (w_exts v) = length (w_exts w)"
    and i: "i < length (w_exts w)"
  have pre: "parse_law L \<and> table_ok v \<and> f \<in> live v"
    using L f v by (simp add: lib_ok_def world_ok_table)
  have "\<forall>e \<in> set (w_exts v). ext_ok (live v) e" using v(1) by (simp add: world_ok_def exts_wf_def)
  then have "\<forall>e \<in> set (w_exts (snd (ext_onCommand L f msg v i))). ext_ok (live v) e"
    by (rule on_command.one_step [OF pre _ refl]) (simp add: i v(4))
  then show "keeps L v (snd (ext_onCommand L f msg v i)) \<and>
      net (snd (ext_onCommand L f msg v i)) = net v \<and>
      length (w_exts (snd (ext_onCommand L f msg v i))) = length (w_exts v)"
    using exts_changed_keeps [OF v(1) on_command.frame on_command.kinds] on_command.frame on_command.slots by blast
qed

theorem dispatchCommand_ok:
  assumes ok: "world_ok L w" and f: "f \<in> live w" and L: "lib_ok L"
  shows "stays L f w (dispatchCommand L f msg w)"
proof (cases "findCommand (m_command msg) :: (string \<times> ('a libcpp \<Rightarrow> fd \<Rightarrow> message \<Rightarrow> 'a world \<Rightarrow> 'a world) \<times> bool) option")
  case None
  obtain h w1 where e: "first_ext (ext_onCommand L f msg) w = (h, w1)"
    by (cases "first_ext (ext_onCommand L f msg) w")
  then have k: "stays L f w w1" using first_command_keeps [OF ok f L, of msg] keeps_stays by fastforce
  then have "stays L f w (sendReply L f n p w1)" for n p by (rule stays_after) simp
  then show ?thesis using ok k by (simp add: dispatchCommand_def None e stays_core)
next
  case (Some entry)
  obtain n h r where entry: "entry = (n, h, r)" by (cases entry) auto
  have e: "(n, h, r) \<in> set kCommands" using findCommand_in Some entry by blast
  show ?thesis
  proof (cases r)
    case False
    then show ?thesis
      using open_commands_ok [OF ok f L, of n h msg] e by (simp add: dispatchCommand_def Some entry)
  next
    case True
    have "stays L f w (h L f msg w)" if "cl_registered (cl w f)"
      using user_commands_keep [OF ok _ L, of f n h msg] e True that f keeps_stays
      by (fastforce simp: users_cl live_cl)
    then show ?thesis using ok True by (simp add: dispatchCommand_def Some entry stays_core)
  qed
qed

theorem handleMessage_ok:
  assumes "world_ok L w" and "f \<in> live w" and "lib_ok L"
  shows "stays L f w (handleMessage L P f raw w)"
proof -
  let ?w1 = "upd_trace (trace_inbound L (cl_fd (cl w f)) (nick_of w f) raw) w"
  have w1: "stays L f w ?w1" using assms(1) by (simp add: stays_core)
  have "stays L f w (dispatchCommand L f msg ?w1)" for msg
    using stays_trans [OF w1] dispatchCommand_ok [of L ?w1 f msg] assms by simp
  then show ?thesis using w1 by (auto simp: handleMessage_def Let_def split: option.split)
qed

end
