(* ===== verification/Event_Loop.thy ===== *)
theory Event_Loop
  imports Dispatch
begin

text \<open>
  The event loop of \<open>src/Server.cpp\<close>: accepting, receiving, sending, the two timeout
  sweeps and one iteration of \<open>run\<close>.  What the kernel answers (the connection
  \<open>accept\<close> returns, the bytes of \<open>recv\<close>, the count of \<open>send\<close>, the ready
  events) is data of the event.  \<open>None\<close> stands for an iteration that does not come back
  to the loop: an exception left \<open>run\<close>, or the extraction of messages never ended.
\<close>

section \<open>What the kernel answers\<close>

datatype recv_result = RecvError | RecvClosed | RecvData string

record accepted =
  ac_fd :: fd
  ac_host :: string
  ac_nonblock :: bool
  ac_errno :: string
  ac_added :: bool

definition EPOLLIN :: "32 word" where "EPOLLIN = 0x001"
definition EPOLLOUT :: "32 word" where "EPOLLOUT = 0x004"
definition EPOLLERR :: "32 word" where "EPOLLERR = 0x008"
definition EPOLLHUP :: "32 word" where "EPOLLHUP = 0x010"

section \<open>Accepting a connection\<close>

text \<open>
  \<open>accept\<close> failed (\<open>None\<close>), or gave a descriptor: then \<open>fcntl\<close> may fail with the
  text \<open>ac_errno\<close>, and \<open>epoll_ctl\<close> may refuse it (\<open>ac_added\<close> is false), which throws.
\<close>

definition acceptClient :: "'io libcpp \<Rightarrow> accepted option \<Rightarrow> 'io world \<Rightarrow> 'io world option" where
  "acceptClient L res w =
     (case res of
        None \<Rightarrow> Some w
      | Some a \<Rightarrow>
          let f = ac_fd a in
          if MAX_CLIENTS \<le> length (w_clients w) then
            Some (upd_trace (log_warn ''connection rejected: MAX_CLIENTS reached'') (os_call (OsClose f) w))
          else if \<not> ac_nonblock a then
            Some (os_call (OsClose f) (upd_trace (log_error (''fcntl() failed on client fd: '' @ ac_errno a)) w))
          else let (got, w1) = try_alloc w in
          if \<not> got then
            Some (os_call (OsClose f) (upd_trace (log_error ''out of memory: cannot accept new client'') w1))
          else let (now, w2) = read_clock w1;
                   w3 = w2\<lparr>w_clients := om_put f (newClient L f (ac_host a) now) (w_clients w2)\<rparr>;
                   w4 = os_call (OsAdd f EPOLLIN) w3 in
          if \<not> ac_added a then None
          else let w5 = w4\<lparr>w_epollMask := om_put f EPOLLIN (w_epollMask w4)\<rparr>;
                   w6 = upd_trace (sessionOpen L f (ac_host a)) w5
               in Some (upd_trace (log_info (''new connection from '' @ ac_host a @ '' (fd '' @
                           lc_to_string L f @ '')'')) w6))"

section \<open>Receiving and sending\<close>

text \<open>The loop over the messages of one read; it stops when the client is gone or going.\<close>

fun input_loop :: "'io libcpp \<Rightarrow> parser \<Rightarrow> fd \<Rightarrow> string list \<Rightarrow> 'io world \<Rightarrow> bool \<times> 'io world" where
  "input_loop L P f [] w = (False, w)"
| "input_loop L P f (m # ms) w =
     (let w1 = handleMessage L P f m w
      in if map_of (w_clients w1) f = None \<or> cl_pendingClose (cl w1 f) then (True, w1)
         else input_loop L P f ms w1)"

definition handleClientInput ::
  "'io libcpp \<Rightarrow> parser \<Rightarrow> fd \<Rightarrow> recv_result \<Rightarrow> 'io world \<Rightarrow> 'io world option" where
  "handleClientInput L P f res w =
     (if map_of (w_clients w) f = None then Some w
      else case res of
        RecvError \<Rightarrow> Some w
      | RecvClosed \<Rightarrow> Some (disconnectClient L f ''Connection closed'' w)
      | RecvData bytes \<Rightarrow>
          let w1 = upd_client f (appendToRecvBuffer L bytes) w;
              (now, w2) = read_clock w1;
              w3 = upd_client f (updateLastActivity now) w2;
              w4 = upd_client f (\<lambda>c. c\<lparr>cl_pingSent := False\<rparr>) w3
          in (case extractMessages L (cl w4 f) of
                None \<Rightarrow> None
              | Some (messages, c) \<Rightarrow>
                  let w5 = upd_client f (\<lambda>_. c) w4;
                      (stopped, w6) = input_loop L P f messages w5
                  in Some (if stopped then w6
                           else if isSendQExceeded L (cl w6 f) then disconnectClientNow L f ''SendQ exceeded'' w6
                           else w6)))"

definition handleClientOutput :: "'io libcpp \<Rightarrow> fd \<Rightarrow> int \<Rightarrow> 'io world \<Rightarrow> 'io world" where
  "handleClientOutput L f bytesSent w =
     (if map_of (w_clients w) f = None then w
      else if \<not> hasPendingData L (cl w f) then w
      else if bytesSent < 0 then w
      else
        let w1 = upd_client f (clearSendBuffer L (nat bytesSent)) w in
        if cl_pendingClose (cl w1 f) then
          (if \<not> hasPendingData L (cl w1 f) \<or> isSendQExceeded L (cl w1 f) then finalizeDisconnect f w1 else w1)
        else if isSendQExceeded L (cl w1 f) then disconnectClientNow L f ''SendQ exceeded'' w1
        else w1)"

definition wanted_events :: "'io libcpp \<Rightarrow> 'io conn \<Rightarrow> 32 word" where
  "wanted_events L c =
     (if cl_pendingClose c then 0 else EPOLLIN) OR (if hasPendingData L c then EPOLLOUT else 0)"

definition updateEpollInterest :: "'io libcpp \<Rightarrow> 'io world \<Rightarrow> fd \<Rightarrow> 'io world" where
  "updateEpollInterest L w f0 =
     (let f = cl_fd (cl w f0); want = wanted_events L (cl w f0)
      in if map_of (w_epollMask w) f = Some want then w
         else let w1 = os_call (OsModify f want) w
              in w1\<lparr>w_epollMask := om_put f want (w_epollMask w1)\<rparr>)"

section \<open>The timeout sweeps\<close>

text \<open>One client of \<open>checkTimeouts\<close>: the world and the two lists of clients to disconnect.\<close>

definition timeout_step ::
  "'io libcpp \<Rightarrow> int \<Rightarrow> 'io world \<times> fd list \<times> fd list \<Rightarrow> fd \<Rightarrow> 'io world \<times> fd list \<times> fd list" where
  "timeout_step L now st f =
     (let (w, sendQNow, pingTimeoutDeferred) = st; c = cl w f in
      if cl_pendingClose c then st
      else let idle = now - cl_lastActivity c in
      if isSendQExceeded L c then (w, sendQNow @ [f], pingTimeoutDeferred)
      else if cl_pingSent c \<and> PING_INTERVAL + PING_TIMEOUT < idle then (w, sendQNow, pingTimeoutDeferred @ [f])
      else if \<not> cl_pingSent c \<and> PING_INTERVAL < idle then
        (upd_client f (\<lambda>c. c\<lparr>cl_pingSent := True\<rparr>) (sendToClient L f (''PING :'' @ SERVER_NAME) w),
         sendQNow, pingTimeoutDeferred)
      else st)"

definition checkTimeouts :: "'io libcpp \<Rightarrow> 'io world \<Rightarrow> 'io world" where
  "checkTimeouts L w =
     (let (now, w1) = read_clock w in
      if now - w_lastPingCheck w1 < 30 then w1
      else
        let w2 = w1\<lparr>w_lastPingCheck := now\<rparr>;
            (w3, sendQNow, pingTimeoutDeferred) = foldl (timeout_step L now) (w2, [], []) (om_keys (w_clients w2));
            w4 = foldl (\<lambda>w f. disconnectClientNow L f ''SendQ exceeded'' w) w3 sendQNow
        in foldl (\<lambda>w f. disconnectClient L f ''Ping timeout'' w) w4 pingTimeoutDeferred)"

definition checkPendingCloseTimeouts :: "'io world \<Rightarrow> 'io world" where
  "checkPendingCloseTimeouts w =
     (let (now, w1) = read_clock w;
          expired = map fst (filter (\<lambda>e. cl_pendingClose (snd e) \<and>
                       w_closeTimeout w1 \<le> now - cl_pendingCloseSince (snd e)) (w_clients w1))
      in foldl (\<lambda>w f. finalizeDisconnect f (os_call (OsLinger f) w)) w1 expired)"

section \<open>One iteration of run\<close>

datatype ready =
    ReadyListen "accepted option"
  | ReadyClient fd "32 word" recv_result int

definition handleReady :: "'io libcpp \<Rightarrow> parser \<Rightarrow> ready \<Rightarrow> 'io world \<Rightarrow> 'io world option" where
  "handleReady L P ev w =
     (case ev of
        ReadyListen res \<Rightarrow> acceptClient L res w
      | ReadyClient f events res bytesSent \<Rightarrow>
          if map_of (w_clients w) f = None then Some (os_call (OsRemove f) w)
          else case (if events AND EPOLLIN \<noteq> 0 then handleClientInput L P f res w else Some w) of
            None \<Rightarrow> None
          | Some w1 \<Rightarrow>
              let w2 = (if events AND EPOLLOUT \<noteq> 0 \<and> map_of (w_clients w1) f \<noteq> None
                        then handleClientOutput L f bytesSent w1 else w1)
              in Some (if events AND (EPOLLERR OR EPOLLHUP) \<noteq> 0 \<and> map_of (w_clients w2) f \<noteq> None
                       then disconnectClientNow L f ''Connection error'' w2 else w2))"

fun handleAllReady :: "'io libcpp \<Rightarrow> parser \<Rightarrow> ready list \<Rightarrow> 'io world \<Rightarrow> 'io world option" where
  "handleAllReady L P [] w = Some w"
| "handleAllReady L P (ev # evs) w =
     (case handleReady L P ev w of None \<Rightarrow> None | Some w1 \<Rightarrow> handleAllReady L P evs w1)"

definition run_iteration :: "'io libcpp \<Rightarrow> parser \<Rightarrow> ready list \<Rightarrow> 'io world \<Rightarrow> 'io world option" where
  "run_iteration L P evs w =
     (case handleAllReady L P evs w of
        None \<Rightarrow> None
      | Some w1 \<Rightarrow>
          let w2 = checkTimeouts L w1;
              w3 = checkPendingCloseTimeouts w2;
              (now, w4) = read_clock w3;
              w5 = each_ext (ext_onTick L now) w4
          in Some (foldl (updateEpollInterest L) w5 (om_keys (w_clients w5))))"

text \<open>The server after its construction and the registration of extensions.\<close>

definition initial_world ::
  "string \<Rightarrow> int \<Rightarrow> extension list \<Rightarrow> log_level \<Rightarrow> (nat \<Rightarrow> int) \<Rightarrow> (nat \<Rightarrow> bool) \<Rightarrow> (int \<Rightarrow> string) \<Rightarrow> 'io world" where
  "initial_world password closeTimeout exts level clock mem localtime =
     \<lparr>w_password = password, w_clients = [], w_epollMask = [], w_channels = [], w_exts = exts,
      w_lastPingCheck = clock 0, w_closeTimeout = closeTimeout,
      w_trace = \<lparr>lg_level = level, lg_out = [], tr_sessions = [], tr_total = no_stats, tr_count = 0\<rparr>,
      w_clock = clock, w_ticks = 1, w_mem = mem, w_allocs = 0, w_localtime = localtime, w_calls = []\<rparr>"

text \<open>The extensions as \<open>registerExtensions\<close> of the three tiers creates them.\<close>

definition new_extension :: "extension \<Rightarrow> bool" where
  "new_extension e \<longleftrightarrow>
     (case e of ExtBot n \<Rightarrow> n = 0 | ExtFile t \<Rightarrow> t = ft_new | ExtAudit a \<Rightarrow> au_rows a = [])"

section \<open>What the kernel promises\<close>

text \<open>
  \<open>accept\<close> never gives a descriptor that is still open, and an address in dotted
  notation has at most fifteen characters.
\<close>

definition ready_ok :: "ready \<Rightarrow> 'io world \<Rightarrow> bool" where
  "ready_ok ev w \<longleftrightarrow>
     (case ev of
        ReadyListen (Some a) \<Rightarrow> map_of (w_clients w) (ac_fd a) = None \<and> length (ac_host a) \<le> 15
      | _ \<Rightarrow> True)"

fun batch_ok :: "'io libcpp \<Rightarrow> parser \<Rightarrow> ready list \<Rightarrow> 'io world \<Rightarrow> bool" where
  "batch_ok L P [] w = True"
| "batch_ok L P (ev # evs) w =
     (ready_ok ev w \<and> (case handleReady L P ev w of None \<Rightarrow> True | Some w1 \<Rightarrow> batch_ok L P evs w1))"

text \<open>
  \<open>epoll_wait\<close> reports a descriptor at most once, and \<open>EPOLLIN\<close> only for one whose
  interest mask has it.
\<close>

fun ready_fds :: "ready list \<Rightarrow> fd list" where
  "ready_fds [] = []"
| "ready_fds (ReadyListen res # evs) = ready_fds evs"
| "ready_fds (ReadyClient f events res n # evs) = f # ready_fds evs"

fun input_fds :: "ready list \<Rightarrow> fd set" where
  "input_fds [] = {}"
| "input_fds (ReadyListen res # evs) = input_fds evs"
| "input_fds (ReadyClient f events res n # evs) =
     (if events AND EPOLLIN \<noteq> 0 then insert f (input_fds evs) else input_fds evs)"

definition mask_honoured :: "ready list \<Rightarrow> 'io world \<Rightarrow> bool" where
  "mask_honoured evs w \<longleftrightarrow> distinct (ready_fds evs) \<and>
     (\<forall>f \<in> input_fds evs. case map_of (w_epollMask w) f of None \<Rightarrow> False | Some m \<Rightarrow> m AND EPOLLIN \<noteq> 0)"

text \<open>The states of the server at the head of its loop.\<close>

inductive reachable :: "'io libcpp \<Rightarrow> parser \<Rightarrow> 'io world \<Rightarrow> bool" for L :: "'io libcpp" and P :: parser where
  start: "list_all new_extension exts \<Longrightarrow>
    reachable L P (initial_world password closeTimeout exts level clock mem localtime)"
| step: "reachable L P w \<Longrightarrow> mask_honoured evs w \<Longrightarrow> batch_ok L P evs w \<Longrightarrow>
    run_iteration L P evs w = Some w' \<Longrightarrow> reachable L P w'"

section \<open>Accepting keeps the invariant\<close>

lemma ext_ok_mono: "ext_ok fs e \<Longrightarrow> fs \<subseteq> gs \<Longrightarrow> ext_ok gs e"
  by (cases e) (auto simp: ft_good_def ft_within_def)

text \<open>The two changes of a new connection together.\<close>

definition add_client :: "fd \<Rightarrow> 'io conn \<Rightarrow> 32 word \<Rightarrow> 'io world \<Rightarrow> 'io world" where
  "add_client f c m w =
     w\<lparr>w_clients := om_put f c (w_clients w), w_epollMask := om_put f m (w_epollMask w)\<rparr>"

lemma os_call_mask: "(os_call c w)\<lparr>w_epollMask := m\<rparr> = os_call c (w\<lparr>w_epollMask := m\<rparr>)"
  by (simp add: os_call_def)

lemma skel_add_client: "skel (add_client f c m w) = om_put f (client.truncate c) (skel w)"
proof -
  have "map (\<lambda>e. (fst e, client.truncate (snd e))) (om_put f c xs) =
      om_put f (client.truncate c) (map (\<lambda>e. (fst e, client.truncate (snd e))) xs)" for xs :: "(fd \<times> 'a conn) list"
    by (simp add: om_put_def filter_map comp_def)
  then show ?thesis by (simp add: skel_def add_client_def)
qed

lemma world_ok_add_client:
  assumes ok: "world_ok L w" and f: "map_of (w_clients w) f = None" and host: "length host \<le> 15"
  shows "world_ok L (add_client f (newClient L f host now) m w)"
    "live (add_client f (newClient L f host now) m w) = insert f (live w)"
proof -
  let ?c = "client.truncate (newClient L f host now)" and ?w = "add_client f (newClient L f host now) m w"
  have c: "cl_fd ?c = f" "\<not> cl_tearingDown ?c" "\<not> cl_nickSet ?c" "\<not> cl_registered ?c"
    by (simp_all add: newClient_def truncate_fields)
  have cok: "client_ok L pw ?c" for pw
    using host by (simp add: newClient_def client_ok_def truncate_fields limit_defs)
  have fs: "map_of (skel w) f = None" using f by (simp add: skel_look)
  have look: "map_of (skel ?w) g = (if g = f then Some ?c else map_of (skel w) g)" for g
    by (simp add: skel_add_client map_simps)
  have same: "w_password ?w = w_password w" "w_channels ?w = w_channels w" "w_exts ?w = w_exts w"
    by (simp_all add: add_client_def)
  show l: "live ?w = insert f (live w)" using c fs by (auto simp: live_def look)
  have u: "users ?w = users w" using c fs by (auto simp: users_def look)
  have cw: "clients_wf L w" "chans_wf L w" "exts_wf w" "mask_wf w" using ok by (auto simp: world_ok_def)
  have tab: "om_ok (skel w)" "\<And>g d. map_of (skel w) g = Some d \<Longrightarrow> cl_fd d = g"
    using cw(1) unfolding clients_wf_def table_ok_def by blast+
  have "om_ok (skel ?w)" unfolding skel_add_client by (rule om_ok_put [OF tab(1)])
  then have "table_ok ?w" using tab(2) c(1) unfolding table_ok_def look by auto
  moreover have "nicks_unique L ?w"
    using cw(1) c(3) unfolding clients_wf_def nicks_unique_def look by auto
  ultimately have "clients_wf L ?w"
    using cw(1) c(3) cok unfolding clients_wf_def look same nick_reserved_def by auto
  moreover have "chans_wf L ?w" using cw(2) by (simp add: chans_wf_def same u)
  moreover have "exts_wf ?w" using cw(3) ext_ok_mono unfolding exts_wf_def same l by blast
  moreover have "mask_wf ?w"
    using cw(4) om.keys_put [of f m "w_epollMask w"] om.keys_put [of f "newClient L f host now" "w_clients w"]
    by (simp add: mask_wf_def add_client_def om_ok_put)
  ultimately show "world_ok L ?w" by (simp add: world_ok_def)
qed

lemma acceptClient_ok:
  assumes ok: "world_ok L w" and r: "ready_ok (ReadyListen res) w" and run: "acceptClient L res w = Some w'"
  shows "world_ok L w'" "live w \<subseteq> live w'"
proof -
  have "world_ok L w' \<and> live w \<subseteq> live w'"
  proof (cases res)
    case None
    then show ?thesis using run ok by (simp add: acceptClient_def)
  next
    case (Some a)
    let ?f = "ac_fd a" and ?w2 = "snd (read_clock (snd (try_alloc w)))" and ?now = "fst (read_clock (snd (try_alloc w)))"
    let ?new = "add_client ?f (newClient L ?f (ac_host a) ?now) EPOLLIN ?w2"
    have "core ?w2 = core w" by simp
    then have keys: "set (map fst (w_clients ?w2)) = set (map fst (w_clients w))"
      using core_views(5) by metis
    have "?f \<notin> set (map fst (w_clients w))" "length (ac_host a) \<le> 15"
      using r Some om_keys_look [of ?f "w_clients w"] by (simp_all add: ready_ok_def)
    then have "map_of (w_clients ?w2) ?f = None" "length (ac_host a) \<le> 15"
      using keys om_keys_look [of ?f "w_clients ?w2"] by auto
    moreover have "world_ok L ?w2" "live ?w2 = live w" using ok by simp_all
    ultimately have new: "world_ok L ?new" "live ?new = insert ?f (live w)"
      using world_ok_add_client [of L ?w2 ?f "ac_host a" ?now EPOLLIN] by simp_all
    have "core w' = core w \<or> core w' = core ?new"
    proof (cases "MAX_CLIENTS \<le> length (w_clients w) \<or> \<not> ac_nonblock a \<or> \<not> fst (try_alloc w)")
      case True
      then show ?thesis
        using run Some by (auto simp: acceptClient_def Let_def case_prod_beta split: if_splits)
    next
      case False
      then have "\<exists>g h. w' = upd_trace g (upd_trace h (os_call (OsAdd ?f EPOLLIN) ?new))"
        using run Some
        by (simp add: acceptClient_def Let_def case_prod_beta os_call_mask add_client_def split: if_splits) blast
      then show ?thesis by auto
    qed
    then show ?thesis
      using ok new core_world_ok [of w' w L] core_live(1) [of w' w] core_world_ok [of w' ?new L]
        core_live(1) [of w' ?new] by auto
  qed
  then show "world_ok L w'" "live w \<subseteq> live w'" by blast+
qed

section \<open>Receiving and sending keep the invariant\<close>

lemma extractMessages_io:
  "extractMessages L c = Some (ms, c') \<Longrightarrow> \<exists>io. c' = c\<lparr>cl_io := io\<rparr>"
  by (auto simp: extractMessages_def split: option.splits)

lemma upd_client_const:
  assumes "table_ok w" and "map_of (w_clients w) f \<noteq> None"
  shows "upd_client f (\<lambda>_. g (cl w f)) w = upd_client f g w"
proof -
  have d: "distinct (map fst (w_clients w))"
    using assms(1) om_ok_distinct [of "skel w"] by (simp add: table_ok_def)
  obtain c where c: "map_of (w_clients w) f = Some c" using assms(2) by blast
  have "cl w f = c" using c by (simp add: cl_def)
  then show ?thesis using om_upd_const [OF d c, of g] by (simp add: upd_client_def)
qed

lemma live_not_pending:
  assumes ok: "world_ok L w" and f: "map_of (w_clients w) f \<noteq> None"
  shows "f \<in> live w \<longleftrightarrow> \<not> cl_pendingClose (cl w f)"
proof -
  obtain c where c: "map_of (w_clients w) f = Some c" using f by blast
  then have "map_of (skel w) f = Some (client.truncate c)" by (simp add: skel_look)
  then have "client_ok L (w_password w) (client.truncate c)"
    using ok unfolding world_ok_def clients_wf_def by blast
  then show ?thesis using c by (simp add: client_ok_def truncate_fields live_cl cl_def)
qed

lemma input_loop_ok:
  assumes "world_ok L w" and "f \<in> live w" and "lib_ok L"
  shows "stays L f w (snd (input_loop L P f ms w))"
  using assms(1,2)
proof (induction ms arbitrary: w)
  case Nil
  then show ?case by (simp add: stays_refl)
next
  case (Cons m ms)
  let ?w1 = "handleMessage L P f m w"
  have s: "stays L f w ?w1" using handleMessage_ok Cons.prems assms(3) by blast
  show ?case
  proof (cases "map_of (w_clients ?w1) f = None \<or> cl_pendingClose (cl ?w1 f)")
    case True
    then show ?thesis using s by (simp add: Let_def)
  next
    case False
    then have "f \<in> live ?w1" using live_not_pending [OF stays_ok [OF s]] by blast
    then have "stays L f ?w1 (snd (input_loop L P f ms ?w1))" using Cons.IH stays_ok [OF s] by blast
    then show ?thesis
      using stays_trans [OF s] unfolding input_loop.simps Let_def if_not_P [OF False] by blast
  qed
qed

lemma disconnectClientNow_stays: "world_ok L w \<Longrightarrow> stays L f w (disconnectClientNow L f reason w)"
  by (simp add: stays_def disconnectClientNow_ok)

lemma disconnectClient_stays: "world_ok L w \<Longrightarrow> stays L f w (disconnectClient L f reason w)"
  by (simp add: stays_def disconnectClient_ok)

lemma handleClientInput_ok:
  assumes ok: "world_ok L w" and f: "f \<in> live w" and L: "lib_ok L"
    and run: "handleClientInput L P f res w = Some w'"
  shows "stays L f w w'"
proof (cases res)
  case RecvError
  then show ?thesis using run ok by (auto simp: handleClientInput_def stays_refl split: if_splits)
next
  case RecvClosed
  then show ?thesis
    using run ok by (auto simp: handleClientInput_def stays_refl disconnectClient_stays split: if_splits)
next
  case (RecvData bytes)
  define w1 where "w1 = upd_client f (appendToRecvBuffer L bytes) w"
  define now where "now = fst (read_clock w1)"
  define w2 where "w2 = snd (read_clock w1)"
  define w4 where "w4 = upd_client f (\<lambda>c. (updateLastActivity now c)\<lparr>cl_pingSent := False\<rparr>) w2"
  have c2: "core w2 = core w"
    by (simp add: w2_def w1_def core_upd_client_same appendToRecvBuffer_def)
  have w2: "world_ok L w2" "live w2 = live w" using ok core_world_ok [OF c2] core_live(1) [OF c2] by simp_all
  have w4: "world_ok L w4" "live w4 = live w"
    using world_ok_upd_client_same [OF w2(1), of f "\<lambda>c. (updateLastActivity now c)\<lparr>cl_pingSent := False\<rparr>"
        "\<lambda>c. (updateLastActivity now c)\<lparr>cl_pingSent := False\<rparr>"] f w2(2)
    by (simp_all add: w4_def updateLastActivity_def)
  obtain messages c where ex: "extractMessages L (cl w4 f) = Some (messages, c)"
      and w': "w' = (let r = input_loop L P f messages (upd_client f (\<lambda>_. c) w4) in
        if fst r then snd r else if isSendQExceeded L (cl (snd r) f)
        then disconnectClientNow L f ''SendQ exceeded'' (snd r) else snd r)"
    using run RecvData live_dom [OF f]
    by (auto simp: handleClientInput_def Let_def case_prod_beta upd_client_comp
        w1_def [symmetric] now_def [symmetric] w2_def [symmetric] w4_def [symmetric] split: option.splits)
  obtain io where "c = (cl w4 f)\<lparr>cl_io := io\<rparr>" using extractMessages_io [OF ex] by blast
  then have "upd_client f (\<lambda>_. c) w4 = upd_client f (\<lambda>c. c\<lparr>cl_io := io\<rparr>) w4"
    using upd_client_const [OF world_ok_table [OF w4(1)], of f "\<lambda>c. c\<lparr>cl_io := io\<rparr>"] live_dom [of f w4] f w4(2) by simp
  then have c5: "core (upd_client f (\<lambda>_. c) w4) = core w4" by (simp add: core_upd_client_same)
  let ?w6 = "snd (input_loop L P f messages (upd_client f (\<lambda>_. c) w4))"
  have "stays L f (upd_client f (\<lambda>_. c) w4) ?w6"
    using input_loop_ok [OF _ _ L] core_world_ok [OF c5] core_live(1) [OF c5] w4 f by simp
  then have s6: "stays L f w ?w6" using core_live(1) [OF c5] w4(2) by (simp add: stays_def)
  then show ?thesis
    using stays_trans [OF s6 disconnectClientNow_stays [OF stays_ok [OF s6]]]
    unfolding w' Let_def by (simp split: if_split)
qed

lemma handleClientOutput_ok:
  assumes ok: "world_ok L w"
  shows "stays L f w (handleClientOutput L f n w)"
proof -
  let ?w1 = "upd_client f (clearSendBuffer L (nat n)) w"
  have c1: "core ?w1 = core w" by (simp add: core_upd_client_same clearSendBuffer_def)
  have w1: "world_ok L ?w1" using ok core_world_ok [OF c1] by simp
  have s1: "stays L f w ?w1" using ok c1 by (rule stays_core)
  have "stays L f w (disconnectClientNow L f r ?w1)" for r
    using stays_trans [OF s1 disconnectClientNow_stays [OF w1]] .
  moreover have "stays L f w (finalizeDisconnect f ?w1)"
    if "cl_pendingClose (cl ?w1 f)" "map_of (w_clients w) f \<noteq> None"
  proof -
    have "map_of (w_clients ?w1) f \<noteq> None" using that(2) by (simp add: upd_client_def map_simps)
    then have "f \<notin> live ?w1" using live_not_pending [OF w1] that(1) by blast
    then show ?thesis
      using stays_trans [OF s1, of "finalizeDisconnect f ?w1"] world_ok_finalize [OF w1] by (simp add: stays_def)
  qed
  ultimately show ?thesis
    using ok s1 by (simp add: handleClientOutput_def Let_def stays_refl)
qed

lemma handleReady_client_ok:
  assumes ok: "world_ok L w" and L: "lib_ok L"
    and f: "events AND EPOLLIN \<noteq> 0 \<Longrightarrow> f \<in> live w"
    and run: "handleReady L P (ReadyClient f events res n) w = Some w'"
  shows "stays L f w w'"
proof (cases "map_of (w_clients w) f = None")
  case True
  then show ?thesis using run ok by (auto simp: handleReady_def stays_core)
next
  case False
  obtain w1 where w1: "(if events AND EPOLLIN \<noteq> 0 then handleClientInput L P f res w else Some w) = Some w1"
      and w': "w' = (let w2 = (if events AND EPOLLOUT \<noteq> 0 \<and> map_of (w_clients w1) f \<noteq> None
          then handleClientOutput L f n w1 else w1)
        in if events AND (EPOLLERR OR EPOLLHUP) \<noteq> 0 \<and> map_of (w_clients w2) f \<noteq> None
           then disconnectClientNow L f ''Connection error'' w2 else w2)"
    using run False unfolding handleReady_def ready.case by (auto simp: Let_def split: option.splits)
  have s1: "stays L f w w1"
    using w1 handleClientInput_ok [OF ok f L] ok by (auto simp: stays_refl split: if_splits)
  define w2 where "w2 = (if events AND EPOLLOUT \<noteq> 0 \<and> map_of (w_clients w1) f \<noteq> None
      then handleClientOutput L f n w1 else w1)"
  have s2: "stays L f w w2"
    using s1 stays_trans [OF s1 handleClientOutput_ok [OF stays_ok [OF s1]]] by (simp add: w2_def)
  have "stays L f w (disconnectClientNow L f r w2)" for r
    using stays_trans [OF s2 disconnectClientNow_stays [OF stays_ok [OF s2]]] .
  then show ?thesis using s2 unfolding w' Let_def w2_def [symmetric] by simp
qed

text \<open>A batch of ready events: those with input are for clients still connected.\<close>

lemma input_fds_sub: "input_fds evs \<subseteq> set (ready_fds evs)"
  by (induction evs rule: input_fds.induct) auto

lemma handleAllReady_ok:
  assumes "world_ok L w" and "lib_ok L" and "distinct (ready_fds evs)" and "input_fds evs \<subseteq> live w"
    and "batch_ok L P evs w" and "handleAllReady L P evs w = Some w'"
  shows "world_ok L w'"
  using assms(1,3-)
proof (induction evs arbitrary: w)
  case Nil
  then show ?case by simp
next
  case (Cons ev evs)
  obtain w1 where w1: "handleReady L P ev w = Some w1" and rest: "handleAllReady L P evs w1 = Some w'"
    using Cons.prems(5) by (auto split: option.splits)
  have batch: "ready_ok ev w" "batch_ok L P evs w1" using Cons.prems(4) w1 by auto
  show ?case
  proof (cases ev)
    case (ReadyListen res)
    then have run: "acceptClient L res w = Some w1" using w1 by (simp add: handleReady_def)
    note a = acceptClient_ok [OF Cons.prems(1) _ run]
    have "world_ok L w1" "live w \<subseteq> live w1" using a batch(1) ReadyListen by blast+
    then show ?thesis
      using Cons.IH [of w1] Cons.prems(2,3) batch(2) rest ReadyListen by auto
  next
    case (ReadyClient f events res n)
    have f: "events AND EPOLLIN \<noteq> 0 \<Longrightarrow> f \<in> live w" using Cons.prems(3) ReadyClient by auto
    have s: "stays L f w w1"
      using handleReady_client_ok [OF Cons.prems(1) assms(2) f] w1 ReadyClient by blast
    have "f \<notin> input_fds evs" "input_fds evs \<subseteq> live w"
      using Cons.prems(2,3) ReadyClient input_fds_sub [of evs] by (auto split: if_splits)
    then have "input_fds evs \<subseteq> live w1" using s by (auto simp: stays_def)
    then show ?thesis
      using Cons.IH [of w1] Cons.prems(2) batch(2) rest ReadyClient stays_ok [OF s] by auto
  qed
qed

section \<open>The sweeps keep the invariant\<close>

lemma set_lastPingCheck_core [simp]: "core (w\<lparr>w_lastPingCheck := t\<rparr>) = core w"
  by (simp add: core_def skel_def)

lemma om_upd_absent: "f \<notin> set (map fst m) \<Longrightarrow> om_upd f g m = m"
  by (induction m) (auto simp: om_upd_def)

lemma timeout_step_ok:
  assumes ok: "world_ok L (fst st)"
  shows "world_ok L (fst (timeout_step L now st f))"
proof -
  obtain w s p where st: "st = (w, s, p)" by (cases st)
  have w: "world_ok L w" using ok st by simp
  let ?w = "sendToClient L f (''PING :'' @ SERVER_NAME) w"
  have "world_ok L (upd_client f (\<lambda>c. c\<lparr>cl_pingSent := True\<rparr>) ?w)"
    if "\<not> cl_pendingClose (cl w f)"
  proof (cases "map_of (w_clients w) f = None")
    case True
    have "map fst (w_clients ?w) = map fst (w_clients w)" by simp
    then have "f \<notin> set (map fst (w_clients ?w))" using True om_keys_look [of f "w_clients w"] by simp
    then have "om_upd f g (w_clients ?w) = w_clients ?w" for g by (rule om_upd_absent)
    then have "upd_client f g ?w = ?w" for g by (simp add: upd_client_def)
    then show ?thesis using w by simp
  next
    case False
    then have f: "f \<in> live ?w" using that live_not_pending [OF w] by simp
    have w': "world_ok L ?w" using w by simp
    show ?thesis
      by (rule world_ok_upd_client_same(1) [OF w' f, where h = "\<lambda>c. c\<lparr>cl_pingSent := True\<rparr>"]) simp_all
  qed
  then show ?thesis using w by (simp add: timeout_step_def st Let_def del: append.simps)
qed

lemma checkTimeouts_ok:
  assumes ok: "world_ok L w"
  shows "world_ok L (checkTimeouts L w)"
proof -
  define now where "now = fst (read_clock w)"
  define w2 where "w2 = (snd (read_clock w))\<lparr>w_lastPingCheck := now\<rparr>"
  define r where "r = foldl (timeout_step L now) (w2, [], []) (om_keys (w_clients w2))"
  have "core w2 = core w" by (simp add: w2_def)
  then have "world_ok L w2" using ok core_world_ok [of w2 w] by simp
  then have r: "world_ok L (fst r)"
    unfolding r_def by (intro foldl_inv [where P = "\<lambda>st. world_ok L (fst st)"]) (simp_all add: timeout_step_ok)
  have a: "world_ok L (foldl (\<lambda>w f. disconnectClientNow L f x w) v fs)" if "world_ok L v" for v :: "'a world" and fs x
    by (rule foldl_inv [where P = "world_ok L"]) (use that disconnectClientNow_ok(1) in auto)
  have b: "world_ok L (foldl (\<lambda>w f. disconnectClient L f x w) v fs)" if "world_ok L v" for v :: "'a world" and fs x
    by (rule foldl_inv [where P = "world_ok L"]) (use that disconnectClient_ok(1) in auto)
  have "checkTimeouts L w = (if now - w_lastPingCheck (snd (read_clock w)) < 30 then snd (read_clock w)
      else foldl (\<lambda>w f. disconnectClient L f ''Ping timeout'' w)
        (foldl (\<lambda>w f. disconnectClientNow L f ''SendQ exceeded'' w) (fst r) (fst (snd r))) (snd (snd r)))"
    by (simp add: checkTimeouts_def Let_def case_prod_beta now_def [symmetric] w2_def [symmetric] r_def [symmetric])
  then show ?thesis using ok r a b by simp
qed

lemma finalize_dead_ok:
  assumes "world_ok L w" and "\<forall>f \<in> set fs. f \<notin> live w"
  shows "world_ok L (foldl (\<lambda>w f. finalizeDisconnect f (os_call (OsLinger f) w)) w fs)"
proof -
  let ?P = "\<lambda>v. world_ok L v \<and> live v = live w"
  have "?P (foldl (\<lambda>w f. finalizeDisconnect f (os_call (OsLinger f) w)) w fs)"
  proof (rule foldl_inv [where P = ?P])
    fix v f assume v: "?P v" and f: "f \<in> set fs"
    then have o: "world_ok L (os_call (OsLinger f) v)" "f \<notin> live (os_call (OsLinger f) v)" using assms(2) by simp_all
    show "?P (finalizeDisconnect f (os_call (OsLinger f) v))" using v world_ok_finalize [OF o] by simp
  qed (use assms(1) in simp)
  then show ?thesis by blast
qed

lemma checkPendingCloseTimeouts_ok:
  assumes ok: "world_ok L w"
  shows "world_ok L (checkPendingCloseTimeouts w)"
proof -
  let ?w = "snd (read_clock w)"
  have w: "world_ok L ?w" using ok by simp
  have "f \<notin> live ?w" if "(f, c) \<in> set (w_clients ?w)" "cl_pendingClose c" for f c
  proof -
    have "om_ok (skel ?w)" using w by (simp only: world_ok_def clients_wf_def table_ok_def)
    then have "map_of (w_clients ?w) f = Some c" using that(1) by (simp add: om_ok_distinct)
    then show ?thesis using live_not_pending [OF w, of f] that(2) by (simp add: cl_def)
  qed
  then show ?thesis
    unfolding checkPendingCloseTimeouts_def Let_def case_prod_beta by (intro finalize_dead_ok [OF w]) auto
qed

lemma tick_ok:
  assumes ok: "world_ok L w"
  shows "world_ok L (each_ext (ext_onTick L now) w)"
proof -
  have "\<forall>e \<in> set (w_exts w). ext_ok (live w) e" using ok by (simp add: world_ok_def exts_wf_def)
  note t = on_tick.loop [OF TrueI this, of L now]
  have "live (each_ext (ext_onTick L now) w) = live w" by (rule net_live(1) [OF t(1)])
  then have "exts_wf (each_ext (ext_onTick L now) w)" using t(3) by (simp add: exts_wf_def)
  then show ?thesis by (rule world_ok_exts(1) [OF ok t(1,2)])
qed

section \<open>The interest masks\<close>

text \<open>After the update every client's mask is the one it wants; the clients are untouched.\<close>

lemma updateEpollInterest_same:
  "w_clients (updateEpollInterest L w f) = w_clients w" "w_channels (updateEpollInterest L w f) = w_channels w"
  "w_exts (updateEpollInterest L w f) = w_exts w" "w_password (updateEpollInterest L w f) = w_password w"
  by (simp_all add: updateEpollInterest_def Let_def os_call_def)

lemma updateEpollInterest_mask:
  assumes "cl_fd (cl w f) = f"
  shows "map_of (w_epollMask (updateEpollInterest L w f)) j =
      (if j = f then Some (wanted_events L (cl w f)) else map_of (w_epollMask w) j)"
    "om_ok (w_epollMask w) \<Longrightarrow> om_ok (w_epollMask (updateEpollInterest L w f))"
  using assms by (auto simp: updateEpollInterest_def Let_def os_call_def map_simps om_ok_put)

lemma interest_loop:
  fixes L :: "'io libcpp" and w :: "'io world"
  assumes "\<forall>f \<in> set fs. cl_fd (cl w f) = f" and "om_ok (w_epollMask w)"
  defines "w' \<equiv> foldl (updateEpollInterest L) w fs"
  shows "w_clients w' = w_clients w" "w_channels w' = w_channels w" "w_exts w' = w_exts w"
    "w_password w' = w_password w" "om_ok (w_epollMask w')"
    "map_of (w_epollMask w') j = (if j \<in> set fs then Some (wanted_events L (cl w j)) else map_of (w_epollMask w) j)"
proof -
  have "w_clients w' = w_clients w \<and> w_channels w' = w_channels w \<and> w_exts w' = w_exts w \<and>
    w_password w' = w_password w \<and> om_ok (w_epollMask w') \<and>
    (\<forall>j. map_of (w_epollMask w') j = (if j \<in> set fs then Some (wanted_events L (cl w j)) else map_of (w_epollMask w) j))"
    using assms(1,2) unfolding w'_def
  proof (induction fs arbitrary: w)
    case Nil
    then show ?case by simp
  next
    case (Cons f fs)
    let ?w = "updateEpollInterest L w f"
    have cl: "cl ?w j = cl w j" for j by (simp add: cl_def updateEpollInterest_same)
    have fd: "cl_fd (cl w f) = f" using Cons.prems by simp
    note m = updateEpollInterest_mask [OF fd, of L]
    have "\<forall>f \<in> set fs. cl_fd (cl ?w f) = f" "om_ok (w_epollMask ?w)"
      using Cons.prems m(2) by (simp_all add: cl)
    note IH = Cons.IH [OF this]
    show ?case using IH by (auto simp: updateEpollInterest_same cl m(1))
  qed
  then show "w_clients w' = w_clients w" "w_channels w' = w_channels w" "w_exts w' = w_exts w"
    "w_password w' = w_password w" "om_ok (w_epollMask w')"
    "map_of (w_epollMask w') j = (if j \<in> set fs then Some (wanted_events L (cl w j)) else map_of (w_epollMask w) j)"
    by blast+
qed

text \<open>No client that is going is asked for input.\<close>

definition quiet :: "'io world \<Rightarrow> bool" where
  "quiet w \<longleftrightarrow> (\<forall>f m. map_of (w_epollMask w) f = Some m \<and> m AND EPOLLIN \<noteq> 0 \<longrightarrow> f \<in> live w)"

lemma wanted_input: "wanted_events L c AND EPOLLIN \<noteq> 0 \<longleftrightarrow> \<not> cl_pendingClose c"
  by (simp add: wanted_events_def EPOLLIN_def EPOLLOUT_def)

lemma interest_ok:
  assumes ok: "world_ok L w"
  defines "w' \<equiv> foldl (updateEpollInterest L) w (om_keys (w_clients w))"
  shows "world_ok L w'" "quiet w'"
proof -
  have dom: "f \<in> set (om_keys (w_clients w)) \<longleftrightarrow> map_of (w_clients w) f \<noteq> None" for f by (rule om_keys_look)
  have fd: "cl_fd (cl w f) = f" if d: "map_of (w_clients w) f \<noteq> None" for f
  proof -
    obtain c where c: "map_of (w_clients w) f = Some c" using d by blast
    then have "map_of (skel w) f = Some (client.truncate c)" by (simp add: skel_look)
    then have "cl_fd (client.truncate c) = f" using world_ok_table [OF ok] unfolding table_ok_def by blast
    then show ?thesis using c by (simp add: cl_def truncate_fields)
  qed
  have mask: "om_ok (w_epollMask w)" "set (map fst (w_epollMask w)) = set (map fst (w_clients w))"
    using ok by (auto simp: world_ok_def mask_wf_def)
  have all: "\<forall>f \<in> set (om_keys (w_clients w)). cl_fd (cl w f) = f" using fd dom by blast
  note l = interest_loop [OF all mask(1), of L, folded w'_def]
  have look: "map_of (w_epollMask w') f =
      (if map_of (w_clients w) f \<noteq> None then Some (wanted_events L (cl w f)) else None)" for f
  proof -
    have "map_of (w_epollMask w) f = None" if "map_of (w_clients w) f = None"
      using that mask(2) om_keys_look [of f "w_epollMask w"] dom [of f] by blast
    then show ?thesis unfolding l(6) dom by simp
  qed
  have s: "skel w' = skel w" "live w' = live w" "users w' = users w"
    by (simp_all add: skel_def live_def users_def l(1))
  have "mask_wf w'"
    unfolding mask_wf_def set_eq_iff om_keys_look look l(1) using l(5) by simp
  then show "world_ok L w'"
    using ok s l by (simp add: world_ok_def clients_wf_def chans_wf_def exts_wf_def nicks_unique_def
        nick_reserved_def table_ok_def)
  show "quiet w'"
    unfolding quiet_def look s(2) using live_not_pending [OF ok] wanted_input by (auto split: if_splits)
qed

section \<open>The invariant holds in every reachable state\<close>

lemma initial_ok:
  assumes "list_all new_extension exts"
  shows "world_ok L (initial_world password closeTimeout exts level clock mem localtime)"
    "quiet (initial_world password closeTimeout exts level clock mem localtime)"
proof -
  have "ext_ok fs e" if "new_extension e" for fs e
    using that ft_new_ok by (cases e) (auto simp: new_extension_def bot_jokeCount_def ft_good_def)
  then show "world_ok L (initial_world password closeTimeout exts level clock mem localtime)"
    using assms by (auto simp: world_ok_def clients_wf_def chans_wf_def exts_wf_def mask_wf_def table_ok_def
        nicks_unique_def skel_def initial_world_def list_all_iff)
  show "quiet (initial_world password closeTimeout exts level clock mem localtime)"
    by (simp add: quiet_def initial_world_def)
qed

lemma run_iteration_ok:
  assumes ok: "world_ok L w" and L: "lib_ok L" and q: "quiet w" and m: "mask_honoured evs w"
    and b: "batch_ok L P evs w" and run: "run_iteration L P evs w = Some w'"
  shows "world_ok L w' \<and> quiet w'"
proof -
  obtain w1 where w1: "handleAllReady L P evs w = Some w1"
    using run by (auto simp: run_iteration_def split: option.splits)
  have "input_fds evs \<subseteq> live w"
    using m q by (auto simp: mask_honoured_def quiet_def split: option.splits)
  then have "world_ok L w1"
    using handleAllReady_ok [OF ok L _ _ b w1] m by (simp add: mask_honoured_def)
  then have "world_ok L (checkPendingCloseTimeouts (checkTimeouts L w1))"
    by (intro checkPendingCloseTimeouts_ok checkTimeouts_ok)
  then have t: "world_ok L (each_ext (ext_onTick L now) (snd (read_clock (checkPendingCloseTimeouts (checkTimeouts L w1)))))"
    for now by (intro tick_ok) simp
  show ?thesis
    using run w1 interest_ok [OF t] by (auto simp: run_iteration_def Let_def case_prod_beta)
qed

theorem reachable_ok:
  assumes "reachable L P w" and "lib_ok L"
  shows "world_ok L w \<and> quiet w"
  using assms(1)
proof (induction rule: reachable.induct)
  case (start exts password closeTimeout level clock mem localtime)
  then show ?case using initial_ok by blast
next
  case (step w evs w')
  then show ?case using run_iteration_ok [OF _ assms(2)] by blast
qed

inductive_cases reachable_stepE: "reachable L P w"

end
