(* ===== verification/Demo.thy ===== *)
theory Demo
  imports Event_Loop
begin

text \<open>
  A small concrete server for the witnesses: alice (descriptor 4, operator) and bob (5) are
  registered and share \<open>#c\<close>, carol (6) is connected and not registered yet.  The string
  library is \<open>mini_lib\<close>; the matcher accepts no line.
\<close>

definition demo_parser :: parser where
  "demo_parser = \<lparr>ps_grammar = empty_grammar, ps_match = (\<lambda>_ _. None), ps_messageRule = 0, ps_commandRules = []\<rparr>"

definition demo_conn :: "fd \<Rightarrow> string \<Rightarrow> string \<Rightarrow> mini_sock conn" where
  "demo_conn f nick user =
     \<lparr>cl_fd = f, cl_nickname = nick, cl_username = user, cl_realname = user, cl_hostname = ''10.0.0.1'',
      cl_password = ''pw'', cl_registered = True, cl_passSent = True, cl_nickSet = True,
      cl_userSet = True, cl_lastActivity = 0, cl_pingSent = False, cl_pendingClose = False,
      cl_pendingCloseSince = 0, cl_tearingDown = False, cl_invisible = False, cl_wallops = False,
      cl_io = io_new mini_lib MAX_MSGLEN MAX_SENDQ\<rparr>"

definition demo_carol :: "mini_sock conn" where
  "demo_carol = newClient mini_lib 6 ''10.0.0.2'' 0"

definition demo_channel :: channel where
  "demo_channel =
     \<lparr>ch_name = ''#c'', ch_topic = ''hello'', ch_topicSetter = ''alice'', ch_topicTime = 0, ch_creationTime = 0,
      ch_key = [], ch_userLimit = 3, ch_inviteOnly = False, ch_topicRestricted = True,
      ch_members = [4, 5], ch_operators = {4}, ch_inviteList = {}\<rparr>"

definition demo_transfer :: transfer where
  "demo_transfer = \<lparr>tf_senderFd = 4, tf_recipientFd = 5, tf_filename = ''a.txt'', tf_declaredSize = 10,
     tf_relayedBytes = 3, tf_accepted = True, tf_lastActivity = 0\<rparr>"

definition demo_files :: file_ext where
  "demo_files = \<lparr>ft_transfers = [(1, demo_transfer)], ft_nextId = 2\<rparr>"

definition demo_world :: "mini_sock world" where
  "demo_world =
     \<lparr>w_password = ''pw'',
      w_clients = [(4, demo_conn 4 ''alice'' ''al''), (5, demo_conn 5 ''bob'' ''bo''), (6, demo_carol)],
      w_epollMask = [(4, EPOLLIN), (5, EPOLLIN), (6, EPOLLIN)],
      w_channels = [(''#c'', demo_channel)], w_exts = [ExtBot 0, ExtFile demo_files],
      w_lastPingCheck = 0, w_closeTimeout = 5,
      w_trace = \<lparr>lg_level = LOG_INFO, lg_out = [], tr_sessions = [], tr_total = no_stats, tr_count = 0\<rparr>,
      w_clock = (\<lambda>_. 100), w_ticks = 0, w_mem = (\<lambda>_. True), w_allocs = 0, w_localtime = (\<lambda>_. ''now''),
      w_calls = []\<rparr>"

definition demo_start :: "mini_sock world" where
  "demo_start = initial_world ''pw'' 5 [ExtBot 0, ExtFile ft_new] LOG_INFO (\<lambda>_. 100) (\<lambda>_. True) (\<lambda>_. ''now'')"

lemma demo_lib_ok: "lib_ok mini_lib"
  by (simp add: lib_ok_def)

lemma demo_map_of:
  "map_of (skel demo_world) = [4 \<mapsto> client.truncate (demo_conn 4 ''alice'' ''al''),
     5 \<mapsto> client.truncate (demo_conn 5 ''bob'' ''bo''), 6 \<mapsto> client.truncate demo_carol]"
  by (auto simp: demo_world_def skel_def fun_eq_iff)

lemma demo_cl:
  "cl demo_world 4 = demo_conn 4 ''alice'' ''al''" "cl demo_world 5 = demo_conn 5 ''bob'' ''bo''"
  "cl demo_world 6 = demo_carol"
  by (simp_all add: cl_def demo_world_def)

lemma demo_live: "live demo_world = {4, 5, 6}" "users demo_world = {4, 5}"
  by (auto simp: live_def users_def demo_map_of demo_conn_def demo_carol_def newClient_def truncate_fields
      split: if_splits)

lemma demo_ok: "world_ok mini_lib demo_world"
proof -
  let ?L = mini_lib
  have look: "map_of (skel demo_world) f = Some c \<longleftrightarrow>
     f = 4 \<and> c = client.truncate (demo_conn 4 ''alice'' ''al'') \<or> f = 5 \<and> c = client.truncate (demo_conn 5 ''bob'' ''bo'') \<or>
     f = 6 \<and> c = client.truncate demo_carol" for f c
    by (auto simp: demo_map_of)
  have table: "table_ok demo_world"
    unfolding table_ok_def look
    by (auto simp: demo_world_def skel_def demo_conn_def demo_carol_def newClient_def truncate_fields)
  have nicks: "\<not> ircEquals ?L ''alice'' ''bob''" "\<not> ircEquals ?L ''bob'' ''alice''"
    unfolding ircEquals_def by code_simp+
  have uniq: "nicks_unique ?L demo_world"
    unfolding nicks_unique_def look using nicks
    by (auto simp: demo_conn_def demo_carol_def newClient_def truncate_fields)
  have valid: "isValidNickname ''alice''" "isValidNickname ''bob''" "isValidUsername ''al''" "isValidUsername ''bo''"
    by code_simp+
  have eqp: "lc_eq_consttime ?L ''pw'' ''pw''" by code_simp
  have res: "\<not> nick_reserved ?L ''alice'' demo_world" "\<not> nick_reserved ?L ''bob'' demo_world"
  proof -
    have "\<not> ircEquals ?L ''alice'' bot_nickname" "\<not> ircEquals ?L ''bob'' bot_nickname"
      unfolding ircEquals_def by code_simp+
    then show "\<not> nick_reserved ?L ''alice'' demo_world" "\<not> nick_reserved ?L ''bob'' demo_world"
      by (simp_all add: nick_reserved_def ext_reservesNick_def bot_reservesNick_def demo_world_def)
  qed
  have clients: "client_ok ?L (w_password demo_world) c \<and> (cl_nickSet c \<longrightarrow> \<not> nick_reserved ?L (cl_nickname c) demo_world)"
    if "map_of (skel demo_world) f = Some c" for f c
    using that valid eqp res unfolding look
    by (auto simp: client_ok_def demo_conn_def demo_carol_def newClient_def truncate_fields limit_defs demo_world_def)
  have chan: "chan_wf ?L {4, 5} ''#c'' demo_channel"
  proof -
    have "''#c'' = ircToLower ?L ''#c''" "isValidChannelName ''#c''" unfolding ircToLower_def by code_simp+
    then show ?thesis by (simp add: chan_wf_def demo_channel_def chan_ok_def limit_defs)
  qed
  have "isValidFilename ''a.txt''" by code_simp
  then have "transfer_ok demo_transfer"
    by (simp add: transfer_ok_def demo_transfer_def MAX_FILE_SIZE_def)
  then have files: "ft_good {4, 5, 6} demo_files"
    by (auto simp: ft_good_def ft_ok_def ft_within_def demo_files_def findById_def demo_transfer_def split: if_splits)
  have w: "w_channels demo_world = [(''#c'', demo_channel)]" "w_exts demo_world = [ExtBot 0, ExtFile demo_files]"
    by (simp_all add: demo_world_def)
  have "chans_wf ?L demo_world" using chan by (auto simp: chans_wf_def w demo_live)
  moreover have "exts_wf demo_world" using files by (simp add: exts_wf_def w demo_live bot_jokeCount_def)
  moreover have "mask_wf demo_world" by (simp add: mask_wf_def demo_world_def)
  ultimately show ?thesis
    using table uniq clients unfolding world_ok_def clients_wf_def by blast
qed

text \<open>A message whose production captured the given fields.\<close>

definition demo_msg :: "string \<Rightarrow> (string \<times> string) list \<Rightarrow> message" where
  "demo_msg command caps =
     \<lparr>m_command = command, m_params = map snd caps, m_trailingIndex = -1,
      m_fields = Some \<lparr>mr_grammar = Some (empty_grammar\<lparr>g_captureNames := map fst caps\<rparr>),
        mr_values = map (\<lambda>c. [snd c]) caps, mr_sequence = map snd caps, mr_owners = map (\<lambda>i. int i) [0..<length caps]\<rparr>\<rparr>"

text \<open>The same parameters from the generic parse: nothing captured.\<close>

definition demo_plain :: "string \<Rightarrow> string list \<Rightarrow> message" where
  "demo_plain command params =
     \<lparr>m_command = command, m_params = params, m_trailingIndex = -1, m_fields = None\<rparr>"

lemma demo_msg_simps [simp]:
  "matched (demo_msg c caps)" "m_command (demo_msg c caps) = c" "m_params (demo_msg c caps) = map snd caps"
  "\<not> matched (demo_plain c ps)" "m_command (demo_plain c ps) = c" "m_params (demo_plain c ps) = ps"
  by (simp_all add: demo_msg_def demo_plain_def matched_def)

lemma demo_field [simp]:
  "field (demo_msg c ((n, v) # caps)) m = (if n = m then v else field (demo_msg c caps) m)"
  "field (demo_msg c []) m = []"
proof -
  have shift: "index_from (i + 1) m xs = (let r = index_from i m xs in if r = -1 then -1 else r + 1)"
    if "0 \<le> i" for i and xs :: "string list"
    using that
  proof (induction xs arbitrary: i)
    case (Cons x xs)
    then show ?case using Cons.IH [of "i + 1"] by simp
  qed simp
  have nn: "index_from 0 m xs = -1 \<or> (0 \<le> index_from 0 m xs \<and> nat (index_from 0 m xs) < length xs)" for xs :: "string list"
    using index_from_bounds [of 0 m xs] by auto
  show "field (demo_msg c ((n, v) # caps)) m = (if n = m then v else field (demo_msg c caps) m)"
    using shift [of 0 "map fst caps"] nn [of "map fst caps"]
    by (auto simp: field_def m_field_at_def demo_msg_def mr_at_def slotOf_def Let_def nat_add_distrib)
  show "field (demo_msg c []) m = []"
    by (simp add: field_def m_field_at_def demo_msg_def mr_at_def slotOf_def)
qed

lemma demo_channels:
  "map_of (w_channels demo_world) k = (if k = ''#c'' then Some demo_channel else None)"
  by (simp add: demo_world_def)


text \<open>The first connection to the server: the state an iteration of the loop leaves.\<close>

definition demo_accept :: accepted where
  "demo_accept = \<lparr>ac_fd = 7, ac_host = ''10.0.0.3'', ac_nonblock = True, ac_errno = [], ac_added = True\<rparr>"

definition demo_next :: "mini_sock world" where
  "demo_next = the (run_iteration mini_lib demo_parser [ReadyListen (Some demo_accept)] demo_start)"

lemma demo_next_run: "run_iteration mini_lib P [ReadyListen (Some demo_accept)] demo_start = Some demo_next"
  by (simp add: demo_next_def run_iteration_def handleReady_def acceptClient_def demo_start_def initial_world_def
      demo_accept_def try_alloc_def read_clock_def Let_def case_prod_beta)

lemma demo_start_reachable: "reachable mini_lib P demo_start"
  unfolding demo_start_def by (rule reachable.start) (simp add: new_extension_def)

lemma demo_batch:
  "mask_honoured [ReadyListen (Some demo_accept)] demo_start"
  "batch_ok mini_lib P [ReadyListen (Some demo_accept)] demo_start"
proof -
  show "mask_honoured [ReadyListen (Some demo_accept)] demo_start" by (simp add: mask_honoured_def)
  have "handleReady mini_lib P (ReadyListen (Some demo_accept)) demo_start \<noteq> None"
    using demo_next_run [of P] by (auto simp: run_iteration_def split: option.splits)
  then show "batch_ok mini_lib P [ReadyListen (Some demo_accept)] demo_start"
    by (auto simp: ready_ok_def demo_accept_def demo_start_def initial_world_def split: option.splits)
qed

end
