(* ===== verification/Command_Effects.thy ===== *)
theory Command_Effects
  imports Demo
begin

text \<open>
  An abstract specification of the commands that change channels: what happens to the
  channel a command names, as a function from the channel before (\<open>None\<close>: no such
  channel) to the channel after.  The lemmas show that the handlers implement it, whatever
  they send on the way, and leave every other channel and every client alone.
\<close>

section \<open>The specification\<close>

definition leave_spec :: "fd \<Rightarrow> channel \<Rightarrow> channel option" where
  "leave_spec f ch =
     (if \<not> isMember ch f then Some ch
      else if isEmpty (removeMember f ch) then None else Some (removeMember f ch))"

definition join_spec :: "fd \<Rightarrow> string \<Rightarrow> channel option \<Rightarrow> channel option \<Rightarrow> channel option" where
  "join_spec f key fresh old =
     (case old of
        None \<Rightarrow> fresh
      | Some ch \<Rightarrow>
          if isMember ch f \<or> join_refusal ch f key \<noteq> None then Some ch
          else Some (removeInvite f (addMember f ch)))"

definition kick_spec :: "'io libcpp \<Rightarrow> (fd \<Rightarrow> string) \<Rightarrow> fd \<Rightarrow> string \<Rightarrow> channel \<Rightarrow> channel option" where
  "kick_spec L nickOf f target ch =
     (if \<not> isMember ch f \<or> \<not> isOperator ch f then Some ch
      else case findMember L nickOf target ch of None \<Rightarrow> Some ch | Some t \<Rightarrow> leave_spec t ch)"

definition invite_spec :: "fd \<Rightarrow> fd option \<Rightarrow> channel \<Rightarrow> channel" where
  "invite_spec f target ch =
     (if \<not> isMember ch f \<or> (ch_inviteOnly ch \<and> \<not> isOperator ch f) then ch
      else case target of None \<Rightarrow> ch | Some t \<Rightarrow> if isMember ch t then ch else addInvite t ch)"

definition topic_spec :: "fd \<Rightarrow> string \<Rightarrow> string \<Rightarrow> int \<Rightarrow> channel \<Rightarrow> channel" where
  "topic_spec f newTopic nick now ch =
     (if \<not> isMember ch f \<or> (ch_topicRestricted ch \<and> \<not> isOperator ch f) then ch
      else setTopic (take MAX_TOPICLEN newTopic) nick now ch)"

section \<open>Looking a channel up by name\<close>

lemma chan_eq: "map_of (w_channels w) k = Some ch \<Longrightarrow> chan w k = ch"
  by (simp add: chan_def)

lemma findChannel_cases:
  obtains (none) "findChannel L name w = None" "map_of (w_channels w) (ircToLower L name) = None"
  | (some) ch where "findChannel L name w = Some (ircToLower L name)"
      "map_of (w_channels w) (ircToLower L name) = Some ch" "chan w (ircToLower L name) = ch"
  by (cases "map_of (w_channels w) (ircToLower L name)") (auto simp: findChannel_def Let_def chan_eq)

lemma w_channels_upd_chan_look:
  "map_of (w_channels (upd_chan k g w)) j = (if j = k then map_option g (map_of (w_channels w) k) else map_of (w_channels w) j)"
  by (simp add: map_simps)

lemma removeChannel_look:
  "map_of (w_channels (removeChannel L name w)) j = (if j = ircToLower L name then None else map_of (w_channels w) j)"
  by (simp add: removeChannel_def map_simps)

section \<open>The handlers implement the specification\<close>

lemmas join_burst_frame [simp] = core_fields [OF core_join_burst]

lemma skel_core:
  fixes w w' :: "'io world"
  shows "core w' = core w \<Longrightarrow> skel w' = skel w \<and> w_channels w' = w_channels w"
  using core_eqD by blast

lemma createChannel_run:
  "createChannel L name f w =
     (if w_mem w (w_allocs w) then
        (Some (ircToLower L name),
         (snd (read_clock (snd (try_alloc w))))\<lparr>w_channels :=
            om_put (ircToLower L name) (newChannel name f (w_clock w (w_ticks w))) (w_channels w)\<rparr>)
      else (None, upd_trace (log_error (''out of memory: cannot create channel '' @ name)) (snd (try_alloc w))))"
  by (simp add: createChannel_def try_alloc_def read_clock_def Let_def)

text \<open>The channel a client creates, when there is memory for it.\<close>

definition fresh_channel :: "string \<Rightarrow> fd \<Rightarrow> 'io world \<Rightarrow> channel option" where
  "fresh_channel name f w =
     (if w_mem w (w_allocs w) then Some (newChannel name f (w_clock w (w_ticks w))) else None)"

lemma join_one_effect:
  fixes w :: "'io world"
  assumes valid: "isValidChannelName name"
  shows "map_of (w_channels (join_one L f name key w)) j =
      (if j = ircToLower L name then join_spec f key (fresh_channel name f w) (map_of (w_channels w) j)
       else map_of (w_channels w) j)"
    "skel (join_one L f name key w) = skel w"
proof -
  have "map_of (w_channels (join_one L f name key w)) j =
      (if j = ircToLower L name then join_spec f key (fresh_channel name f w) (map_of (w_channels w) j)
       else map_of (w_channels w) j) \<and> skel (join_one L f name key w) = skel w"
  proof (rule findChannel_cases [of L name w])
    assume n: "findChannel L name w = None" "map_of (w_channels w) (ircToLower L name) = None"
    let ?k = "ircToLower L name"
    show ?thesis
    proof (cases "w_mem w (w_allocs w)")
      case True
      then have "join_one L f name key w = join_burst L f name ?k
          ((snd (read_clock (snd (try_alloc w))))\<lparr>w_channels :=
            om_put ?k (newChannel name f (w_clock w (w_ticks w))) (w_channels w)\<rparr>)"
        using valid n by (simp add: join_one_def createChannel_run)
      then show ?thesis
        using n True by (simp add: map_simps join_spec_def fresh_channel_def)
    next
      case False
      then have c: "core (join_one L f name key w) = core w"
        using valid n by (simp add: join_one_def createChannel_run del: append.simps)
      show ?thesis using skel_core [OF c] n False by (simp add: join_spec_def fresh_channel_def)
    qed
  next
    fix ch
    assume s: "findChannel L name w = Some (ircToLower L name)"
      "map_of (w_channels w) (ircToLower L name) = Some ch" "chan w (ircToLower L name) = ch"
    let ?k = "ircToLower L name"
    show ?thesis
    proof (cases "isMember ch f \<or> join_refusal ch f key \<noteq> None")
      case True
      then have c: "core (join_one L f name key w) = core w"
        using valid s by (auto simp: join_one_def)
      show ?thesis using skel_core [OF c] s True by (simp add: join_spec_def)
    next
      case False
      then have "\<not> isMember ch f" "join_refusal ch f key = None" by blast+
      then have "join_one L f name key w =
          join_burst L f name ?k (upd_chan ?k (\<lambda>c. removeInvite f (addMember f c)) w)"
        using valid s by (simp add: join_one_def Let_def upd_chan_comp)
      then show ?thesis
        using s False by (simp add: w_channels_upd_chan_look join_spec_def map_simps)
    qed
  qed
  then show "map_of (w_channels (join_one L f name key w)) j =
      (if j = ircToLower L name then join_spec f key (fresh_channel name f w) (map_of (w_channels w) j)
       else map_of (w_channels w) j)"
    "skel (join_one L f name key w) = skel w" by blast+
qed

lemma join_one_invalid: "\<not> isValidChannelName name \<Longrightarrow> core (join_one L f name key w) = core w"
  by (simp add: join_one_def)

lemma leave_effect:
  fixes v w :: "'io world"
  assumes c: "core v = core w" and ch: "map_of (w_channels w) (ircToLower L name) = Some ch" and m: "isMember ch t"
  defines "w' \<equiv> (let w4 = upd_chan (ircToLower L name) (removeMember t) v
     in if isEmpty (chan w4 (ircToLower L name)) then removeChannel L name w4 else w4)"
  shows "map_of (w_channels w') j =
      (if j = ircToLower L name then leave_spec t ch else map_of (w_channels w) j)" "skel w' = skel w"
proof -
  let ?k = "ircToLower L name"
  have v: "w_channels v = w_channels w" "skel v = skel w" using core_eqD [OF c] by simp_all
  have "chan (upd_chan ?k (removeMember t) v) ?k = removeMember t ch"
    using ch v by (simp add: chan_def map_simps)
  then show "map_of (w_channels w') j = (if j = ?k then leave_spec t ch else map_of (w_channels w) j)"
    "skel w' = skel w"
    using v ch m
    by (simp_all add: w'_def Let_def removeChannel_look w_channels_upd_chan_look leave_spec_def map_simps)
qed

text \<open>\<open>PART\<close> of one channel; a name nobody uses, or a channel the client is not in, changes nothing.\<close>

lemma part_one_effect:
  fixes w :: "'io world"
  shows "map_of (w_channels (part_one L f reason name w)) j =
      (if j = ircToLower L name then Option.bind (map_of (w_channels w) j) (leave_spec f) else map_of (w_channels w) j)"
    "skel (part_one L f reason name w) = skel w"
proof -
  have "map_of (w_channels (part_one L f reason name w)) j =
      (if j = ircToLower L name then Option.bind (map_of (w_channels w) j) (leave_spec f) else map_of (w_channels w) j) \<and>
    skel (part_one L f reason name w) = skel w"
  proof (rule findChannel_cases [of L name w])
    assume n: "findChannel L name w = None" "map_of (w_channels w) (ircToLower L name) = None"
    then have c: "core (part_one L f reason name w) = core w" by (simp add: part_one_def)
    show ?thesis using skel_core [OF c] n by simp
  next
    fix ch
    assume s: "findChannel L name w = Some (ircToLower L name)"
      "map_of (w_channels w) (ircToLower L name) = Some ch" "chan w (ircToLower L name) = ch"
    let ?k = "ircToLower L name"
    show ?thesis
    proof (cases "isMember ch f")
      case False
      then have c: "core (part_one L f reason name w) = core w" using s by (simp add: part_one_def)
      show ?thesis using skel_core [OF c] s False by (simp add: leave_spec_def)
    next
      case True
      have m: "\<not> \<not> isMember (chan w ?k) f" using True s by simp
      define v where "v = each_ext (ext_onPart f ?k) (audit ''part'' (nick_of (broadcastMessage L
        ('':'' @ getPrefix (cl w f) @ '' PART '' @ ch_name (chan w ?k) @ (if reason \<noteq> [] then '' :'' @ reason else []))
        None (chan w ?k) w) f) name (broadcastMessage L
        ('':'' @ getPrefix (cl w f) @ '' PART '' @ ch_name (chan w ?k) @ (if reason \<noteq> [] then '' :'' @ reason else []))
        None (chan w ?k) w))"
      have c: "core v = core w"
        unfolding v_def by (simp only: each_ext_id core_audit core_broadcastMessage)
      have "part_one L f reason name w = (let w4 = upd_chan ?k (removeMember f) v
         in if isEmpty (chan w4 ?k) then removeChannel L name w4 else w4)"
        unfolding part_one_def s(1) option.case Let_def if_not_P [OF m] v_def ..
      then show ?thesis using leave_effect [OF c s(2) True] s(2) by simp
    qed
  qed
  then show "map_of (w_channels (part_one L f reason name w)) j =
      (if j = ircToLower L name then Option.bind (map_of (w_channels w) j) (leave_spec f) else map_of (w_channels w) j)"
    "skel (part_one L f reason name w) = skel w" by blast+
qed

lemma kick_effect:
  fixes w :: "'io world" and L :: "'io libcpp" and f :: fd and msg :: message
  assumes "matched msg"
  defines "k \<equiv> ircToLower L (field msg ''kickchans'')"
  shows "map_of (w_channels (cmdKick L f msg w)) j =
      (if j = k then Option.bind (map_of (w_channels w) j) (kick_spec L (nick_of w) f (field msg ''kickusers''))
       else map_of (w_channels w) j)"
    "skel (cmdKick L f msg w) = skel w"
proof -
  let ?name = "field msg ''kickchans''" and ?target = "field msg ''kickusers''"
  have "map_of (w_channels (cmdKick L f msg w)) j =
      (if j = k then Option.bind (map_of (w_channels w) j) (kick_spec L (nick_of w) f ?target)
       else map_of (w_channels w) j) \<and> skel (cmdKick L f msg w) = skel w"
  proof (rule findChannel_cases [of L ?name w])
    assume n: "findChannel L ?name w = None" "map_of (w_channels w) (ircToLower L ?name) = None"
    then have c: "core (cmdKick L f msg w) = core w" using assms(1) by (simp add: cmdKick_def)
    show ?thesis using skel_core [OF c] n by (simp add: k_def)
  next
    fix ch
    assume s: "findChannel L ?name w = Some (ircToLower L ?name)"
      "map_of (w_channels w) (ircToLower L ?name) = Some ch" "chan w (ircToLower L ?name) = ch"
    show ?thesis
    proof (cases "isMember ch f \<and> isOperator ch f \<and> findMember L (nick_of w) ?target ch \<noteq> None")
      case False
      then have c: "core (cmdKick L f msg w) = core w"
        using s assms(1) by (auto simp: cmdKick_def Let_def split: option.split)
      show ?thesis
        using skel_core [OF c] s False by (auto simp: k_def kick_spec_def split: option.split)
    next
      case True
      then obtain t where t: "findMember L (nick_of w) ?target ch = Some t" by blast
      have m: "isMember ch t" using findMember_member [OF t] .
      have "\<exists>msg'. cmdKick L f msg w = (let w4 = upd_chan (ircToLower L ?name) (removeMember t)
           (broadcastMessage L msg' None ch w)
         in if isEmpty (chan w4 (ircToLower L ?name)) then removeChannel L ?name w4 else w4)"
        using True t s assms(1) by (simp add: cmdKick_def Let_def del: append.simps) blast
      then obtain m' where run: "cmdKick L f msg w = (let w4 = upd_chan (ircToLower L ?name) (removeMember t)
           (broadcastMessage L m' None ch w)
         in if isEmpty (chan w4 (ircToLower L ?name)) then removeChannel L ?name w4 else w4)"
        by blast
      have c: "core (broadcastMessage L m' None ch w) = core w" by simp
      show ?thesis
        using leave_effect [OF c s(2) m] s(2) t True by (simp add: run k_def kick_spec_def)
    qed
  qed
  then show "map_of (w_channels (cmdKick L f msg w)) j =
      (if j = k then Option.bind (map_of (w_channels w) j) (kick_spec L (nick_of w) f ?target)
       else map_of (w_channels w) j)" "skel (cmdKick L f msg w) = skel w" by blast+
qed

lemma om_upd_same: "map_of m k = Some ch \<Longrightarrow> g ch = ch \<Longrightarrow>
  map_of m j = (if j = k then map_option g (map_of m k) else map_of m j)"
  by simp

lemma invite_effect:
  fixes w :: "'io world" and L :: "'io libcpp" and f :: fd and msg :: message
  assumes "matched msg"
  defines "k \<equiv> ircToLower L (field msg ''invchan'')"
  shows "map_of (w_channels (cmdInvite L f msg w)) j =
      (if j = k then map_option (invite_spec f (findClientByNick L (field msg ''invnick'') w)) (map_of (w_channels w) j)
       else map_of (w_channels w) j)"
    "skel (cmdInvite L f msg w) = skel w"
proof -
  let ?name = "field msg ''invchan''" and ?t = "findClientByNick L (field msg ''invnick'') w"
  have "map_of (w_channels (cmdInvite L f msg w)) j =
      (if j = k then map_option (invite_spec f ?t) (map_of (w_channels w) j) else map_of (w_channels w) j) \<and>
    skel (cmdInvite L f msg w) = skel w"
  proof (rule findChannel_cases [of L ?name w])
    assume n: "findChannel L ?name w = None" "map_of (w_channels w) (ircToLower L ?name) = None"
    then have c: "core (cmdInvite L f msg w) = core w" using assms(1) by (simp add: cmdInvite_def)
    show ?thesis using skel_core [OF c] n by (simp add: k_def)
  next
    fix ch
    assume s: "findChannel L ?name w = Some (ircToLower L ?name)"
      "map_of (w_channels w) (ircToLower L ?name) = Some ch" "chan w (ircToLower L ?name) = ch"
    show ?thesis
    proof (cases "invite_spec f ?t ch = ch \<and> core (cmdInvite L f msg w) = core w")
      case True
      then have c: "core (cmdInvite L f msg w) = core w" by simp
      show ?thesis using skel_core [OF c] s(2) True by (simp add: k_def)
    next
      case False
      then have g: "isMember ch f" "\<not> (ch_inviteOnly ch \<and> \<not> isOperator ch f)" "?t \<noteq> None"
          "\<not> isMember ch (the ?t)"
        using s assms(1)
        by (auto simp: cmdInvite_def Let_def invite_spec_def split: option.splits if_splits)
      then obtain t where t: "?t = Some t" "\<not> isMember ch t" by auto
      have "\<exists>n p m. cmdInvite L f msg w = queueMessage L t m (sendReply L f n p (upd_chan (ircToLower L ?name) (addInvite t) w))"
        using g t s assms(1) by (simp add: cmdInvite_def Let_def del: append.simps) blast
      then obtain n p m where run: "cmdInvite L f msg w =
          queueMessage L t m (sendReply L f n p (upd_chan (ircToLower L ?name) (addInvite t) w))" by blast
      have "invite_spec f ?t ch = addInvite t ch" using g t by (auto simp: invite_spec_def)
      then show ?thesis
        using s(2) by (simp add: run k_def map_simps)
    qed
  qed
  then show "map_of (w_channels (cmdInvite L f msg w)) j =
      (if j = k then map_option (invite_spec f ?t) (map_of (w_channels w) j) else map_of (w_channels w) j)"
    "skel (cmdInvite L f msg w) = skel w" by blast+
qed

lemma topic_effect:
  fixes w :: "'io world" and L :: "'io libcpp" and f :: fd and msg :: message
  assumes "2 \<le> length (m_params msg)" and "m_params msg ! 0 \<noteq> []"
  defines "k \<equiv> ircToLower L (m_params msg ! 0)"
    and "text \<equiv> (if matched msg then field msg ''topictext'' else m_params msg ! 1)"
  shows "map_of (w_channels (cmdTopic L f msg w)) j =
      (if j = k then map_option (topic_spec f text (nick_of w f) (w_clock w (w_ticks w))) (map_of (w_channels w) j)
       else map_of (w_channels w) j)"
    "skel (cmdTopic L f msg w) = skel w"
proof -
  let ?name = "m_params msg ! 0" and ?g = "topic_spec f text (nick_of w f) (w_clock w (w_ticks w))"
  have p: "m_params msg \<noteq> []" "length (m_params msg) \<noteq> 1" using assms(1) by auto
  have "map_of (w_channels (cmdTopic L f msg w)) j =
      (if j = k then map_option ?g (map_of (w_channels w) j) else map_of (w_channels w) j) \<and>
    skel (cmdTopic L f msg w) = skel w"
  proof (rule findChannel_cases [of L ?name w])
    assume n: "findChannel L ?name w = None" "map_of (w_channels w) (ircToLower L ?name) = None"
    then have c: "core (cmdTopic L f msg w) = core w" using p assms(2) by (simp add: cmdTopic_def)
    show ?thesis using skel_core [OF c] n by (simp add: k_def)
  next
    fix ch
    assume s: "findChannel L ?name w = Some (ircToLower L ?name)"
      "map_of (w_channels w) (ircToLower L ?name) = Some ch" "chan w (ircToLower L ?name) = ch"
    show ?thesis
    proof (cases "\<not> isMember ch f \<or> (ch_topicRestricted ch \<and> \<not> isOperator ch f)")
      case True
      then have c: "core (cmdTopic L f msg w) = core w" using s p assms(2) by (auto simp: cmdTopic_def Let_def)
      show ?thesis using skel_core [OF c] s(2) True by (auto simp: k_def topic_spec_def)
    next
      case False
      let ?w1 = "snd (read_clock w)"
      have now: "fst (read_clock w) = w_clock w (w_ticks w)" by (simp add: read_clock_def)
      have "\<exists>m x. cmdTopic L f msg w = broadcastMessage L m None x
          (upd_chan (ircToLower L ?name) (setTopic (take MAX_TOPICLEN text) (nick_of w f) (w_clock w (w_ticks w))) ?w1)"
        using False s p assms(2)
        by (auto simp: cmdTopic_def Let_def case_prod_beta text_def now simp del: append.simps)
      then obtain m x where run: "cmdTopic L f msg w = broadcastMessage L m None x
          (upd_chan (ircToLower L ?name) (setTopic (take MAX_TOPICLEN text) (nick_of w f) (w_clock w (w_ticks w))) ?w1)"
        by blast
      have "?g ch = setTopic (take MAX_TOPICLEN text) (nick_of w f) (w_clock w (w_ticks w)) ch"
        using False by (auto simp: topic_spec_def)
      then show ?thesis using s(2) by (simp add: run k_def map_simps)
    qed
  qed
  then show "map_of (w_channels (cmdTopic L f msg w)) j =
      (if j = k then map_option ?g (map_of (w_channels w) j) else map_of (w_channels w) j)"
    "skel (cmdTopic L f msg w) = skel w" by blast+
qed

end
