(* ===== verification/Delivery.thy ===== *)
theory Delivery
  imports Demo
begin

text \<open>
  Who is sent which line.  The send queue of a client is inside its socket, so the lemmas
  say which clients' sockets got which line queued: one reply for one client, one line for
  each member of a channel, one line for each client that shares a channel.
\<close>

definition io_of :: "'io world \<Rightarrow> fd \<Rightarrow> 'io" where
  "io_of w f = cl_io (cl w f)"

definition queued :: "'io libcpp \<Rightarrow> string \<Rightarrow> 'io \<Rightarrow> 'io" where
  "queued L msg io = io_queue L io (wire_of msg)"

definition connected :: "'io world \<Rightarrow> fd \<Rightarrow> bool" where
  "connected w f \<longleftrightarrow> map_of (w_clients w) f \<noteq> None"

lemma connected_keys: "connected w f \<longleftrightarrow> f \<in> set (map fst (w_clients w))"
  unfolding connected_def om_keys_look ..

lemma connected_frame [simp]:
  "connected (queueMessage L f msg w) j = connected w j"
  "connected (sendReply L f n p w) j = connected w j"
  unfolding connected_keys by simp_all

lemma io_queueMessage:
  assumes "connected w f"
  shows "io_of (queueMessage L f msg w) j = (if j = f then queued L msg (io_of w f) else io_of w j)"
proof -
  have t: "cl (upd_trace g v) i = cl v i" for g i and v :: "'a world" by (simp add: cl_def upd_trace_def)
  show ?thesis
    using assms by (simp add: io_of_def queueMessage_def t cl_upd_client connected_def queued_def conn_queue_def)
qed

lemma io_sendReply:
  assumes "connected w f"
  shows "io_of (sendReply L f numeric params w) j =
    (if j = f then queued L ('':'' @ SERVER_NAME @ '' '' @ numeric @ '' '' @ nick_of w f @ '' '' @ params) (io_of w f)
     else io_of w j)"
  unfolding sendReply_def by (rule io_queueMessage [OF assms])

section \<open>One line for each member of a channel\<close>

lemma io_broadcast_loop:
  assumes "distinct fs" and "\<forall>f \<in> set fs. connected w f"
  shows "io_of (foldl (\<lambda>w f. if exclude = Some f then w else queueMessage L f msg w) w fs) j =
    (if j \<in> set fs \<and> exclude \<noteq> Some j then queued L msg (io_of w j) else io_of w j)"
  using assms
proof (induction fs arbitrary: w)
  case (Cons f fs)
  let ?w = "if exclude = Some f then w else queueMessage L f msg w"
  have "\<forall>f \<in> set fs. connected ?w f" using Cons.prems by simp
  then have IH: "io_of (foldl (\<lambda>w f. if exclude = Some f then w else queueMessage L f msg w) ?w fs) j =
      (if j \<in> set fs \<and> exclude \<noteq> Some j then queued L msg (io_of ?w j) else io_of ?w j)"
    using Cons.IH [of ?w] Cons.prems by simp
  have "io_of ?w j = (if j = f \<and> exclude \<noteq> Some f then queued L msg (io_of w f) else io_of w j)"
    using Cons.prems io_queueMessage [of w f L msg j] by auto
  then show ?case unfolding foldl_Cons IH using Cons.prems(1) by auto
qed simp

lemma io_broadcast:
  assumes "os_ok (ch_members ch)" and "\<forall>f \<in> set (ch_members ch). connected w f"
  shows "io_of (broadcastMessage L msg exclude ch w) j =
    (if isMember ch j \<and> exclude \<noteq> Some j then queued L msg (io_of w j) else io_of w j)"
proof -
  have "distinct (ch_members ch)" using assms(1) by (simp add: strict_sorted_iff)
  then show ?thesis
    unfolding broadcastMessage_def isMember_def by (rule io_broadcast_loop [OF _ assms(2)])
qed

section \<open>One line for each neighbour\<close>

lemma io_send_once:
  assumes "\<forall>f \<in> set fs. connected (snd st) f \<and> cl_fd (cl (snd st) f) = f"
  shows "fst (send_once L msg st fs) = fst st \<union> set fs"
    "io_of (snd (send_once L msg st fs)) j =
      (if j \<in> set fs \<and> j \<notin> fst st then queued L msg (io_of (snd st) j) else io_of (snd st) j)"
proof -
  have "fst (send_once L msg st fs) = fst st \<union> set fs \<and> io_of (snd (send_once L msg st fs)) j =
      (if j \<in> set fs \<and> j \<notin> fst st then queued L msg (io_of (snd st) j) else io_of (snd st) j)"
    using assms
  proof (induction fs arbitrary: st)
    case Nil
    then show ?case by (simp add: send_once_def)
  next
    case (Cons f fs)
    obtain sent w where st: "st = (sent, w)" by (cases st)
    have f: "connected w f" "cl_fd (cl w f) = f" using Cons.prems st by simp_all
    let ?st = "if f \<in> sent then (sent, w) else (insert f sent, queueMessage L f msg w)"
    have run: "send_once L msg st (f # fs) = send_once L msg ?st fs"
      by (simp add: send_once_def st f(2) Let_def)
    have "\<forall>g \<in> set fs. connected (snd ?st) g \<and> cl_fd (cl (snd ?st) g) = g"
      using Cons.prems st by simp
    note IH = Cons.IH [OF this]
    show ?case
      unfolding run using IH io_queueMessage [OF f(1), of L msg j] by (auto simp: st)
  qed
  then show "fst (send_once L msg st fs) = fst st \<union> set fs"
    "io_of (snd (send_once L msg st fs)) j =
      (if j \<in> set fs \<and> j \<notin> fst st then queued L msg (io_of (snd st) j) else io_of (snd st) j)"
    by blast+
qed

text \<open>The clients that share one of the channels in \<open>ks\<close> with \<open>f\<close>.\<close>

definition neighbours :: "'io world \<Rightarrow> fd \<Rightarrow> string list \<Rightarrow> fd set" where
  "neighbours w f ks = {j. \<exists>k \<in> set ks. isMember (chan w k) f \<and> isMember (chan w k) j}"

lemma neighbours_Cons:
  "neighbours w f (k # ks) = (if isMember (chan w k) f then set (ch_members (chan w k)) else {}) \<union> neighbours w f ks"
  by (auto simp: neighbours_def isMember_def)

lemma io_neighbours_loop:
  assumes "\<forall>k \<in> set ks. \<forall>f \<in> set (ch_members (chan (snd st) k)). connected (snd st) f \<and> cl_fd (cl (snd st) f) = f"
  shows "io_of (snd (foldl (\<lambda>(alreadySent, w) k. let ch = chan w k
            in if \<not> isMember ch f then (alreadySent, w) else send_once L msg (alreadySent, w) (ch_members ch)) st ks)) j =
      (if j \<in> neighbours (snd st) f ks \<and> j \<notin> fst st then queued L msg (io_of (snd st) j) else io_of (snd st) j)"
  using assms
proof (induction ks arbitrary: st)
  case Nil
  then show ?case by (simp add: neighbours_def)
next
  case (Cons k ks)
  obtain sent w where st: "st = (sent, w)" by (cases st)
  let ?ch = "chan w k"
  let ?st = "if \<not> isMember ?ch f then (sent, w) else send_once L msg (sent, w) (ch_members ?ch)"
  let ?step = "\<lambda>(alreadySent, w) k. let ch = chan w k
            in if \<not> isMember ch f then (alreadySent, w) else send_once L msg (alreadySent, w) (ch_members ch)"
  have run: "foldl ?step st (k # ks) = foldl ?step ?st ks" by (simp add: st Let_def)
  have core: "core (snd ?st) = core w" by simp
  have same: "chan (snd ?st) i = chan w i" "cl_fd (cl (snd ?st) g) = cl_fd (cl w g)" for i g
    using core_views(4) [OF core] skel_cl_fields(1) [OF core_eqD(1) [OF core]] by blast+
  have con: "connected (snd ?st) g = connected w g" for g
    using core_views(5) [OF core] unfolding connected_keys by simp
  have nb: "neighbours (snd ?st) f ks = neighbours w f ks" by (simp only: neighbours_def same)
  have mem: "\<forall>g \<in> set (ch_members ?ch). connected w g \<and> cl_fd (cl w g) = g" using Cons.prems st by simp
  have "\<forall>k \<in> set ks. \<forall>g \<in> set (ch_members (chan (snd ?st) k)). connected (snd ?st) g \<and> cl_fd (cl (snd ?st) g) = g"
    unfolding same con using Cons.prems st by simp
  note IH = Cons.IH [OF this]
  have first: "fst ?st = (if isMember ?ch f then sent \<union> set (ch_members ?ch) else sent)"
    "io_of (snd ?st) j = (if isMember ?ch f \<and> j \<in> set (ch_members ?ch) \<and> j \<notin> sent
       then queued L msg (io_of w j) else io_of w j)"
    using io_send_once(1) [of "ch_members ?ch" "(sent, w)" L msg]
      io_send_once(2) [of "ch_members ?ch" "(sent, w)" L msg j] mem by auto
  have "io_of (snd (foldl ?step st (k # ks))) j = io_of (snd (foldl ?step ?st ks)) j" by (simp only: run)
  also have "\<dots> = (if j \<in> neighbours w f ks \<and> j \<notin> fst ?st then queued L msg (io_of (snd ?st) j)
      else io_of (snd ?st) j)"
    using IH by (simp only: nb)
  finally show ?case
    using first by (auto simp: st neighbours_Cons isMember_def)
qed

lemma io_broadcastToChannels:
  assumes ok: "world_ok L w" and f: "f \<in> live w"
  shows "io_of (broadcastToChannels L f msg w) j =
    (if j \<in> neighbours w f (om_keys (w_channels w)) \<and> j \<noteq> f then queued L msg (io_of w j) else io_of w j)"
proof -
  have "connected w g \<and> cl_fd (cl w g) = g"
    if k: "k \<in> set (om_keys (w_channels w))" and g: "g \<in> set (ch_members (chan w k))" for k g
  proof -
    obtain ch where ch: "map_of (w_channels w) k = Some ch" using k unfolding om_keys_look by blast
    then have "g \<in> users w" using chan_wf_look [OF ok ch] g by (auto simp: chan_wf_def chan_def)
    then show ?thesis using users_liveD [of g w] world_ok_fd [OF ok, of g] by (simp add: connected_def live_cl)
  qed
  then show ?thesis
    unfolding broadcastToChannels_def
    by (subst io_neighbours_loop) (use world_ok_fd [OF ok f] in simp_all)
qed

end
