(* ===== verification/Channel_Properties.thy ===== *)
theory Channel_Properties
  imports Command_Effects Delivery
begin

text \<open>
  The properties of channels: each command that changes a channel implements its entry in
  the abstract specification of theory \<open>Command_Effects\<close>, and the lines that go out reach
  the right clients, whole and once.
\<close>

section \<open>Commands implement their specification\<close>

text \<open>
  C10.  One entry of \<open>JOIN\<close> does to the channel table what \<open>join_spec\<close> says and nothing
  else: a channel that does not exist is created with the client as its operator, an
  existing one takes the client in, and uses up its invitation, unless it refuses; no
  other channel and no client's data changes.
\<close>

theorem join_refines:
  fixes w :: "'io world" and L :: "'io libcpp"
  assumes "isValidChannelName name"
  defines "k \<equiv> ircToLower L name"
  shows "map_of (w_channels (join_one L f name key w)) =
      (map_of (w_channels w))(k := join_spec f key (fresh_channel name f w) (map_of (w_channels w) k)) \<and>
    skel (join_one L f name key w) = skel w"
  using join_one_effect [OF assms(1), of L f key w] by (auto simp: fun_eq_iff k_def)

lemma demo_name: "isValidChannelName ''#C''" "isValidChannelName ''#new''"
    "ircToLower mini_lib ''#C'' = ''#c''" "ircToLower mini_lib ''#c'' = ''#c''" "ircToLower mini_lib ''#new'' = ''#new''"
  unfolding ircToLower_def by code_simp+

theorem join_refines_witness:
  "map_of (w_channels (join_one mini_lib 5 ''#new'' [] demo_world)) ''#new'' = Some (newChannel ''#new'' 5 100)"
  using join_refines [OF demo_name(2), of mini_lib 5 "[]" demo_world]
  by (simp add: demo_name demo_channels join_spec_def fresh_channel_def) (simp add: demo_world_def)

text \<open>
  C11.  Nobody gets past the modes of a channel: a client that was not in an existing
  channel and is after \<open>JOIN\<close> was invited if the channel is \<open>+i\<close>, gave the key if it is
  \<open>+k\<close>, and the channel is still within its \<open>+l\<close> limit with the newcomer in it.
\<close>

theorem join_respects_modes:
  assumes "world_ok L w" and "map_of (w_channels w) k = Some ch" and "\<not> isMember ch f"
    and "map_of (w_channels (join_one L f name key w)) k = Some ch'" and "isMember ch' f"
  shows "(ch_inviteOnly ch \<longrightarrow> isInvited ch f) \<and> (ch_key ch \<noteq> [] \<longrightarrow> key = ch_key ch) \<and>
    (0 < ch_userLimit ch \<longrightarrow> getMemberCount ch' \<le> ch_userLimit ch) \<and>
    (\<forall>j. isMember ch' j \<longleftrightarrow> j = f \<or> isMember ch j)"
proof (cases "isValidChannelName name")
  case False
  then show ?thesis
    using join_one_invalid [OF False, of L f key w, THEN skel_core] assms(2-5) by simp
next
  case True
  have e: "Some ch' = (if k = ircToLower L name then join_spec f key (fresh_channel name f w) (Some ch) else Some ch)"
    using join_one_effect(1) [OF True, of L f key w k] unfolding assms(2,4) .
  have r: "join_refusal ch f key = None" "ch' = removeInvite f (addMember f ch)"
    using e assms(3,5) by (cases "join_refusal ch f key"; auto simp: join_spec_def split: if_splits)+
  have o: "os_ok (ch_members ch)" using chan_wf_look [OF assms(1,2)] by (simp add: chan_wf_def chan_ok_def)
  have "getMemberCount ch' = getMemberCount (addMember f ch)" "isMember ch' j = isMember (addMember f ch) j" for j
    by (simp_all add: r(2) removeInvite_def getMemberCount_def isMember_def)
  then show ?thesis
    using r(1) members.count_add [OF o, of f] members.mem_add [of f ch] assms(3)
    by (auto simp: join_refusal_def split: if_splits)
qed

theorem join_respects_modes_witness:
  "getMemberCount (removeInvite 6 (addMember 6 demo_channel)) \<le> ch_userLimit demo_channel"
proof -
  have "map_of (w_channels (join_one mini_lib 6 ''#c'' [] demo_world)) ''#c'' = Some (removeInvite 6 (addMember 6 demo_channel))"
    using join_one_effect(1) [of "''#c''" mini_lib 6 "[]" demo_world "''#c''"] demo_name(4)
    by (simp add: demo_channels join_spec_def demo_channel_def isMember_def join_refusal_def getMemberCount_def
        isValidChannelName_def limit_defs)
  then show ?thesis
    using join_respects_modes [OF demo_ok, of "''#c''" demo_channel 6 "''#c''" "[]"]
    by (simp add: demo_channels demo_channel_def isMember_def addMember_def removeInvite_def os_ins_def)
qed

text \<open>
  C12.  \<open>PART\<close> of a channel removes the client from it, deletes the channel if that leaves it
  empty, and changes nothing when there is no such channel or the client is not in it.
\<close>

theorem part_refines:
  fixes w :: "'io world"
  shows "map_of (w_channels (part_one L f reason name w)) =
      (map_of (w_channels w))(ircToLower L name := Option.bind (map_of (w_channels w) (ircToLower L name)) (leave_spec f)) \<and>
    skel (part_one L f reason name w) = skel w"
  using part_one_effect [of L f reason name w] by (auto simp: fun_eq_iff)

text \<open>
  C13.  \<open>KICK\<close> works only for an operator who is in the channel, and only on a member: then
  the member leaves, and the channel goes with its last one.  Everything else is left alone.
\<close>

theorem kick_refines:
  fixes w :: "'io world" and L :: "'io libcpp" and msg :: message
  assumes "matched msg"
  defines "k \<equiv> ircToLower L (field msg ''kickchans'')"
  shows "map_of (w_channels (cmdKick L f msg w)) =
      (map_of (w_channels w))(k := Option.bind (map_of (w_channels w) k)
         (kick_spec L (nick_of w) f (field msg ''kickusers''))) \<and>
    skel (cmdKick L f msg w) = skel w"
  using kick_effect [OF assms(1), of L f w] by (auto simp: fun_eq_iff k_def)

theorem kick_refines_witness:
  "map_of (w_channels (cmdKick mini_lib 5 (demo_msg ''KICK'' [(''kickchans'', ''#C''), (''kickusers'', ''alice'')]) demo_world))
     ''#c'' = Some demo_channel"
  using kick_refines [of "demo_msg ''KICK'' [(''kickchans'', ''#C''), (''kickusers'', ''alice'')]" mini_lib 5 demo_world]
  by (simp add: demo_name demo_channels kick_spec_def) (simp add: demo_channel_def isOperator_def)

text \<open>
  C14.  \<open>INVITE\<close> adds the target to the channel's invite list if the client is a member (an
  operator where the channel is \<open>+i\<close>) and the target is a registered client that is not in
  the channel; otherwise nothing changes.
\<close>

theorem invite_refines:
  fixes w :: "'io world" and L :: "'io libcpp" and msg :: message
  assumes "matched msg"
  defines "k \<equiv> ircToLower L (field msg ''invchan'')"
  shows "map_of (w_channels (cmdInvite L f msg w)) =
      (map_of (w_channels w))(k := map_option (invite_spec f (findClientByNick L (field msg ''invnick'') w))
         (map_of (w_channels w) k)) \<and>
    skel (cmdInvite L f msg w) = skel w"
  using invite_effect [OF assms(1), of L f w] by (auto simp: fun_eq_iff k_def)

theorem invite_refines_witness:
  "map_of (w_channels (cmdInvite mini_lib 6 (demo_msg ''INVITE'' [(''invnick'', ''bob''), (''invchan'', ''#C'')]) demo_world))
     ''#c'' = Some demo_channel"
  using invite_refines [of "demo_msg ''INVITE'' [(''invnick'', ''bob''), (''invchan'', ''#C'')]" mini_lib 6 demo_world]
  by (simp add: demo_name demo_channels invite_spec_def) (simp add: demo_channel_def isMember_def)

text \<open>
  C15.  \<open>TOPIC\<close> with a text sets the topic, cut to \<open>TOPICLEN\<close>, with the client's nickname
  and the time, if the client is a member and, where the channel is \<open>+t\<close>, an operator.
\<close>

theorem topic_refines:
  fixes w :: "'io world" and L :: "'io libcpp" and msg :: message
  assumes "2 \<le> length (m_params msg)" and "m_params msg ! 0 \<noteq> []"
  defines "k \<equiv> ircToLower L (m_params msg ! 0)"
    and "text \<equiv> (if matched msg then field msg ''topictext'' else m_params msg ! 1)"
  shows "map_of (w_channels (cmdTopic L f msg w)) =
      (map_of (w_channels w))(k := map_option (topic_spec f text (nick_of w f) (w_clock w (w_ticks w)))
         (map_of (w_channels w) k)) \<and>
    skel (cmdTopic L f msg w) = skel w"
  using topic_effect [OF assms(1,2), of L f w] by (auto simp: fun_eq_iff k_def text_def)

theorem topic_refines_witness:
  "map_of (w_channels (cmdTopic mini_lib 4 (demo_plain ''TOPIC'' [''#C'', ''news'']) demo_world)) ''#c'' =
     Some (setTopic ''news'' ''alice'' 100 demo_channel)"
  using topic_refines [of "demo_plain ''TOPIC'' [''#C'', ''news'']" mini_lib 4 demo_world]
  by (simp add: demo_name demo_channels topic_spec_def demo_cl)
    (simp add: demo_channel_def isMember_def isOperator_def limit_defs demo_conn_def demo_world_def)

text \<open>
  C16.  The modes of a channel are its operators' business: a \<open>MODE\<close> on a channel by anybody
  else, whatever its mode string and parameters, only draws replies.
\<close>

theorem mode_needs_operator:
  fixes w :: "'io world"
  assumes "is_channel_target (m_params msg ! 0)" and "findChannel L (m_params msg ! 0) w = Some k"
    and "\<not> (isMember (chan w k) f \<and> isOperator (chan w k) f)"
  shows "core (cmdMode L f msg w) = core w"
  using assms by (auto simp: cmdMode_def handleChannelMode_def Let_def)

theorem mode_needs_operator_witness:
  "core (cmdMode mini_lib 5 (demo_plain ''MODE'' [''#c'', ''+ik-t'', ''secret'']) demo_world) = core demo_world"
  by (rule mode_needs_operator [where k = "''#c''"])
    (simp_all add: is_channel_target_def findChannel_def demo_name demo_channels chan_def demo_channel_def isOperator_def)

section \<open>What goes out\<close>

lemma names_entry_length:
  assumes "world_ok L w" and "f \<in> users w"
  shows "names_entry (nick_of w) ch f \<noteq> []" "length (names_entry (nick_of w) ch f) \<le> 10" "length (nick_of w f) \<le> 9"
proof -
  have "isValidNickname (nick_of w f)" "length (nick_of w f) \<le> MAX_NICKLEN"
    using client_ok_cl [OF assms(1) users_liveD [OF assms(2)]] assms(2)
    by (auto simp: client_ok_def truncate_fields users_cl)
  then show "names_entry (nick_of w) ch f \<noteq> []" "length (names_entry (nick_of w) ch f) \<le> 10" "length (nick_of w f) \<le> 9"
    by (auto simp: names_entry_def limit_defs isValidNickname_def)
qed

text \<open>
  C17.  The member list a joining client gets is complete and whole: the chunks are the
  members' entries in order, cut between entries and never inside one, and no line of the
  list is longer than the 510 bytes that fit on the wire.
\<close>

theorem names_complete:
  fixes w :: "'io world" and f :: fd and ch :: channel and name :: string
  assumes "world_ok L w" and "map_of (w_channels w) k = Some ch" and "f \<in> users w"
    and "length name \<le> MAX_CHANNELLEN"
  defines "namesHead \<equiv> ''= '' @ name @ '' :''"
  defines "chunks \<equiv> getNamesChunks (nick_of w) (names_budget (nick_of w f) namesHead) ch"
  shows "(\<exists>groups. chunks = map join_words groups \<and> [] \<notin> set groups \<and>
      concat groups = map (names_entry (nick_of w) ch) (ch_members ch)) \<and>
    (\<forall>chunk \<in> set chunks.
       length ('':'' @ SERVER_NAME @ '' '' @ RPL_NAMREPLY @ '' '' @ nick_of w f @ '' '' @ namesHead @ chunk) \<le> 510)"
proof -
  let ?es = "map (names_entry (nick_of w) ch) (ch_members ch)"
  let ?b = "names_budget (nick_of w f) namesHead"
  have mem: "set (ch_members ch) \<subseteq> users w" "ch_members ch \<noteq> []"
    using chan_wf_look [OF assms(1,2)] by (auto simp: chan_wf_def chan_ok_def)
  have es: "\<forall>e \<in> set ?es. e \<noteq> [] \<and> length e \<le> 10" "?es \<noteq> []"
    using names_entry_length [OF assms(1)] mem by auto
  have nick: "length (nick_of w f) \<le> 9" by (rule names_entry_length(3) [OF assms(1,3)])
  have b: "10 \<le> ?b" "?b + (1 + length SERVER_NAME + 1 + 3 + 1 + length (nick_of w f) + 1 + length namesHead) = 510"
    using nick assms(4) by (simp_all add: names_budget_def Let_def limit_defs namesHead_def SERVER_NAME_def)
  obtain groups where g: "names_loop ?b ?es [] [] = map join_words groups" "concat groups = ?es" "[] \<notin> set groups"
    using names_loop_groups [of ?es "[]" "[]" ?b "[]"] es(1) by auto
  have run: "chunks = names_loop ?b ?es [] []"
    using names_loop_nonempty [of ?es "[]" ?b "[]"] es by (simp add: chunks_def getNamesChunks_def Let_def)
  have "\<forall>e \<in> set ?es. length e \<le> ?b" using es(1) b(1) by auto
  then have "\<forall>c \<in> set chunks. length c \<le> ?b"
    unfolding run by (rule names_loop_bound) simp_all
  then have "\<forall>c \<in> set chunks. length ('':'' @ SERVER_NAME @ '' '' @ RPL_NAMREPLY @ '' '' @ nick_of w f @ '' '' @ namesHead @ c) \<le> 510"
    using b(2) by (auto simp: RPL_NAMREPLY_def)
  then show ?thesis using g run by auto
qed

theorem names_complete_witness:
  "\<exists>groups. getNamesChunks (nick_of demo_world) (names_budget (nick_of demo_world 5) (''= '' @ ''#c'' @ '' :'')) demo_channel =
     map join_words groups \<and> concat groups = [''@alice'', ''bob'']"
  using names_complete [OF demo_ok, of "''#c''" demo_channel 5 "''#c''"]
  by (auto simp: demo_channels demo_live limit_defs names_entry_def demo_cl demo_conn_def demo_channel_def)

text \<open>
  C18.  The lines that announce a mode change say all of it: the changes are cut into
  consecutive non-empty groups, one line each, a client that reads the letters of the lines
  with their signs gets back exactly the changes in order, and no line is over 510 bytes
  unless a single change is.
\<close>

theorem mode_lines_roundtrip:
  assumes "\<forall>mc \<in> set applied. mc_letter mc \<noteq> CHR ''+'' \<and> mc_letter mc \<noteq> CHR ''-''"
  shows "\<exists>groups. renderModeLines head applied = map (group_line head) groups \<and> [] \<notin> set groups \<and>
     concat (map (\<lambda>g. read_modes True (modes_text None g)) groups) =
       map (\<lambda>mc. (mc_adding mc, mc_letter mc)) applied \<and>
     concat (map (map mc_param) groups) = map mc_param applied \<and>
     (\<forall>g \<in> set groups. length (group_line head g) \<le> 510 \<or> length g = 1)"
proof -
  obtain groups where g: "renderModeLines head applied = map (group_line head) groups" "concat groups = applied"
      "[] \<notin> set groups" "\<forall>g \<in> set groups. length (group_line head g) \<le> 510 \<or> length g = 1"
    using renderModeLines_groups by blast
  have "map (\<lambda>g. read_modes True (modes_text None g)) groups =
      map (map (\<lambda>mc. (mc_adding mc, mc_letter mc))) groups"
    using assms g(2) by (intro map_cong refl read_modes_text) auto
  then have "concat (map (\<lambda>g. read_modes True (modes_text None g)) groups) =
      map (\<lambda>mc. (mc_adding mc, mc_letter mc)) (concat groups)"
    by (simp only: map_concat)
  moreover have "concat (map (map mc_param) groups) = map mc_param applied"
    unfolding g(2) [symmetric] by (simp only: map_concat)
  ultimately show ?thesis using g by (intro exI [of _ groups]) simp
qed

theorem mode_lines_roundtrip_witness:
  "\<exists>groups. renderModeLines '':s MODE #c '' [ModeChange True (CHR ''k'') ''key'', ModeChange False (CHR ''i'') []] =
      map (group_line '':s MODE #c '') groups \<and>
    concat (map (\<lambda>g. read_modes True (modes_text None g)) groups) = [(True, CHR ''k''), (False, CHR ''i'')]"
  using mode_lines_roundtrip [of "[ModeChange True (CHR ''k'') ''key'', ModeChange False (CHR ''i'') []]" "'':s MODE #c ''"]
  by auto

text \<open>
  C19.  A line broadcast to a channel is queued exactly once for each member but the excluded
  one, cut to the wire's limit, and for nobody else.
\<close>

theorem broadcast_delivery:
  assumes "world_ok L w" and "map_of (w_channels w) k = Some ch"
  shows "io_of (broadcastMessage L msg exclude ch w) j =
    (if isMember ch j \<and> exclude \<noteq> Some j then io_queue L (io_of w j) (wire_of msg) else io_of w j)"
proof -
  have "os_ok (ch_members ch)" "set (ch_members ch) \<subseteq> users w"
    using chan_wf_look [OF assms] by (auto simp: chan_wf_def chan_ok_def)
  then have "\<forall>f \<in> set (ch_members ch). connected w f" by (auto simp: users_cl connected_def)
  then show ?thesis
    using io_broadcast [of ch w L msg exclude j] \<open>os_ok (ch_members ch)\<close> by (simp add: queued_def)
qed

theorem broadcast_delivery_witness:
  "io_of (broadcastMessage mini_lib ''hi'' (Some 4) demo_channel demo_world) 5 =
     io_queue mini_lib (io_of demo_world 5) ''hi''"
  by (subst broadcast_delivery [OF demo_ok, of "''#c''"])
    (simp_all add: demo_channels isMember_def demo_channel_def wire_of_def limit_defs)

text \<open>
  C20.  A change of nickname or a \<open>QUIT\<close> is told once to each client that shares a channel
  with the one concerned, however many channels they share, and to nobody else.
\<close>

theorem neighbours_told_once:
  assumes "world_ok L w" and "f \<in> live w"
  shows "io_of (broadcastToChannels L f msg w) j =
    (if j \<noteq> f \<and> (\<exists>k ch. map_of (w_channels w) k = Some ch \<and> isMember ch f \<and> isMember ch j)
     then io_queue L (io_of w j) (wire_of msg) else io_of w j)"
proof -
  have "j \<in> neighbours w f (om_keys (w_channels w)) \<longleftrightarrow>
      (\<exists>k ch. map_of (w_channels w) k = Some ch \<and> isMember ch f \<and> isMember ch j)"
    unfolding neighbours_def mem_Collect_eq Bex_def om_keys_look by (fastforce simp: chan_def)
  then show ?thesis
    using io_broadcastToChannels [OF assms, of msg j] by (auto simp: queued_def)
qed

theorem neighbours_told_once_witness:
  "io_of (broadcastToChannels mini_lib 4 ''hi'' demo_world) 5 = io_queue mini_lib (io_of demo_world 5) ''hi''"
  by (subst neighbours_told_once [OF demo_ok])
    (auto simp: demo_live demo_channels isMember_def demo_channel_def wire_of_def limit_defs)

end
