(* ===== verification/Service_Properties.thy ===== *)
theory Service_Properties
  imports Demo
begin

text \<open>
  The properties of what a connection carries and of the services beside the channels:
  cutting the input into messages, the file transfers, the traffic counters and the
  redaction of traced lines, the check of the command table.
\<close>

section \<open>From bytes to messages\<close>

text \<open>
  C21.  Cutting the received bytes into messages always ends, and every message it hands on
  is non-empty and free of CR and NUL, so that the parser never sees a control byte that
  ends or splits a line.
\<close>

theorem messages_clean:
  assumes "next_line_law L size_in"
  shows "\<exists>ms c'. extractMessages L c = Some (ms, c') \<and> (\<forall>m \<in> set ms. m \<noteq> [] \<and> CR \<notin> set m \<and> NUL \<notin> set m)"
proof -
  obtain ms io where r: "extract_loop L (cl_io c) [] = Some (ms, io)"
    using extract_loop_terminates [OF assms, of "cl_io c" "[]"] by auto
  then have "clean_messages ms" by (rule extract_loop_messages) (simp add: clean_messages_def)
  then show ?thesis by (simp add: extractMessages_def r clean_messages_def)
qed

theorem messages_clean_witness:
  "\<exists>ms c'. extractMessages mini_lib demo_carol = Some (ms, c') \<and> (\<forall>m \<in> set ms. m \<noteq> [] \<and> CR \<notin> set m \<and> NUL \<notin> set m)"
  by (rule messages_clean [OF mini_next_law])

text \<open>
  Splitting a line on bare carriage returns loses nothing else: the pieces, none of
  them empty and none with a CR in it, put together are the line without its CRs.
\<close>

theorem split_on_cr_lossless:
  "concat (splitOnCr line) = filter (\<lambda>c. c \<noteq> CR) line \<and> [] \<notin> set (splitOnCr line) \<and>
   CR \<notin> \<Union> (set ` set (splitOnCr line))"
  using splitOnCr_concat [of line] splitOnCr_pieces [of _ line] by blast

section \<open>File transfers\<close>

text \<open>
  C23.  The table of transfers stays well formed under every \<open>FILE\<close> command: identifiers
  are fresh, there is at most one transfer for each ordered pair of clients, both ends are
  connected and different, no transfer is larger than the limit or has relayed more than it
  declared, or anything before it was accepted.
\<close>

theorem transfers_stay_ok:
  assumes "parse_law L" and "table_ok w" and "f \<in> live w" and "ft_good (live w) t"
  shows "ft_good (live w) (fst (snd (ft_onCommand L f msg (t, w))))"
  by (rule ft_good_onCommand [OF assms])

lemma demo_files_good: "ft_good {4, 5, 6} demo_files"
  using demo_ok by (simp add: world_ok_def exts_wf_def demo_live) (simp add: demo_world_def)

theorem transfers_stay_ok_witness:
  "ft_good {4, 5, 6} (fst (snd (ft_onCommand mini_lib 5 (demo_plain ''FILE'' [''ABORT'', ''1'']) (demo_files, demo_world))))"
  using transfers_stay_ok [of mini_lib demo_world 5 demo_files] demo_ok demo_files_good
  by (simp add: world_ok_table demo_live)



text \<open>
  C25.  A disconnect aborts exactly the transfers the client takes part in, as sender or as
  recipient, and leaves every other one as it is.
\<close>

theorem disconnect_aborts_transfers:
  assumes "ft_ok t" and "cl_fd (cl w f) = f"
  shows "findById j (fst (ft_onClientDisconnect L f (t, w))) =
    (case findById j t of None \<Rightarrow> None
     | Some tr \<Rightarrow> if tf_senderFd tr = f \<or> tf_recipientFd tr = f then None else Some tr)"
  by (rule ft_onClientDisconnect_lookup [OF assms])

theorem disconnect_aborts_transfers_witness:
  "findById 1 (fst (ft_onClientDisconnect mini_lib 5 (demo_files, demo_world))) = None"
  using disconnect_aborts_transfers [of demo_files demo_world 5 1 mini_lib] demo_files_good
  by (simp add: ft_good_def demo_cl demo_conn_def findById_def demo_files_def demo_transfer_def)

text \<open>
  The tick aborts exactly the transfers that have been idle for longer than
  \<open>IDLE_TIMEOUT\<close>.
\<close>

theorem tick_aborts_idle:
  assumes "ft_ok t"
  shows "findById j (fst (ft_onTick L now (t, w))) =
    (case findById j t of None \<Rightarrow> None
     | Some tr \<Rightarrow> if IDLE_TIMEOUT < now - tf_lastActivity tr then None else Some tr)"
proof -
  have "(\<exists>tr. (j, tr) \<in> set (ft_transfers t) \<and> P tr) \<longleftrightarrow> (\<exists>tr. findById j t = Some tr \<and> P tr)" for P
    using assms by (auto simp: findById_def ft_ok_def om_ok_distinct)
  then show ?thesis
    unfolding ft_onTick_def split_beta fst_conv snd_conv
    by (subst abort_loop_lookup [where P = "\<lambda>tr. IDLE_TIMEOUT < now - tf_lastActivity tr"])
      (auto split: option.split)
qed

theorem tick_aborts_idle_witness:
  "findById 1 (fst (ft_onTick mini_lib 61 (demo_files, demo_world))) = None \<and>
   findById 1 (fst (ft_onTick mini_lib 60 (demo_files, demo_world))) = Some demo_transfer"
proof -
  have ok: "ft_ok demo_files" using demo_files_good by (simp add: ft_good_def)
  have f: "findById 1 demo_files = Some demo_transfer" by (simp add: findById_def demo_files_def)
  show ?thesis
    using tick_aborts_idle [OF ok, of 1 mini_lib 61 demo_world] tick_aborts_idle [OF ok, of 1 mini_lib 60 demo_world]
    by (simp add: f) (simp add: demo_transfer_def IDLE_TIMEOUT_def)
qed

text \<open>
  The size the relay counts for a chunk is the size of the data it encodes: a Base64
  text of \<open>m\<close> bytes, four characters for each started group of three and padded with as
  many \<open>=\<close> as the last group lacks, counts as \<open>m\<close>.
\<close>

theorem decoded_size:
  assumes "0 < m" and "length body + pad = 4 * ((m + 2) div 3)" and "pad = (3 - m mod 3) mod 3"
    and "CHR ''='' \<notin> set body"
  shows "decodedBytes (body @ replicate pad (CHR ''='')) = m"
proof -
  let ?c = "body @ replicate pad (CHR ''='')" and ?n = "4 * ((m + 2) div 3)"
  have len: "length ?c = ?n" using assms(2) by simp
  have n: "4 \<le> ?n" using assms(1) by (simp add: Suc_le_eq)
  have p: "pad \<le> 2" using assms(3) by linarith
  have at: "?c ! (?n - Suc i) = CHR ''='' \<longleftrightarrow> i < pad" if i: "i < 2" for i
  proof (cases "i < pad")
    case True
    then have "length body \<le> ?n - Suc i" "?n - Suc i - length body < pad" using assms(2) n by linarith+
    then show ?thesis using True by (simp add: nth_append)
  next
    case False
    then have b: "?n - Suc i < length body" using assms(2) i n by linarith
    then have "?c ! (?n - Suc i) = body ! (?n - Suc i)" by (simp add: nth_append)
    then show ?thesis using False nth_mem [OF b] assms(4) by metis
  qed
  have pads: "(if ?n \<noteq> 0 \<and> ?c ! (?n - 1) = CHR ''='' then 1 else 0) +
      (if 1 < ?n \<and> ?c ! (?n - 2) = CHR ''='' then 1 else 0) = pad"
  proof -
    have "?c ! (?n - 1) = CHR ''='' \<longleftrightarrow> 0 < pad" "?c ! (?n - 2) = CHR ''='' \<longleftrightarrow> 1 < pad"
      using at [of 0] at [of 1] by (simp_all add: numeral_2_eq_2)
    then show ?thesis using p n by auto
  qed
  have "?n * 3 div 4 = 3 * ((m + 2) div 3)" by simp
  moreover have "3 * ((m + 2) div 3) = m + pad"
  proof -
    consider "m mod 3 = 0" | "m mod 3 = 1" | "m mod 3 = 2" by linarith
    then show ?thesis
    proof cases
      case 1
      then have "3 * ((m + 2) div 3) = m" by presburger
      then show ?thesis using 1 assms(3) by simp
    next
      case 2
      then have "3 * ((m + 2) div 3) = m + 2" by presburger
      then show ?thesis using 2 assms(3) by simp
    next
      case 3
      then have "3 * ((m + 2) div 3) = m + 1" by presburger
      then show ?thesis using 3 assms(3) by simp
    qed
  qed
  ultimately show ?thesis
    using assms(1) unfolding decodedBytes_def len Let_def pads by simp
qed

section \<open>Traffic counters and redaction\<close>

text \<open>
  The traffic totals count every line: after any sequence of received lines the totals
  have grown, modulo the 64 bits of the counter, by the number of lines and by their bytes
  with the two of each line end, whatever descriptors they came from.
\<close>

theorem inbound_totals:
  "linesIn (tr_total (foldl (\<lambda>t (f, peer, line). trace_inbound L f peer line t) t evs)) =
     linesIn (tr_total t) + of_nat (length evs) \<and>
   bytesIn (tr_total (foldl (\<lambda>t (f, peer, line). trace_inbound L f peer line t) t evs)) =
     bytesIn (tr_total t) + of_nat (sum_list (map (\<lambda>(f, peer, line). length line + 2) evs))"
  by (induction evs arbitrary: t)
    (auto simp: trace_inbound_def log_protocol_def Let_def count_in_def algebra_simps)




section \<open>The command table\<close>

text \<open>
  C31.  The server starts only if the grammar and the command table name the same commands:
  the check passes exactly when the productions bound to commands are the commands that
  have a handler.
\<close>

theorem command_table_check:
  "verifyCommandTable rules table origin = None \<longleftrightarrow> set (map fst rules) = set table"
proof -
  have "filter (\<lambda>name. map_of rules name = None) table = [] \<longleftrightarrow> set table \<subseteq> set (map fst rules)"
    by (auto simp: filter_empty_conv map_of_eq_None_iff)
  moreover have "filter (\<lambda>name. name \<notin> set table) (map fst rules) = [] \<longleftrightarrow> set (map fst rules) \<subseteq> set table"
    by (auto simp: filter_empty_conv)
  ultimately show ?thesis by (auto simp: verifyCommandTable_def Let_def)
qed

end
