(* ===== verification/Session_Effects.thy ===== *)
theory Session_Effects
  imports Demo
begin

text \<open>
  What happens to a connection: finding it by its nickname, completing its registration,
  changing its nickname, ending it; and that an iteration of the event loop comes back.
\<close>

section \<open>Nicknames find their owner\<close>

lemma client_at:
  assumes "f \<in> live w"
  obtains c where "map_of (w_clients w) f = Some c" "cl w f = c" "map_of (skel w) f = Some (client.truncate c)"
  using assms by (auto simp: live_cl cl_def skel_look)

lemma users_unique:
  assumes ok: "world_ok L w" and f: "f \<in> users w" and g: "g \<in> users w"
    and eq: "ircEquals L (nick_of w f) (nick_of w g)"
  shows "f = g"
proof -
  obtain a where a: "map_of (skel w) f = Some (client.truncate a)" "cl w f = a"
    using client_at [OF users_liveD [OF f]] by metis
  obtain b where b: "map_of (skel w) g = Some (client.truncate b)" "cl w g = b"
    using client_at [OF users_liveD [OF g]] by metis
  have "cl_nickSet (client.truncate a)" "cl_nickSet (client.truncate b)"
    using client_ok_cl [OF ok users_liveD [OF f]] client_ok_cl [OF ok users_liveD [OF g]] f g a b
    by (auto simp: client_ok_def truncate_fields users_cl)
  moreover have "nicks_unique L w" using ok by (simp add: world_ok_def clients_wf_def)
  ultimately show ?thesis
    using a b f g eq unfolding nicks_unique_def by (fastforce simp: truncate_fields users_cl)
qed

lemma find_first:
  assumes "List.find P xs = None" shows "\<forall>x \<in> set xs. \<not> P x"
  using assms by (auto simp: find_None_iff)

lemma findClientByNick_iff:
  assumes ok: "world_ok L w" and L: "casemap_law L"
  shows "findClientByNick L n w = Some f \<longleftrightarrow> f \<in> users w \<and> ircEquals L (nick_of w f) n"
proof
  assume s: "findClientByNick L n w = Some f"
  show "f \<in> users w \<and> ircEquals L (nick_of w f) n"
    using findClientByNick_live(3) [OF world_ok_table [OF ok] s] findClientByNick_users [OF world_ok_table [OF ok] s]
    by simp
next
  assume f: "f \<in> users w \<and> ircEquals L (nick_of w f) n"
  obtain c where c: "map_of (w_clients w) f = Some c" "cl w f = c"
    using client_at users_liveD f by metis
  then have "(f, c) \<in> set (w_clients w)" by (simp add: om_look_in)
  moreover have "cl_registered c" "\<not> cl_tearingDown c" "ircEquals L (cl_nickname c) n"
    using f c by (auto simp: users_cl)
  ultimately have "findClientByNick L n w \<noteq> None"
    unfolding findClientByNick_def using find_first by fastforce
  then obtain g where g: "findClientByNick L n w = Some g" by blast
  then have "g \<in> users w" "ircEquals L (nick_of w g) n"
    using findClientByNick_live(3) [OF world_ok_table [OF ok] g] findClientByNick_users [OF world_ok_table [OF ok] g]
    by simp_all
  then have "g = f"
    using users_unique [OF ok, of g f] f casemap_eq [OF L] by (simp add: ircEquals_def)
  with g show "findClientByNick L n w = Some f" by simp
qed

section \<open>Registration\<close>

lemma completeRegistration_effect:
  assumes ok: "world_ok L w" and f: "f \<in> live w"
  shows "f \<in> users (completeRegistration L f w) \<longleftrightarrow>
      cl_passSent (cl w f) \<and> lc_eq_consttime L (cl_password (cl w f)) (w_password w)"
    "g \<noteq> f \<Longrightarrow> g \<in> users (completeRegistration L f w) \<longleftrightarrow> g \<in> users w"
proof -
  have "(f \<in> users (completeRegistration L f w) \<longleftrightarrow>
      cl_passSent (cl w f) \<and> lc_eq_consttime L (cl_password (cl w f)) (w_password w)) \<and>
    (g \<noteq> f \<longrightarrow> (g \<in> users (completeRegistration L f w) \<longleftrightarrow> g \<in> users w))"
  proof (cases "cl_passSent (cl w f) \<and> lc_eq_consttime L (cl_password (cl w f)) (w_password w)")
    case True
    then have c: "core (completeRegistration L f w) = core (upd_client f (\<lambda>c. c\<lparr>cl_registered := True\<rparr>) w)"
      by (intro completeRegistration_success) auto
    have s: "skel (upd_client f (\<lambda>c. c\<lparr>cl_registered := True\<rparr>) w) = om_upd f (\<lambda>c. c\<lparr>cl_registered := True\<rparr>) (skel w)"
      by (rule skel_upd_client) simp
    show ?thesis
      unfolding core_users [OF c] using True f
      by (auto simp: users_def live_def s map_simps)
  next
    case False
    let ?w1 = "sendReply L f ERR_PASSWDMISMATCH '':Password incorrect'' w"
    have run: "completeRegistration L f w = disconnectClient L f ''Password mismatch'' ?w1"
      using False world_ok_fd [OF ok f] by (auto simp: completeRegistration_def Let_def)
    have "world_ok L ?w1" using ok by simp
    then show ?thesis
      unfolding run using False disconnectClient_ok(3) [of L ?w1 f "''Password mismatch''"] by auto
  qed
  then show "f \<in> users (completeRegistration L f w) \<longleftrightarrow>
      cl_passSent (cl w f) \<and> lc_eq_consttime L (cl_password (cl w f)) (w_password w)"
    "g \<noteq> f \<Longrightarrow> g \<in> users (completeRegistration L f w) \<longleftrightarrow> g \<in> users w" by blast+
qed

section \<open>NICK\<close>

text \<open>The nickname a \<open>NICK\<close> asks for, and whether the server takes it.\<close>

definition wanted_nick :: "message \<Rightarrow> string" where
  "wanted_nick msg = take MAX_NICKLEN (if matched msg then field msg ''newnick'' else m_params msg ! 0)"

definition nick_accepted :: "'io libcpp \<Rightarrow> fd \<Rightarrow> message \<Rightarrow> 'io world \<Rightarrow> bool" where
  "nick_accepted L f msg w \<longleftrightarrow>
     m_params msg \<noteq> [] \<and> isValidNickname (if matched msg then field msg ''newnick'' else m_params msg ! 0) \<and>
     \<not> isNickInUse L (wanted_nick msg) f w \<and> \<not> nick_reserved L (wanted_nick msg) w"

lemma cmdNick_refused:
  assumes "\<not> nick_accepted L f msg w"
  shows "core (cmdNick L f msg w) = core w"
proof -
  define nick0 where "nick0 = (if matched msg then field msg ''newnick'' else m_params msg ! 0)"
  have eq: "(if MAX_NICKLEN < length nick0 then take MAX_NICKLEN nick0 else nick0) = wanted_nick msg"
    by (simp add: wanted_nick_def nick0_def)
  show ?thesis
    using assms
    by (auto simp: cmdNick_def Let_def nick_accepted_def nick_reserved_def eq simp flip: nick0_def)
qed

lemma cmdNick_registered:
  fixes w :: "'io world"
  assumes "nick_accepted L f msg w" and "cl_registered (cl w f)"
  shows "\<exists>m. cmdNick L f msg w =
    upd_client f (\<lambda>c. c\<lparr>cl_nickname := wanted_nick msg\<rparr>) (broadcastToChannels L f m (queueMessage L f m w)) \<and>
    m = '':'' @ getPrefix (cl w f) @ '' NICK :'' @ wanted_nick msg"
proof -
  define nick0 where "nick0 = (if matched msg then field msg ''newnick'' else m_params msg ! 0)"
  have eq: "(if MAX_NICKLEN < length nick0 then take MAX_NICKLEN nick0 else nick0) = wanted_nick msg"
    by (simp add: wanted_nick_def nick0_def)
  have g: "m_params msg \<noteq> []" "isValidNickname nick0" "\<not> isNickInUse L (wanted_nick msg) f w"
      "\<not> list_ex (ext_reservesNick L (wanted_nick msg)) (w_exts w)"
    using assms(1) by (auto simp: nick_accepted_def nick_reserved_def nick0_def)
  show ?thesis
    using g assms(2)
    by (simp add: cmdNick_def Let_def eq flip: nick0_def)
qed

lemma disconnectClientNow_channels:
  assumes ok: "world_ok L w" and f: "f \<in> live w"
  shows "map_of (w_channels (disconnectClientNow L f reason w)) k = Option.bind (map_of (w_channels w) k) (strip f)"
proof -
  obtain c where c: "map_of (w_clients w) f = Some c" "\<not> cl_tearingDown c" "\<not> cl_pendingClose c"
    using f live_not_pending [OF ok, of f] by (auto simp: live_cl cl_def)
  then show ?thesis
    using teardown_effect(2) [OF ok f, of reason k] by (simp add: disconnectClientNow_def)
qed

section \<open>Sweeping the connections that wait to be closed\<close>

lemma finalize_loop_look:
  "map_of (w_clients (foldl (\<lambda>w f. finalizeDisconnect f (os_call (OsLinger f) w)) w fs)) j =
    (if j \<in> set fs then None else map_of (w_clients w) j)"
  by (induction fs arbitrary: w) (auto simp: map_simps os_call_def)

lemma pendingClose_sweep:
  assumes ok: "world_ok L w"
  shows "map_of (w_clients (checkPendingCloseTimeouts w)) f =
    (case map_of (w_clients w) f of
       None \<Rightarrow> None
     | Some c \<Rightarrow> if cl_pendingClose c \<and> w_closeTimeout w \<le> w_clock w (w_ticks w) - cl_pendingCloseSince c
                then None else Some c)"
proof -
  let ?P = "\<lambda>c. cl_pendingClose c \<and> w_closeTimeout w \<le> w_clock w (w_ticks w) - cl_pendingCloseSince c"
  let ?fs = "map fst (filter (\<lambda>e. ?P (snd e)) (w_clients w))"
  have d: "distinct (map fst (w_clients w))"
    using world_ok_table [OF ok] om_ok_distinct [of "skel w"] by (simp add: table_ok_def)
  have "f \<in> set ?fs \<longleftrightarrow> (\<exists>c. map_of (w_clients w) f = Some c \<and> ?P c)"
    using d by force
  then show ?thesis
    unfolding checkPendingCloseTimeouts_def Let_def case_prod_beta
    by (subst finalize_loop_look) (auto simp: read_clock_def split: option.split)
qed

section \<open>An iteration comes back\<close>

lemma extractMessages_total:
  "next_line_law L size_in \<Longrightarrow> \<exists>r. extractMessages L c = Some r"
  using extract_loop_terminates [of L size_in "cl_io c" "[]"] by (auto simp: extractMessages_def)

lemma handleClientInput_total:
  assumes "next_line_law L size_in"
  shows "\<exists>w'. handleClientInput L P f res w = Some w'"
proof -
  have ok: "extractMessages L c = None \<longleftrightarrow> False" for c using extractMessages_total [OF assms, of c] by auto
  show ?thesis
    by (cases res) (auto simp: handleClientInput_def Let_def case_prod_beta ok simp del: not_None_eq split: option.split)
qed

text \<open>The one answer of the kernel that ends the server.\<close>

fun epoll_refused :: "ready \<Rightarrow> bool" where
  "epoll_refused (ReadyListen (Some a)) = (\<not> ac_added a)"
| "epoll_refused _ = False"

lemma handleReady_total:
  assumes "next_line_law L size_in" and "\<not> epoll_refused ev"
  shows "\<exists>w'. handleReady L P ev w = Some w'"
proof (cases ev)
  case (ReadyListen res)
  then show ?thesis
    using assms(2)
    by (cases res) (auto simp: handleReady_def acceptClient_def Let_def case_prod_beta)
next
  case (ReadyClient f events res n)
  obtain v where "handleClientInput L P f res w = Some v" using handleClientInput_total [OF assms(1)] by blast
  then show ?thesis by (auto simp: ReadyClient handleReady_def Let_def)
qed

lemma handleAllReady_total:
  assumes "next_line_law L size_in" and "\<forall>ev \<in> set evs. \<not> epoll_refused ev"
  shows "\<exists>w'. handleAllReady L P evs w = Some w'"
  using assms(2)
proof (induction evs arbitrary: w)
  case (Cons ev evs)
  obtain v where "handleReady L P ev w = Some v" using handleReady_total [OF assms(1)] Cons.prems by fastforce
  then show ?case using Cons by simp
qed simp

end
