(* ===== verification/Grammar_Language.thy ===== *)
theory Grammar_Language
  imports Message_Fields "HOL-Library.Word"
begin

text \<open>
  What a grammar means, apart from any matcher: the strings and captures each node of the
  arena yields, as an inductive relation; the well-formedness the builder establishes and
  the matchers rely on (every index they follow is in range); and the sets of octets both
  matchers use for nodes that match a single character.

  An index out of range is undefined behaviour in the code (\<open>std::vector::operator[]\<close>); it
  reads an empty node here, or an unspecified child or literal.
\<close>

unbundle bit_operations_syntax

section \<open>Reading the arena\<close>

definition node :: "grammar \<Rightarrow> int \<Rightarrow> grammar_node" where
  "node g i = (if in_range i (g_nodes g) then g_nodes g ! nat i else empty_node)"

lemma node_cases: "node g i \<in> set (g_nodes g) \<or> node g i = empty_node"
  by (auto simp: node_def in_range_def)

definition child :: "grammar \<Rightarrow> int \<Rightarrow> int" where
  "child g i = g_children g ! nat i"

definition literal :: "grammar \<Rightarrow> int \<Rightarrow> string" where
  "literal g i = g_literals g ! nat i"

text \<open>The children of a node, in the order the loops over \<open>n.first + k\<close> visit them.\<close>

definition kids :: "grammar \<Rightarrow> grammar_node \<Rightarrow> int list" where
  "kids g n = map (\<lambda>k. child g (n_first n + int k)) [0..<nat (n_count n)]"

definition fold_char :: "char \<Rightarrow> char" where
  "fold_char c = (if CHR ''A'' \<le> c \<and> c \<le> CHR ''Z'' then char_of (of_char c - 65 + 97 :: nat) else c)"

definition octet :: "char \<Rightarrow> int" where
  "octet c = int (of_char c :: nat)"

lemma octet_bounds [simp]: "0 \<le> octet c" "octet c < 256"
  using nat_of_char_less_256 [of c] by (simp_all add: octet_def)

lemma octet_byte [simp]: "nat (octet c div 8) < 32"
  using octet_bounds [of c] by linarith

lemma octet_inj [simp]: "octet c = octet d \<longleftrightarrow> c = d"
  by (simp add: octet_def)

definition octet_in :: "grammar_node \<Rightarrow> char \<Rightarrow> bool" where
  "octet_in n c \<longleftrightarrow> n_lo n \<le> octet c \<and> octet c \<le> n_hi n"

section \<open>The language\<close>

type_synonym captures = "(int \<times> string) list"

text \<open>What a reference adds when it captures: the slot and the text, after those inside.\<close>

definition closing :: "grammar_node \<Rightarrow> string \<Rightarrow> captures" where
  "closing n s = (if n_capture n = kNoCapture then [] else [(n_capture n, s)])"

definition times_ok :: "grammar_node \<Rightarrow> nat \<Rightarrow> bool" where
  "times_ok n m \<longleftrightarrow> n_lo n \<le> int m \<and> (n_hi n = kUnbounded \<or> int m \<le> n_hi n)"

inductive yields :: "grammar \<Rightarrow> int \<Rightarrow> string \<Rightarrow> captures \<Rightarrow> bool"
  and yields_seq :: "grammar \<Rightarrow> int list \<Rightarrow> string \<Rightarrow> captures \<Rightarrow> bool"
  and yields_times :: "grammar \<Rightarrow> int \<Rightarrow> nat \<Rightarrow> string \<Rightarrow> captures \<Rightarrow> bool"
  for g :: grammar where
  yield_literal: "n_kind (node g i) = Literal \<Longrightarrow>
    map fold_char s = map fold_char (literal g (n_literal (node g i))) \<Longrightarrow> yields g i s []"
| yield_octet: "n_kind (node g i) = OctetRange \<Longrightarrow> octet_in (node g i) c \<Longrightarrow> yields g i [c] []"
| yield_reference: "n_kind (node g i) = Reference \<Longrightarrow> ruleRoot g (n_lo (node g i)) \<noteq> kNoRule \<Longrightarrow>
    yields g (ruleRoot g (n_lo (node g i))) s cs \<Longrightarrow> yields g i s (cs @ closing (node g i) s)"
| yield_sequence: "n_kind (node g i) = Sequence \<Longrightarrow> yields_seq g (kids g (node g i)) s cs \<Longrightarrow> yields g i s cs"
| yield_alternation: "n_kind (node g i) = Alternation \<Longrightarrow> j \<in> set (kids g (node g i)) \<Longrightarrow>
    yields g j s cs \<Longrightarrow> yields g i s cs"
| yield_repetition: "n_kind (node g i) = Repetition \<Longrightarrow> times_ok (node g i) m \<Longrightarrow>
    yields_times g (child g (n_first (node g i))) m s cs \<Longrightarrow> yields g i s cs"
| seq_nil: "yields_seq g [] [] []"
| seq_cons: "yields g j s cs \<Longrightarrow> yields_seq g js t ds \<Longrightarrow> yields_seq g (j # js) (s @ t) (cs @ ds)"
| times_zero: "yields_times g j 0 [] []"
| times_more: "yields g j s cs \<Longrightarrow> yields_times g j m t ds \<Longrightarrow> yields_times g j (Suc m) (s @ t) (cs @ ds)"

inductive_cases yields_seq_NilE [elim!]: "yields_seq g [] s cs"
inductive_cases yields_seq_ConsE: "yields_seq g (j # js) s cs"
inductive_cases yields_times_0E [elim!]: "yields_times g j 0 s cs"
inductive_cases yields_times_SucE: "yields_times g j (Suc m) s cs"
inductive_cases yields_E: "yields g i s cs"

lemma seq_nil_iff [simp]: "yields_seq g [] s cs \<longleftrightarrow> s = [] \<and> cs = []"
  by (auto intro: seq_nil)

lemma times_zero_iff [simp]: "yields_times g j 0 s cs \<longleftrightarrow> s = [] \<and> cs = []"
  by (auto intro: times_zero)

section \<open>Well-formed grammars\<close>

text \<open>
  Every index a matcher follows from a node is in range, and the children of a node lie
  below it: the arena is built bottom-up and only references lead upwards.
\<close>

definition kids_wf :: "grammar \<Rightarrow> int \<Rightarrow> grammar_node \<Rightarrow> bool" where
  "kids_wf g i n \<longleftrightarrow> 0 \<le> n_first n \<and> 0 \<le> n_count n \<and> n_first n + n_count n \<le> int (length (g_children g)) \<and>
     (\<forall>j \<in> set (kids g n). 0 \<le> j \<and> j < i)"

definition node_wf :: "grammar \<Rightarrow> int \<Rightarrow> grammar_node \<Rightarrow> bool" where
  "node_wf g i n \<longleftrightarrow>
     (case n_kind n of
        Literal \<Rightarrow> in_range (n_literal n) (g_literals g) \<and> n_count n = 0
      | OctetRange \<Rightarrow> n_lo n \<le> n_hi n \<and> n_count n = 0
      | Reference \<Rightarrow> in_range (n_lo n) (g_ruleRoots g) \<and> n_count n = 0 \<and>
          (n_capture n = kNoCapture \<or> in_range (n_capture n) (g_captureNames g))
      | Sequence \<Rightarrow> kids_wf g i n
      | Alternation \<Rightarrow> kids_wf g i n \<and> 0 < n_count n
      | Repetition \<Rightarrow> kids_wf g i n \<and> n_count n = 1 \<and> (n_hi n = kUnbounded \<or> n_lo n \<le> n_hi n))"

definition grammar_wf :: "grammar \<Rightarrow> bool" where
  "grammar_wf g \<longleftrightarrow> (\<forall>i. in_range i (g_nodes g) \<longrightarrow> node_wf g i (node g i)) \<and>
     length (g_ruleRoots g) = length (g_ruleNames g) \<and>
     (\<forall>r \<in> set (g_ruleRoots g). r = kNoRule \<or> in_range r (g_nodes g))"

lemma wf_node: "grammar_wf g \<Longrightarrow> in_range i (g_nodes g) \<Longrightarrow> node_wf g i (node g i)"
  by (simp add: grammar_wf_def)

lemma wf_root: "grammar_wf g \<Longrightarrow> ruleRoot g r \<noteq> kNoRule \<Longrightarrow> in_range (ruleRoot g r) (g_nodes g)"
  by (auto simp: grammar_wf_def ruleRoot_def in_range_def split: if_splits)

lemma kid_in_kids: "int k < n_count n \<Longrightarrow> child g (n_first n + int k) \<in> set (kids g n)"
  by (auto simp: kids_def)

lemma wf_kid:
  assumes "grammar_wf g" and "in_range i (g_nodes g)" and "j \<in> set (kids g (node g i))"
  shows "0 \<le> j" "j < i" "in_range j (g_nodes g)"
proof -
  have "0 \<le> j \<and> j < i"
    using wf_node [OF assms(1,2)] assms(3)
    by (auto simp: node_wf_def kids_wf_def kids_def split: node_kind.splits)
  then show "0 \<le> j" "j < i" "in_range j (g_nodes g)" using assms(2) by (auto simp: in_range_def)
qed

lemma wf_repetition:
  assumes "grammar_wf g" and "in_range i (g_nodes g)" and "n_kind (node g i) = Repetition"
  shows "child g (n_first (node g i)) \<in> set (kids g (node g i))"
  using wf_node [OF assms(1,2)] assms(3) kid_in_kids [of 0 "node g i" g] by (simp add: node_wf_def)

lemma length_kids [simp]: "length (kids g n) = nat (n_count n)"
  by (simp add: kids_def)

lemma nth_kids: "k < nat (n_count n) \<Longrightarrow> kids g n ! k = child g (n_first n + int k)"
  by (simp add: kids_def)

lemma drop_kids:
  "int k < n_count n \<Longrightarrow> drop k (kids g n) = child g (n_first n + int k) # drop (Suc k) (kids g n)"
  using Cons_nth_drop_Suc [of k "kids g n"] by (simp add: nth_kids)

lemma drop_kids_end: "n_count n \<le> int k \<Longrightarrow> drop k (kids g n) = []"
  by simp

section \<open>Sets of octets\<close>

text \<open>
  A set of octets is the bit map \<open>unsigned char bits[32]\<close> of the code: bit \<open>c & 7\<close> of byte
  \<open>c >> 3\<close>.  Setting the bit of a number that is no octet writes outside the array, which is
  \<open>None\<close> here.
\<close>

type_synonym octets = "8 word list"

definition no_octets :: octets where
  "no_octets = replicate 32 0"

definition setBit :: "int \<Rightarrow> octets \<Rightarrow> octets option" where
  "setBit c bits =
     (if 0 \<le> c \<and> c < 256
      then Some (bits[nat (c div 8) := bits ! nat (c div 8) OR push_bit (nat (c mod 8)) 1])
      else None)"

definition inClass :: "octets \<Rightarrow> char \<Rightarrow> bool" where
  "inClass bits c \<longleftrightarrow> bits ! nat (octet c div 8) AND push_bit (nat (octet c mod 8)) 1 \<noteq> 0"

lemma and_push_bit_one:
  fixes x :: "8 word"
  shows "x AND push_bit n 1 \<noteq> 0 \<longleftrightarrow> bit x n"
  by (metis and_exp_eq_0_iff_not_bit push_bit_of_1)

lemma inClass_bit: "inClass bits c \<longleftrightarrow> bit (bits ! nat (octet c div 8)) (nat (octet c mod 8))"
  unfolding inClass_def by (rule and_push_bit_one)

lemma octet_split: "octet c div 8 = octet d div 8 \<Longrightarrow> octet c mod 8 = octet d mod 8 \<Longrightarrow> c = d"
  by (metis octet_inj mult_div_mod_eq)

lemma no_octets [simp]: "length no_octets = 32" "\<not> inClass no_octets c"
proof -
  show "\<not> inClass no_octets c" by (simp add: inClass_bit no_octets_def)
qed (simp add: no_octets_def)

lemma setBit_length: "setBit c bits = Some bits' \<Longrightarrow> length bits' = length bits"
  by (auto simp: setBit_def split: if_splits)

lemma setBit_octet:
  assumes "length bits = 32"
  shows "\<exists>bits'. setBit (octet d) bits = Some bits' \<and> length bits' = 32 \<and>
    (\<forall>c. inClass bits' c \<longleftrightarrow> c = d \<or> inClass bits c)"
proof -
  let ?b = "bits[nat (octet d div 8) := bits ! nat (octet d div 8) OR push_bit (nat (octet d mod 8)) 1]"
  have "inClass ?b c \<longleftrightarrow> c = d \<or> inClass bits c" for c
  proof -
    have m: "nat (octet d mod 8) < 8" "nat (octet c mod 8) < 8" by simp_all
    have one: "bit (push_bit a (1 :: 8 word)) b \<longleftrightarrow> a = b" if "a < 8" for a b
      using that by (auto simp: bit_exp_iff possible_bit_def)
    show ?thesis
    proof (cases "octet c div 8 = octet d div 8")
      case True
      have "c = d \<longleftrightarrow> nat (octet d mod 8) = nat (octet c mod 8)"
        using True octet_split [of c d] by auto
      then show ?thesis
        using True assms one [OF m(1), of "nat (octet c mod 8)"] by (auto simp: inClass_bit bit_or_iff)
    next
      case False
      have "0 \<le> octet c div 8" "0 \<le> octet d div 8" by (simp_all add: pos_imp_zdiv_nonneg_iff)
      then have "nat (octet c div 8) \<noteq> nat (octet d div 8)" using False by (metis nat_0_le)
      then show ?thesis using False by (auto simp: inClass_bit)
    qed
  qed
  then show ?thesis using assms by (simp add: setBit_def)
qed

end
