(* ===== verification/Abnf_Reader.thy ===== *)
theory Abnf_Reader
  imports Grammar_Language
begin

text \<open>
  \<open>src/grammar/AbnfChars.cpp\<close> and \<open>AbnfLineReader.cpp\<close>: the characters of ABNF, and the
  text of a grammar cut into logical lines, one rule each: comments go, an indented line
  continues the rule above, and a line that starts with \<open>=\<close> repeats the last rule name.
\<close>

section \<open>Characters\<close>

definition isAlpha :: "char \<Rightarrow> bool" where
  "isAlpha c \<longleftrightarrow> CHR ''A'' \<le> c \<and> c \<le> CHR ''Z'' \<or> CHR ''a'' \<le> c \<and> c \<le> CHR ''z''"

definition isDigit :: "char \<Rightarrow> bool" where
  "isDigit c \<longleftrightarrow> CHR ''0'' \<le> c \<and> c \<le> CHR ''9''"

definition isHexDigit :: "char \<Rightarrow> bool" where
  "isHexDigit c \<longleftrightarrow> isDigit c \<or> CHR ''A'' \<le> c \<and> c \<le> CHR ''F'' \<or> CHR ''a'' \<le> c \<and> c \<le> CHR ''f''"

definition isRuleChar :: "char \<Rightarrow> bool" where
  "isRuleChar c \<longleftrightarrow> isAlpha c \<or> isDigit c \<or> c = CHR ''-''"

definition isBlank :: "char \<Rightarrow> bool" where
  "isBlank c \<longleftrightarrow> c = CHR '' '' \<or> c = CHR 0x09"

text \<open>
  A parser reads a line through an index that only moves forward; here it holds the rest of
  the line instead.
\<close>

definition skipBlanks :: "string \<Rightarrow> string" where
  "skipBlanks s = dropWhile isBlank s"

lemma length_skipBlanks: "length (skipBlanks s) \<le> length s"
  by (simp add: skipBlanks_def length_dropWhile_le)

lemma length_skip_le [intro]: "skipBlanks s = c # t \<Longrightarrow> length t < length s"
  using length_skipBlanks [of s] by auto

definition trimmed :: "string \<Rightarrow> string" where
  "trimmed s = rev (dropWhile isBlank (rev (dropWhile isBlank s)))"

section \<open>Numbers\<close>

text \<open>
  \<open>strtol\<close> on digits only: the value, at most \<open>LONG_MAX\<close> of a 64-bit \<open>long\<close>; the cast to \<open>int\<close>
  keeps its low 32 bits.
\<close>

definition digit_value :: "char \<Rightarrow> int" where
  "digit_value c =
     (if isDigit c then octet c - 48 else if CHR ''a'' \<le> c then octet c - 87 else octet c - 55)"

definition strtol :: "int \<Rightarrow> string \<Rightarrow> int" where
  "strtol base s = min (2 ^ 63 - 1) (foldl (\<lambda>v c. base * v + digit_value c) 0 s)"

definition to_int :: "int \<Rightarrow> int" where
  "to_int v = signed_take_bit 31 v"

lemma to_int_bounds: "- (2 ^ 31) \<le> to_int v" "to_int v < 2 ^ 31"
  unfolding to_int_def by (rule signed_take_bit_int_greater_eq_minus_exp, rule signed_take_bit_int_less_exp)

text \<open>A number written to a stream.\<close>

fun decimal :: "nat \<Rightarrow> string" where
  "decimal n = (if n < 10 then [char_of (48 + n)] else decimal (n div 10) @ [char_of (48 + n mod 10)])"

declare decimal.simps [simp del]

section \<open>Logical lines\<close>

lemma tl_dropWhile_less: "s \<noteq> [] \<Longrightarrow> length (tl (dropWhile P s)) < length s"
  using length_dropWhile_le [of P s] by (cases s) (auto intro: le_less_trans)

text \<open>\<open>std::getline\<close> until the end of the text: the piece after a last newline is no line.\<close>

function text_lines :: "string \<Rightarrow> string list" where
  "text_lines s =
     (if s = [] then []
      else takeWhile (\<lambda>c. c \<noteq> CHR 0x0A) s # text_lines (tl (dropWhile (\<lambda>c. c \<noteq> CHR 0x0A) s)))"
  by pat_completeness auto

termination by (relation "measure length", rule wf_measure, unfold in_measure, rule tl_dropWhile_less)

declare text_lines.simps [simp del]

fun strip_from :: "bool \<Rightarrow> string \<Rightarrow> string" where
  "strip_from inQuote [] = []"
| "strip_from inQuote (c # cs) =
     (if c = CHR 0x22 then c # strip_from (\<not> inQuote) cs
      else if c = CHR '';'' \<and> \<not> inQuote then []
      else c # strip_from inQuote cs)"

definition stripComment :: "string \<Rightarrow> string" where
  "stripComment raw = strip_from False raw"

record reader =
  rd_pending :: string
  rd_number :: nat
  rd_lastRuleName :: string
  rd_out :: "(string \<times> nat) list"

definition flush_pending :: "reader \<Rightarrow> reader" where
  "flush_pending r =
     (if rd_pending r \<noteq> [] then r\<lparr>rd_out := rd_out r @ [(rd_pending r, rd_number r)], rd_pending := []\<rparr> else r)"

text \<open>One physical line; an error carries its number.\<close>

definition read_line :: "nat \<Rightarrow> string \<Rightarrow> reader \<Rightarrow> (nat \<times> string) + reader" where
  "read_line physical raw0 r =
     (let raw1 = (if raw0 \<noteq> [] \<and> last raw0 = CHR 0x0D then butlast raw0 else raw0);
          raw = stripComment raw1;
          body = trimmed raw
      in if body = [] then Inr r
         else let continuation = isBlank (hd raw);
                  redefines = (hd body = CHR ''='')
           in if continuation \<and> \<not> redefines \<and> rd_pending r \<noteq> []
              then Inr (r\<lparr>rd_pending := rd_pending r @ '' '' @ body\<rparr>)
              else let r1 = flush_pending r
                in if redefines
                   then if rd_lastRuleName r1 = []
                        then Inl (physical, [CHR 0x27, CHR ''='', CHR 0x27] @ '' continuation with no rule name above it'')
                        else Inr (r1\<lparr>rd_pending := rd_lastRuleName r1 @ '' '' @ body, rd_number := physical\<rparr>)
                   else let name = takeWhile isRuleChar body
                     in Inr (r1\<lparr>rd_pending := body,
                          rd_lastRuleName := (if name \<noteq> [] then name else rd_lastRuleName r1),
                          rd_number := physical\<rparr>))"

fun read_lines :: "nat \<Rightarrow> string list \<Rightarrow> reader \<Rightarrow> (nat \<times> string) + reader" where
  "read_lines physical [] r = Inr r"
| "read_lines physical (raw # raws) r =
     (case read_line (physical + 1) raw r of Inl e \<Rightarrow> Inl e | Inr r' \<Rightarrow> read_lines (physical + 1) raws r')"

definition read_grammar :: "string \<Rightarrow> (nat \<times> string) + (string \<times> nat) list" where
  "read_grammar s =
     (case read_lines 0 (text_lines s) \<lparr>rd_pending = [], rd_number = 0, rd_lastRuleName = [], rd_out = []\<rparr> of
        Inl e \<Rightarrow> Inl e
      | Inr r \<Rightarrow> Inr (rd_out (flush_pending r)))"

end
