(* ===== verification/Grammar_Builder.thy ===== *)
theory Grammar_Builder
  imports Abnf_Reader
begin

text \<open>
  \<open>src/grammar/GrammarBuilder.cpp\<close>: the parser of ABNF rules, which builds the arena of a
  grammar bottom-up.  A parser takes the grammar built so far and the rest of the line and
  returns what it read with both of them advanced, or the text of the error.  The half-built
  grammar of a failed run is not returned: the server throws and drops it.
\<close>

section \<open>Growing the arena\<close>

definition internRule :: "string \<Rightarrow> grammar \<Rightarrow> int \<times> grammar" where
  "internRule name g =
     (let key = lowered name; i = index_of key (g_ruleNames g)
      in if i \<noteq> -1 then (i, g)
         else (int (length (g_ruleNames g)),
               g\<lparr>g_ruleNames := g_ruleNames g @ [key], g_ruleRoots := g_ruleRoots g @ [kNoRule]\<rparr>))"

definition internCapture :: "string \<Rightarrow> grammar \<Rightarrow> int \<times> grammar" where
  "internCapture name g =
     (let i = index_of name (g_captureNames g)
      in if i \<noteq> -1 then (i, g)
         else (int (length (g_captureNames g)), g\<lparr>g_captureNames := g_captureNames g @ [name]\<rparr>))"

definition addNode :: "grammar_node \<Rightarrow> grammar \<Rightarrow> int \<times> grammar" where
  "addNode n g = (int (length (g_nodes g)), g\<lparr>g_nodes := g_nodes g @ [n]\<rparr>)"

definition addChildren :: "int list \<Rightarrow> grammar \<Rightarrow> int \<times> grammar" where
  "addChildren js g = (int (length (g_children g)), g\<lparr>g_children := g_children g @ js\<rparr>)"

definition addLiteral :: "string \<Rightarrow> grammar \<Rightarrow> int \<times> grammar" where
  "addLiteral s g = (int (length (g_literals g)), g\<lparr>g_literals := g_literals g @ [s]\<rparr>)"

text \<open>A node of the given kind over the given children, as the parsers add it.\<close>

definition addParent :: "node_kind \<Rightarrow> int \<Rightarrow> int \<Rightarrow> int list \<Rightarrow> grammar \<Rightarrow> int \<times> grammar" where
  "addParent kind lo hi js g =
     (let (first, g1) = addChildren js g
      in addNode (empty_node\<lparr>n_kind := kind, n_lo := lo, n_hi := hi, n_first := first, n_count := int (length js)\<rparr>) g1)"

section \<open>Errors\<close>

type_synonym 'a parsed = "string + 'a \<times> grammar \<times> string"

definition build_error :: "nat \<Rightarrow> string \<Rightarrow> string" where
  "build_error lineNo message = ''grammar: line '' @ decimal lineNo @ '': '' @ message"

abbreviation quoted :: "string \<Rightarrow> string" where
  "quoted s \<equiv> [CHR 0x27] @ s @ [CHR 0x27]"

definition and_parse :: "'a parsed \<Rightarrow> ('a \<Rightarrow> grammar \<Rightarrow> string \<Rightarrow> 'b parsed) \<Rightarrow> 'b parsed" where
  "and_parse m f = (case m of Inl e \<Rightarrow> Inl e | Inr (a, g, s) \<Rightarrow> f a g s)"

lemma and_parse_simps [simp]: "and_parse (Inl e) f = Inl e" "and_parse (Inr (a, g, s)) f = f a g s"
  by (simp_all add: and_parse_def)

lemma and_parse_cong [fundef_cong]:
  "m = m' \<Longrightarrow> (\<And>a g s. m' = Inr (a, g, s) \<Longrightarrow> f a g s = f' a g s) \<Longrightarrow> and_parse m f = and_parse m' f'"
  by (auto simp: and_parse_def split: sum.splits prod.splits)

lemma and_parse_Inr: "and_parse m f = Inr r \<longleftrightarrow> (\<exists>a g s. m = Inr (a, g, s) \<and> f a g s = Inr r)"
  by (auto simp: and_parse_def split: sum.splits prod.splits)

section \<open>Numeric values\<close>

text \<open>One piece of \<open>%x41-5A.30\<close>.\<close>

definition numeric_piece :: "nat \<Rightarrow> grammar \<Rightarrow> string \<Rightarrow> int parsed" where
  "numeric_piece lineNo g s =
     (let hex = takeWhile isHexDigit s; s1 = dropWhile isHexDigit s; low = to_int (strtol 16 hex)
      in if hex = [] then Inl (build_error lineNo ''%x with no hex digits'')
         else if s1 \<noteq> [] \<and> hd s1 = CHR ''-''
         then let upper = takeWhile isHexDigit (tl s1); high = to_int (strtol 16 upper)
           in if upper = [] then Inl (build_error lineNo ''%x range with no upper bound'')
              else if high < low then Inl (build_error lineNo ''%x range runs backwards'')
              else let (piece, g1) = addNode (empty_node\<lparr>n_kind := OctetRange, n_lo := low, n_hi := high\<rparr>) g
                in Inr (piece, g1, dropWhile isHexDigit (tl s1))
         else let (piece, g1) = addNode (empty_node\<lparr>n_kind := OctetRange, n_lo := low, n_hi := low\<rparr>) g
           in Inr (piece, g1, s1))"

lemma dropWhile_less: "takeWhile P s \<noteq> [] \<Longrightarrow> length (dropWhile P s) < length s"
  by (cases s) (auto split: if_splits simp: le_imp_less_Suc length_dropWhile_le)

lemma numeric_piece_consumes:
  assumes "numeric_piece lineNo g s = Inr (piece, g', s')"
  shows "length s' < length s"
proof -
  have "length (dropWhile isHexDigit (tl (dropWhile isHexDigit s))) \<le> length (dropWhile isHexDigit s)"
    using length_dropWhile_le [of isHexDigit "tl (dropWhile isHexDigit s)"] by simp
  then show ?thesis
    using assms dropWhile_less [of isHexDigit s]
    by (auto simp: numeric_piece_def Let_def split: if_splits prod.splits)
qed

function numeric_pieces :: "nat \<Rightarrow> int list \<Rightarrow> grammar \<Rightarrow> string \<Rightarrow> int list parsed" where
  "numeric_pieces lineNo pieces g s =
     and_parse (numeric_piece lineNo g s)
       (\<lambda>piece g1 s1.
         if s1 \<noteq> [] \<and> hd s1 = CHR ''.'' then numeric_pieces lineNo (pieces @ [piece]) g1 (tl s1)
         else Inr (pieces @ [piece], g1, s1))"
  by pat_completeness auto

termination
  by (relation "measure (\<lambda>(lineNo, pieces, g, s). length s)") (use numeric_piece_consumes in \<open>fastforce\<close>)+

declare numeric_pieces.simps [simp del]

lemma numeric_pieces_consumes:
  "numeric_pieces lineNo pieces g s = Inr (js, g', s') \<Longrightarrow> length s' < length s"
proof (induction lineNo pieces g s rule: numeric_pieces.induct)
  case (1 lineNo pieces g s)
  from "1.prems" obtain piece g1 s1 where p: "numeric_piece lineNo g s = Inr (piece, g1, s1)"
      "(if s1 \<noteq> [] \<and> hd s1 = CHR ''.'' then numeric_pieces lineNo (pieces @ [piece]) g1 (tl s1)
        else Inr (pieces @ [piece], g1, s1)) = Inr (js, g', s')"
    by (auto simp: numeric_pieces.simps [of lineNo pieces g s] and_parse_Inr)
  then show ?case
    using numeric_piece_consumes [OF p(1)] "1.IH" [OF p(1)] by (cases "s1 \<noteq> [] \<and> hd s1 = CHR ''.''") auto
qed

definition parseNumericValue :: "nat \<Rightarrow> grammar \<Rightarrow> string \<Rightarrow> int parsed" where
  "parseNumericValue lineNo g s =
     (if s = [] \<or> (hd s \<noteq> CHR ''x'' \<and> hd s \<noteq> CHR ''X'')
      then Inl (build_error lineNo ''only the %x form of num-val is supported'')
      else and_parse (numeric_pieces lineNo [] g (tl s))
        (\<lambda>pieces g1 s1.
          if length pieces = 1 then Inr (hd pieces, g1, s1)
          else let (seq, g2) = addParent Sequence 0 0 pieces g1 in Inr (seq, g2, s1)))"

lemma parseNumericValue_consumes: "parseNumericValue lineNo g s = Inr (i, g', s') \<Longrightarrow> length s' < length s"
  by (auto simp: parseNumericValue_def and_parse_Inr Let_def split: if_splits prod.splits dest!: numeric_pieces_consumes)

section \<open>Rule bodies\<close>

text \<open>The bounds in front of an element: whether there are any, and the lower and upper one.\<close>

definition repeat_counts :: "nat \<Rightarrow> grammar \<Rightarrow> string \<Rightarrow> (bool \<times> int \<times> int) parsed" where
  "repeat_counts lineNo g s =
     (if s \<noteq> [] \<and> (isDigit (hd s) \<or> hd s = CHR ''*'')
      then let lows = takeWhile isDigit s; s1 = dropWhile isDigit s;
               (low, high, s2) =
                 (if s1 \<noteq> [] \<and> hd s1 = CHR ''*''
                  then let highs = takeWhile isDigit (tl s1)
                    in (if lows = [] then 0 else to_int (strtol 10 lows),
                        if highs = [] then kUnbounded else to_int (strtol 10 highs),
                        dropWhile isDigit (tl s1))
                  else (to_int (strtol 10 lows), to_int (strtol 10 lows), s1))
        in if high \<noteq> kUnbounded \<and> high < low then Inl (build_error lineNo ''repetition range runs backwards'')
           else Inr ((True, low, high), g, s2)
      else Inr ((False, 1, 1), g, s))"

lemma repeat_counts_consumes: "repeat_counts lineNo g s = Inr (r, g', s') \<Longrightarrow> length s' \<le> length s"
  using length_dropWhile_le [of isDigit "tl (dropWhile isDigit s)"] length_dropWhile_le [of isDigit s]
  by (auto simp: repeat_counts_def Let_def split: if_splits)

text \<open>The name behind an optional \<open>$\<close>; the reference captures when the \<open>$\<close> is there.\<close>

definition parseReference :: "nat \<Rightarrow> bool \<Rightarrow> grammar \<Rightarrow> string \<Rightarrow> int parsed" where
  "parseReference lineNo capture g s =
     (let name = takeWhile isRuleChar s;
          (rule, g1) = internRule name g;
          (slot, g2) = (if capture then internCapture name g1 else (kNoCapture, g1));
          (i, g3) = addNode (empty_node\<lparr>n_kind := Reference, n_lo := rule, n_capture := slot\<rparr>) g2
      in Inr (i, g3, dropWhile isRuleChar s))"

text \<open>The bracket that ends a group.\<close>

definition close_group :: "nat \<Rightarrow> char \<Rightarrow> char \<Rightarrow> int \<Rightarrow> grammar \<Rightarrow> string \<Rightarrow> int parsed" where
  "close_group lineNo opener closer i g s =
     (let t = skipBlanks s
      in if t = [] \<or> hd t \<noteq> closer then Inl (build_error lineNo (''unclosed '' @ quoted [opener]))
         else Inr (i, g, tl t))"

text \<open>An element that is no group, from its first character.\<close>

definition plain_element :: "nat \<Rightarrow> char \<Rightarrow> string \<Rightarrow> grammar \<Rightarrow> int parsed" where
  "plain_element lineNo c t g =
     (if c = CHR 0x22 then
        let content = takeWhile (\<lambda>d. d \<noteq> CHR 0x22) t; u = dropWhile (\<lambda>d. d \<noteq> CHR 0x22) t
        in if u = [] then Inl (build_error lineNo ''unterminated string literal'')
           else let (k, g1) = addLiteral content g;
                    (i, g2) = addNode (empty_node\<lparr>n_kind := Literal, n_literal := k\<rparr>) g1
                in Inr (i, g2, tl u)
      else if c = CHR ''%'' then parseNumericValue lineNo g t
      else if c = CHR ''$'' then
        let u = skipBlanks t
        in if u = [] \<or> \<not> isAlpha (hd u)
           then Inl (build_error lineNo (quoted ''$'' @ '' must be followed by a rule name''))
           else parseReference lineNo True g u
      else if isAlpha c then parseReference lineNo False g (c # t)
      else Inl (build_error lineNo (''unexpected character '' @ quoted [c] @ '' in rule body'')))"

lemma parseReference_consumes:
  assumes "parseReference lineNo capture g s = Inr (i, g', s')" and "s \<noteq> []" and "isAlpha (hd s)"
  shows "length s' < length s"
  using assms dropWhile_less [of isRuleChar s]
  by (cases s) (auto simp: parseReference_def isRuleChar_def Let_def split: prod.splits)

lemma plain_element_consumes:
  assumes "plain_element lineNo c t g = Inr (i, g', s')"
  shows "length s' < Suc (length t)"
proof -
  consider (lit) "c = CHR 0x22" | (num) "c = CHR ''%''" | (cap) "c = CHR ''$''"
    | (rule_name) "c \<noteq> CHR 0x22" "c \<noteq> CHR ''%''" "c \<noteq> CHR ''$''" by blast
  then show ?thesis
  proof cases
    case lit
    then show ?thesis
      using assms length_dropWhile_le [of "\<lambda>d. d \<noteq> CHR 0x22" t]
      by (auto simp: plain_element_def Let_def simp del: dropWhile_eq_Nil_conv split: if_splits prod.splits)
  next
    case num
    then show ?thesis using assms parseNumericValue_consumes by (fastforce simp: plain_element_def)
  next
    case cap
    then show ?thesis
      using assms parseReference_consumes [of lineNo True g "skipBlanks t"] length_skipBlanks [of t]
      by (fastforce simp: plain_element_def Let_def split: if_splits)
  next
    case rule_name
    then show ?thesis
      using assms parseReference_consumes [of lineNo False g "c # t"] by (auto simp: plain_element_def split: if_splits)
  qed
qed

lemma close_group_consumes: "close_group lineNo opener closer i g s = Inr (j, g', s') \<Longrightarrow> length s' \<le> length s"
  using length_skipBlanks [of s] by (auto simp: close_group_def Let_def split: if_splits)

function
  parseElement :: "nat \<Rightarrow> grammar \<Rightarrow> string \<Rightarrow> int parsed"
  and parseRepetition :: "nat \<Rightarrow> grammar \<Rightarrow> string \<Rightarrow> int parsed"
  and concatenation_parts :: "nat \<Rightarrow> int list \<Rightarrow> grammar \<Rightarrow> string \<Rightarrow> int list parsed"
  and parseConcatenation :: "nat \<Rightarrow> grammar \<Rightarrow> string \<Rightarrow> int parsed"
  and alternation_branches :: "nat \<Rightarrow> int list \<Rightarrow> grammar \<Rightarrow> string \<Rightarrow> int list parsed"
  and parseAlternation :: "nat \<Rightarrow> grammar \<Rightarrow> string \<Rightarrow> int parsed"
  where
  "parseElement lineNo g s =
     (case skipBlanks s of
        [] \<Rightarrow> Inl (build_error lineNo ''expected an element, found end of rule'')
      | c # t \<Rightarrow>
          if c = CHR ''('' then and_parse (parseAlternation lineNo g t) (\<lambda>i g1 s1. close_group lineNo c (CHR '')'') i g1 s1)
          else if c = CHR ''['' then
            and_parse (parseAlternation lineNo g t)
              (\<lambda>i g1 s1. and_parse (close_group lineNo c (CHR '']'') i g1 s1)
                (\<lambda>i g1 u. let (rep, g2) = addParent Repetition 0 1 [i] g1 in Inr (rep, g2, u)))
          else plain_element lineNo c t g)"
| "parseRepetition lineNo g s =
     and_parse (repeat_counts lineNo g (skipBlanks s))
       (\<lambda>counts g0 s0.
         and_parse (parseElement lineNo g0 s0)
           (\<lambda>i g1 s1.
             let (repeated, low, high) = counts in
             if \<not> repeated then Inr (i, g1, s1)
             else let (rep, g2) = addParent Repetition low high [i] g1 in Inr (rep, g2, s1)))"
| "concatenation_parts lineNo parts g s =
     (case skipBlanks s of
        [] \<Rightarrow> Inr (parts, g, [])
      | c # t \<Rightarrow>
          if c = CHR ''/'' \<or> c = CHR '')'' \<or> c = CHR '']'' then Inr (parts, g, c # t)
          else and_parse (parseRepetition lineNo g (c # t))
                 (\<lambda>part g1 s1. concatenation_parts lineNo (parts @ [part]) g1 s1))"
| "parseConcatenation lineNo g s =
     and_parse (concatenation_parts lineNo [] g s)
       (\<lambda>parts g1 s1.
         if parts = [] then Inl (build_error lineNo ''empty concatenation'')
         else if length parts = 1 then Inr (hd parts, g1, s1)
         else let (seq, g2) = addParent Sequence 0 0 parts g1 in Inr (seq, g2, s1))"
| "alternation_branches lineNo branches g s =
     (case skipBlanks s of
        [] \<Rightarrow> Inr (branches, g, [])
      | c # t \<Rightarrow>
          if c \<noteq> CHR ''/'' then Inr (branches, g, c # t)
          else and_parse (parseConcatenation lineNo g t)
                 (\<lambda>branch g1 s1. alternation_branches lineNo (branches @ [branch]) g1 s1))"
| "parseAlternation lineNo g s =
     and_parse (parseConcatenation lineNo g s)
       (\<lambda>first g1 s1.
         and_parse (alternation_branches lineNo [first] g1 s1)
           (\<lambda>branches g2 s2.
             if length branches = 1 then Inr (hd branches, g2, s2)
             else let (alt, g3) = addParent Alternation 0 0 branches g2 in Inr (alt, g3, s2)))"
  by pat_completeness auto


text \<open>
  The loop of \<open>concatenation_parts\<close> goes on behind what \<open>parseRepetition\<close> has read, so that the
  parsers return rests on an element never being empty.
\<close>

lemma skip_length: "skipBlanks s = c # t \<Longrightarrow> Suc (length t) \<le> length s"
  using length_skipBlanks [of s] by simp

abbreviation "build_dom \<equiv> parseElement_parseRepetition_concatenation_parts_parseConcatenation_alternation_branches_parseAlternation_dom"

lemma parsers_consume:
  "build_dom (Inl (Inl (lineNo, g, s))) \<Longrightarrow> parseElement lineNo g s = Inr (i, g', s') \<Longrightarrow> length s' < length s"
  "build_dom (Inl (Inr (Inl (lineNo, g, s)))) \<Longrightarrow> parseRepetition lineNo g s = Inr (i, g', s') \<Longrightarrow> length s' < length s"
  "build_dom (Inl (Inr (Inr (lineNo, parts, g, s)))) \<Longrightarrow> concatenation_parts lineNo parts g s = Inr (js, g', s') \<Longrightarrow> length s' \<le> length s"
  "build_dom (Inr (Inl (lineNo, g, s))) \<Longrightarrow> parseConcatenation lineNo g s = Inr (i, g', s') \<Longrightarrow> length s' \<le> length s"
  "build_dom (Inr (Inr (Inl (lineNo, branches, g, s)))) \<Longrightarrow> alternation_branches lineNo branches g s = Inr (js, g', s') \<Longrightarrow> length s' \<le> length s"
  "build_dom (Inr (Inr (Inr (lineNo, g, s)))) \<Longrightarrow> parseAlternation lineNo g s = Inr (i, g', s') \<Longrightarrow> length s' \<le> length s"
proof (induction lineNo g s and lineNo g s and lineNo parts g s and lineNo g s and lineNo branches g s and lineNo g s
    arbitrary: i g' s' and i g' s' and js g' s' and i g' s' and js g' s' and i g' s'
    rule: parseElement_parseRepetition_concatenation_parts_parseConcatenation_alternation_branches_parseAlternation.pinduct)
  case (1 lineNo g s)
  from "1.prems" obtain c t where ct: "skipBlanks s = c # t"
    unfolding parseElement.psimps [OF "1.hyps"] by (auto split: list.splits)
  have t: "Suc (length t) \<le> length s" by (rule skip_length [OF ct])
  note run = "1.prems" [unfolded parseElement.psimps [OF "1.hyps"] ct list.case]
  consider "c = CHR ''(''" | "c \<noteq> CHR ''(''" "c = CHR ''[''" | "c \<noteq> CHR ''(''" "c \<noteq> CHR ''[''" by blast
  then show ?case
  proof cases
    case 1
    with run obtain i1 g1 s1 where p: "parseAlternation lineNo g t = Inr (i1, g1, s1)" "length s' \<le> length s1"
      by (auto simp: and_parse_Inr dest: close_group_consumes)
    show ?thesis using "1.IH"(1) [OF ct 1 p(1)] p(2) t by simp
  next
    case 2
    with run obtain i1 g1 s1 where p: "parseAlternation lineNo g t = Inr (i1, g1, s1)" "length s' \<le> length s1"
      by (auto simp: and_parse_Inr Let_def case_prod_beta dest: close_group_consumes)
    show ?thesis using "1.IH"(2) [OF ct 2 p(1)] p(2) t by simp
  next
    case 3
    then show ?thesis using run t plain_element_consumes [of lineNo c t g i g' s'] by simp
  qed
next
  case (2 lineNo g s)
  from "2.prems" obtain counts g0 s0 i1 s1 g1 where r: "repeat_counts lineNo g (skipBlanks s) = Inr (counts, g0, s0)"
      "parseElement lineNo g0 s0 = Inr (i1, g1, s1)" "s' = s1"
    unfolding parseRepetition.psimps [OF "2.hyps"] by (auto simp: and_parse_Inr Let_def split: if_splits prod.splits)
  show ?case
    using "2.IH" [OF r(1,2)] repeat_counts_consumes [OF r(1)] length_skipBlanks [of s] r(3) by simp
next
  case (3 lineNo parts g s)
  note run = "3.prems" [unfolded concatenation_parts.psimps [OF "3.hyps"]]
  show ?case
  proof (cases "skipBlanks s")
    case Nil
    then show ?thesis using run by simp
  next
    case (Cons c t)
    show ?thesis
    proof (cases "c = CHR ''/'' \<or> c = CHR '')'' \<or> c = CHR '']''")
      case True
      then show ?thesis using run skip_length [OF Cons] by (auto simp: Cons)
    next
      case False
      with run obtain part g1 s1 where p: "parseRepetition lineNo g (c # t) = Inr (part, g1, s1)"
          "concatenation_parts lineNo (parts @ [part]) g1 s1 = Inr (js, g', s')" by (auto simp: Cons and_parse_Inr)
      show ?thesis
        using "3.IH"(1) [OF Cons False p(1)] "3.IH"(2) [OF Cons False p] skip_length [OF Cons] by simp
    qed
  qed
next
  case (4 lineNo g s)
  from "4.prems" show ?case
    unfolding parseConcatenation.psimps [OF "4.hyps"]
    by (auto simp: and_parse_Inr split: if_splits prod.splits dest!: "4.IH")
next
  case (5 lineNo branches g s)
  note run = "5.prems" [unfolded alternation_branches.psimps [OF "5.hyps"]]
  show ?case
  proof (cases "skipBlanks s")
    case Nil
    then show ?thesis using run by simp
  next
    case (Cons c t)
    show ?thesis
    proof (cases "c = CHR ''/''")
      case False
      then show ?thesis using run skip_length [OF Cons] by (auto simp: Cons)
    next
      case True
      with run obtain branch g1 s1 where p: "parseConcatenation lineNo g t = Inr (branch, g1, s1)"
          "alternation_branches lineNo (branches @ [branch]) g1 s1 = Inr (js, g', s')" by (auto simp: Cons and_parse_Inr)
      have "\<not> c \<noteq> CHR ''/''" using True by simp
      then show ?thesis
        using "5.IH"(1) [OF Cons _ p(1)] "5.IH"(2) [OF Cons _ p] skip_length [OF Cons] by simp
    qed
  qed
next
  case (6 lineNo g s)
  from "6.prems" obtain first g1 s1 branches g2 where p: "parseConcatenation lineNo g s = Inr (first, g1, s1)"
      "alternation_branches lineNo [first] g1 s1 = Inr (branches, g2, s')"
    unfolding parseAlternation.psimps [OF "6.hyps"]
    by (auto simp: and_parse_Inr case_prod_beta Let_def split: if_splits)
  show ?case using "6.IH"(1) [OF p(1)] "6.IH"(2) [OF p] by simp
qed

termination parseElement
  by (relation "inv_image (less_than <*lex*> less_than) (\<lambda>x. case x of
      Inl (Inl (lineNo, g, s)) \<Rightarrow> (length s, 0)
    | Inl (Inr (Inl (lineNo, g, s))) \<Rightarrow> (length s, 1 :: nat)
    | Inl (Inr (Inr (lineNo, parts, g, s))) \<Rightarrow> (length s, 2)
    | Inr (Inl (lineNo, g, s)) \<Rightarrow> (length s, 3)
    | Inr (Inr (Inl (lineNo, branches, g, s))) \<Rightarrow> (length s, 4)
    | Inr (Inr (Inr (lineNo, g, s))) \<Rightarrow> (length s, 5))")
    (auto dest!: skip_length parsers_consume repeat_counts_consumes simp: le_less [symmetric] length_skipBlanks
      intro: le_trans [OF _ length_skipBlanks])


declare parseElement.simps [simp del] parseRepetition.simps [simp del] concatenation_parts.simps [simp del]
  parseConcatenation.simps [simp del] alternation_branches.simps [simp del] parseAlternation.simps [simp del]

section \<open>Rules\<close>

definition setRoot :: "int \<Rightarrow> int \<Rightarrow> grammar \<Rightarrow> grammar" where
  "setRoot rule root g = g\<lparr>g_ruleRoots := (g_ruleRoots g)[nat rule := root]\<rparr>"

text \<open>A line \<open>name = body\<close> or \<open>name =/ body\<close>; the second adds an alternative to a rule.\<close>

definition parseRule :: "nat \<Rightarrow> string \<Rightarrow> grammar \<Rightarrow> string + grammar" where
  "parseRule lineNo line g =
     (let s = skipBlanks line in
      if s = [] then Inr g
      else if \<not> isAlpha (hd s) then Inl (build_error lineNo ''a rule must begin with a rule name'')
      else let name = takeWhile isRuleChar s; s1 = skipBlanks (dropWhile isRuleChar s) in
        if s1 = [] \<or> hd s1 \<noteq> CHR ''=''
        then Inl (build_error lineNo (''expected '' @ quoted ''='' @ '' or '' @ quoted ''=/'' @ '' after rule name '' @ quoted name))
        else let s2 = tl s1;
                 incremental = (s2 \<noteq> [] \<and> hd s2 = CHR ''/'');
                 (rule, g1) = internRule name g
          in case parseAlternation lineNo g1 (if incremental then tl s2 else s2) of
               Inl e \<Rightarrow> Inl e
             | Inr (body, g2, s3) \<Rightarrow>
                 if skipBlanks s3 \<noteq> [] then Inl (build_error lineNo (''trailing text after rule '' @ quoted name))
                 else if incremental
                 then if ruleRoot g2 rule = kNoRule
                      then Inl (build_error lineNo ([CHR 0x27] @ name @ '' =/'' @ [CHR 0x27] @ '' before that rule was ever defined''))
                      else let (alt, g3) = addParent Alternation 0 0 [ruleRoot g2 rule, body] g2 in Inr (setRoot rule alt g3)
                 else if ruleRoot g2 rule \<noteq> kNoRule
                 then Inl (build_error lineNo (''rule '' @ quoted name @ '' is defined twice (use '' @ quoted ''=/'' @ '' to extend it)''))
                 else Inr (setRoot rule body g2))"

fun parseRules :: "(string \<times> nat) list \<Rightarrow> grammar \<Rightarrow> string + grammar" where
  "parseRules [] g = Inr g"
| "parseRules ((line, lineNo) # ls) g =
     (case parseRule lineNo line g of Inl e \<Rightarrow> Inl e | Inr g' \<Rightarrow> parseRules ls g')"

end
