(* ===== verification/Single_Octet.thy ===== *)
theory Single_Octet
  imports Grammar_Language
begin

text \<open>
  The nodes \<open>src/grammar/interpreted/TreeMatcher.cpp\<close> takes a whole run of in one loop: those
  that match exactly one octet and capture nothing.

  The code caches \<open>isSingleOctet\<close> and the bit maps per node; a node whose answer is being
  computed counts as a no, which \<open>busy\<close> stands for here.  \<open>Octet_Memo\<close> has the caches
  themselves and shows that they hold the values computed here.
\<close>

section \<open>Nodes that match one octet\<close>

function isSingleOctet :: "grammar \<Rightarrow> int list \<Rightarrow> int \<Rightarrow> bool" where
  "isSingleOctet g busy i =
     (if i \<in> set busy \<or> \<not> in_range i (g_nodes g) then False
      else let n = node g i in
        case n_kind n of
          OctetRange \<Rightarrow> True
        | Literal \<Rightarrow> length (literal g (n_literal n)) = 1
        | Reference \<Rightarrow> n_capture n = kNoCapture \<and> ruleRoot g (n_lo n) \<noteq> kNoRule \<and>
            isSingleOctet g (i # busy) (ruleRoot g (n_lo n))
        | Alternation \<Rightarrow> 0 < n_count n \<and> (\<forall>j \<in> set (kids g n). isSingleOctet g (i # busy) j)
        | _ \<Rightarrow> False)"
  by pat_completeness auto

definition idle :: "grammar \<Rightarrow> int list \<Rightarrow> nat" where
  "idle g busy = card ({0..<int (length (g_nodes g))} - set busy)"

lemma idle_less [intro]:
  assumes "i \<notin> set busy" and "in_range i (g_nodes g)"
  shows "idle g (i # busy) < idle g busy"
proof -
  let ?N = "{0..<int (length (g_nodes g))}"
  have "i \<in> ?N - set busy" using assms by (simp add: in_range_def)
  moreover have "?N - set (i # busy) = (?N - set busy) - {i}" by auto
  ultimately show ?thesis unfolding idle_def by (metis card_Diff1_less finite_Diff finite_atLeastLessThan_int)
qed

termination isSingleOctet
  by (relation "measure (\<lambda>(g, busy, i). idle g busy)") (auto intro: idle_less simp del: list.set)

declare isSingleOctet.simps [simp del]

function octetMatches :: "grammar \<Rightarrow> int list \<Rightarrow> int \<Rightarrow> char \<Rightarrow> bool" where
  "octetMatches g busy i c =
     (if i \<in> set busy \<or> \<not> in_range i (g_nodes g) then False
      else let n = node g i in
        case n_kind n of
          OctetRange \<Rightarrow> octet_in n c
        | Literal \<Rightarrow> length (literal g (n_literal n)) = 1 \<and> fold_char (literal g (n_literal n) ! 0) = fold_char c
        | Reference \<Rightarrow> ruleRoot g (n_lo n) \<noteq> kNoRule \<and> octetMatches g (i # busy) (ruleRoot g (n_lo n)) c
        | Alternation \<Rightarrow> \<exists>j \<in> set (kids g n). octetMatches g (i # busy) j c
        | _ \<Rightarrow> False)"
  by pat_completeness auto

termination octetMatches
  by (relation "measure (\<lambda>(g, busy, i, c). idle g busy)") (auto intro: idle_less simp del: list.set)

declare octetMatches.simps [simp del]

definition octetBitmap :: "grammar \<Rightarrow> int \<Rightarrow> octets" where
  "octetBitmap g i =
     foldl (\<lambda>bits c. if octetMatches g [] i (char_of c) then the (setBit (int c) bits) else bits) no_octets [0..<256]"

lemma single_octet_yields:
  assumes "isSingleOctet g busy i"
  shows "yields g i s cs \<longleftrightarrow> cs = [] \<and> (\<exists>c. s = [c] \<and> octetMatches g busy i c)"
  using assms
proof (induction g busy i arbitrary: s cs rule: isSingleOctet.induct)
  case (1 g busy i)
  have r: "i \<notin> set busy" "in_range i (g_nodes g)"
    using "1.prems" by (auto simp: isSingleOctet.simps [of g busy i] split: if_splits)
  note ih = "1.IH" [of "node g i"]
  let ?n = "node g i"
  have so: "isSingleOctet g busy i = (case n_kind ?n of
          OctetRange \<Rightarrow> True
        | Literal \<Rightarrow> length (literal g (n_literal ?n)) = 1
        | Reference \<Rightarrow> n_capture ?n = kNoCapture \<and> ruleRoot g (n_lo ?n) \<noteq> kNoRule \<and>
            isSingleOctet g (i # busy) (ruleRoot g (n_lo ?n))
        | Alternation \<Rightarrow> 0 < n_count ?n \<and> (\<forall>j \<in> set (kids g ?n). isSingleOctet g (i # busy) j)
        | _ \<Rightarrow> False)"
    using r by (simp add: isSingleOctet.simps [of g busy i] Let_def)
  have om: "octetMatches g busy i c = (case n_kind ?n of
          OctetRange \<Rightarrow> octet_in ?n c
        | Literal \<Rightarrow> length (literal g (n_literal ?n)) = 1 \<and> fold_char (literal g (n_literal ?n) ! 0) = fold_char c
        | Reference \<Rightarrow> ruleRoot g (n_lo ?n) \<noteq> kNoRule \<and> octetMatches g (i # busy) (ruleRoot g (n_lo ?n)) c
        | Alternation \<Rightarrow> \<exists>j \<in> set (kids g ?n). octetMatches g (i # busy) j c
        | _ \<Rightarrow> False)" for c
    using r by (simp add: octetMatches.simps [of g busy i] Let_def)
  show ?case
  proof (cases "n_kind ?n")
    case Reference
    then have k: "n_capture ?n = kNoCapture" "ruleRoot g (n_lo ?n) \<noteq> kNoRule"
        "isSingleOctet g (i # busy) (ruleRoot g (n_lo ?n))"
      using "1.prems" so by simp_all
    have "yields g i s cs \<longleftrightarrow> yields g (ruleRoot g (n_lo ?n)) s cs"
      using Reference k yield_reference [of g i s cs]
      by (auto simp: closing_def elim: yields_E)
    then show ?thesis
      using "1.IH"(1) [OF _ refl Reference] r k by (simp add: om Reference)
  next
    case Alternation
    then have k: "\<forall>j \<in> set (kids g ?n). isSingleOctet g (i # busy) j" using "1.prems" so by simp
    have "yields g i s cs \<longleftrightarrow> (\<exists>j \<in> set (kids g ?n). yields g j s cs)"
      using Alternation yield_alternation [of g i] by (auto elim: yields_E)
    then show ?thesis
      using "1.IH"(2) [OF _ refl Alternation] r k by (auto simp: om Alternation)
  next
    case Literal
    then have "length (literal g (n_literal ?n)) = 1" using "1.prems" so by simp
    then obtain d where d: "literal g (n_literal ?n) = [d]" by (metis length_0_conv length_Suc_conv One_nat_def)
    have "yields g i s cs \<longleftrightarrow> cs = [] \<and> map fold_char s = [fold_char d]"
      using Literal yield_literal [of g i s] by (auto simp: d elim: yields_E)
    then show ?thesis by (auto simp: om Literal d)
  next
    case OctetRange
    have "yields g i s cs \<longleftrightarrow> cs = [] \<and> (\<exists>c. s = [c] \<and> octet_in ?n c)"
      using OctetRange yield_octet [of g i] by (auto elim: yields_E)
    then show ?thesis by (auto simp: om OctetRange)
  qed (use "1.prems" so in simp_all)
qed

lemma bitmap_loop:
  assumes "n \<le> 256"
  shows "let bits = foldl (\<lambda>bits c. if P (char_of c) then the (setBit (int c) bits) else bits) no_octets [0..<n] in
    length bits = 32 \<and> (\<forall>c. inClass bits c \<longleftrightarrow> octet c < int n \<and> P c)"
  using assms
proof (induction n)
  case 0
  then show ?case by (simp add: Let_def leD)
next
  case (Suc n)
  let ?b = "foldl (\<lambda>bits c. if P (char_of c) then the (setBit (int c) bits) else bits) no_octets [0..<n]"
  have IH: "length ?b = 32" "\<And>c. inClass ?b c \<longleftrightarrow> octet c < int n \<and> P c"
    using Suc by (simp_all add: Let_def)
  let ?d = "char_of n :: char"
  have d: "octet ?d = int n" using Suc.prems by (simp add: octet_def of_char_of take_bit_nat_eq_self)
  obtain b' where b': "setBit (octet ?d) ?b = Some b'" "length b' = 32" "\<And>c. inClass b' c \<longleftrightarrow> c = ?d \<or> inClass ?b c"
    using setBit_octet [OF IH(1), of ?d] by blast
  have eq: "octet c < int (Suc n) \<longleftrightarrow> octet c < int n \<or> c = ?d" for c
  proof -
    have "octet c < int (Suc n) \<longleftrightarrow> octet c < int n \<or> octet c = octet ?d" using d by linarith
    then show ?thesis by simp
  qed
  show ?case
    using b' IH eq d by (auto simp: Let_def)
qed

lemma octetBitmap_lookup: "inClass (octetBitmap g i) c = octetMatches g [] i c"
proof -
  have "octet c < 256" by simp
  then show ?thesis
    using bitmap_loop [of 256 "octetMatches g [] i"] by (simp add: octetBitmap_def Let_def)
qed

end
