(* ===== verification/Program_Compiler.thy ===== *)
theory Program_Compiler
  imports Single_Octet
begin

text \<open>
  \<open>src/grammar/compiled/Program.cpp\<close> and \<open>ProgramCompiler.cpp\<close>: a grammar rule is turned
  into a flat program of five instructions, with rules inlined and repetitions unrolled.

  A step of the compiler ends in one of three ways: it has emitted its instructions, it has
  refused the grammar with a message, or it has left what C++ defines.  The last is a write
  outside the 32 bytes of a class (an octet range above 255), the endless recursion of
  \<open>hasCapture\<close> through a rule that contains itself, or an index outside the arena; an arena
  whose children do not lie below their parent is not one the builder makes and counts as
  the same.
\<close>

section \<open>Programs\<close>

datatype op = Class | Split | Jump | Save | Match

record instruction =
  i_op :: op
  i_x :: int
  i_y :: int

record program =
  pg_code :: "instruction list"
  pg_classes :: "octets list"
  pg_slotCapture :: "int list"

definition empty_program :: program where
  "empty_program = \<lparr>pg_code = [], pg_classes = [], pg_slotCapture = []\<rparr>"

definition program_inClass :: "program \<Rightarrow> int \<Rightarrow> char \<Rightarrow> bool" where
  "program_inClass p k c = inClass (pg_classes p ! nat k) c"

section \<open>Steps of the compiler\<close>

datatype 'a emitted = Emitted 'a | Failed string | Undefined

definition and_then :: "'a emitted \<Rightarrow> ('a \<Rightarrow> 'b emitted) \<Rightarrow> 'b emitted" where
  "and_then m f = (case m of Emitted a \<Rightarrow> f a | Failed e \<Rightarrow> Failed e | Undefined \<Rightarrow> Undefined)"

lemma and_then_simps [simp]:
  "and_then (Emitted a) f = f a" "and_then (Failed e) f = Failed e" "and_then Undefined f = Undefined"
  by (simp_all add: and_then_def)

lemma and_then_cong [fundef_cong]:
  "m = m' \<Longrightarrow> (\<And>a. m' = Emitted a \<Longrightarrow> f a = f' a) \<Longrightarrow> and_then m f = and_then m' f'"
  by (cases m') (simp_all add: and_then_def)

lemma and_then_Emitted: "and_then m f = Emitted b \<longleftrightarrow> (\<exists>a. m = Emitted a \<and> f a = Emitted b)"
  by (cases m) simp_all

definition compile_fail :: "string \<Rightarrow> 'a emitted" where
  "compile_fail message = Failed (''program: '' @ message)"

abbreviation kUnrollLimit :: int where "kUnrollLimit \<equiv> 64"

definition pc_of :: "program \<Rightarrow> int" where
  "pc_of p = int (length (pg_code p))"

definition emit :: "op \<Rightarrow> int \<Rightarrow> int \<Rightarrow> program \<Rightarrow> program" where
  "emit oper x y p = p\<lparr>pg_code := pg_code p @ [\<lparr>i_op = oper, i_x = x, i_y = y\<rparr>]\<rparr>"

definition patch_x :: "int \<Rightarrow> int \<Rightarrow> program \<Rightarrow> program" where
  "patch_x pc x p = p\<lparr>pg_code := (pg_code p)[nat pc := (pg_code p ! nat pc)\<lparr>i_x := x\<rparr>]\<rparr>"

definition patch_y :: "int \<Rightarrow> int \<Rightarrow> program \<Rightarrow> program" where
  "patch_y pc y p = p\<lparr>pg_code := (pg_code p)[nat pc := (pg_code p ! nat pc)\<lparr>i_y := y\<rparr>]\<rparr>"

definition patch_all_x :: "int list \<Rightarrow> int \<Rightarrow> program \<Rightarrow> program" where
  "patch_all_x pcs x p = foldl (\<lambda>p pc. patch_x pc x p) p pcs"

definition patch_all_y :: "int list \<Rightarrow> int \<Rightarrow> program \<Rightarrow> program" where
  "patch_all_y pcs y p = foldl (\<lambda>p pc. patch_y pc y p) p pcs"

definition addClass :: "octets \<Rightarrow> program \<Rightarrow> int \<times> program" where
  "addClass bits p =
     (if index_of bits (pg_classes p) \<noteq> -1 then (index_of bits (pg_classes p), p)
      else (int (length (pg_classes p)), p\<lparr>pg_classes := pg_classes p @ [bits]\<rparr>))"

definition emitClass :: "octets \<Rightarrow> program \<Rightarrow> program" where
  "emitClass bits p = (let (k, p') = addClass bits p in emit Class k 0 p')"

definition setBits :: "int list \<Rightarrow> octets \<Rightarrow> octets option" where
  "setBits cs bits = foldl (\<lambda>b c. Option.bind b (setBit c)) (Some bits) cs"

definition upper_of :: "char \<Rightarrow> char" where
  "upper_of c = (if CHR ''a'' \<le> c \<and> c \<le> CHR ''z'' then char_of (of_char c - 97 + 65 :: nat) else c)"

section \<open>Classes of single octets\<close>

function buildClass :: "grammar \<Rightarrow> int list \<Rightarrow> int \<Rightarrow> octets \<Rightarrow> (bool \<times> octets) option"
  and buildClasses :: "grammar \<Rightarrow> int list \<Rightarrow> int list \<Rightarrow> octets \<Rightarrow> (bool \<times> octets) option" where
  "buildClass g busy i bits =
     (if i \<in> set busy \<or> \<not> in_range i (g_nodes g) then None
      else let n = node g i in
        case n_kind n of
          OctetRange \<Rightarrow> map_option (Pair True) (setBits [n_lo n..n_hi n] bits)
        | Literal \<Rightarrow>
            let s = literal g (n_literal n) in
            if length s \<noteq> 1 then Some (False, bits)
            else map_option (Pair True)
              (setBits [octet (s ! 0), octet (fold_char (s ! 0)), octet (upper_of (fold_char (s ! 0)))] bits)
        | Reference \<Rightarrow>
            if ruleRoot g (n_lo n) = kNoRule then Some (False, bits)
            else buildClass g (i # busy) (ruleRoot g (n_lo n)) bits
        | Alternation \<Rightarrow> buildClasses g (i # busy) (kids g n) bits
        | _ \<Rightarrow> Some (False, bits))"
| "buildClasses g busy [] bits = Some (True, bits)"
| "buildClasses g busy (j # js) bits =
     (case buildClass g busy j bits of
        None \<Rightarrow> None
      | Some (ok, bits') \<Rightarrow> if ok then buildClasses g busy js bits' else Some (False, bits'))"
  by pat_completeness auto

termination
  by (relation "inv_image (less_than <*lex*> less_than <*lex*> less_than)
      (\<lambda>s. case s of Inl (g, busy, i, bits) \<Rightarrow> (idle g busy, 0, 0)
                   | Inr (g, busy, js, bits) \<Rightarrow> (idle g busy, 1, length js))")
    (auto intro: idle_less simp del: list.set)

section \<open>Captures below a node\<close>

definition free_rules :: "grammar \<Rightarrow> int list \<Rightarrow> nat" where
  "free_rules g entered = card ({0..<int (length (g_ruleRoots g))} - set entered)"

lemma free_rules_less [intro]:
  assumes "r \<notin> set entered" and "ruleRoot g r \<noteq> kNoRule"
  shows "free_rules g (r # entered) < free_rules g entered"
proof -
  let ?N = "{0..<int (length (g_ruleRoots g))}"
  have "r \<in> ?N - set entered"
    using assms by (auto simp: in_range_def ruleRoot_def split: if_splits)
  moreover have "?N - set (r # entered) = (?N - set entered) - {r}" by auto
  ultimately show ?thesis unfolding free_rules_def by (metis card_Diff1_less finite_Diff finite_atLeastLessThan_int)
qed

text \<open>\<open>None\<close> is the recursion that does not end: the same rule is entered again on the way down.\<close>

function hasCapture :: "grammar \<Rightarrow> int list \<Rightarrow> int \<Rightarrow> bool option"
  and hasCaptures :: "grammar \<Rightarrow> int list \<Rightarrow> int \<Rightarrow> int list \<Rightarrow> bool option" where
  "hasCapture g entered i =
     (if \<not> in_range i (g_nodes g) then None
      else let n = node g i in
        if n_kind n = Reference
        then if n_capture n \<noteq> kNoCapture then Some True
             else if ruleRoot g (n_lo n) = kNoRule then Some False
             else if n_lo n \<in> set entered then None
             else hasCapture g (n_lo n # entered) (ruleRoot g (n_lo n))
        else hasCaptures g entered i (kids g n))"
| "hasCaptures g entered i [] = Some False"
| "hasCaptures g entered i (j # js) =
     (if 0 \<le> j \<and> j < i
      then case hasCapture g entered j of
             None \<Rightarrow> None
           | Some yes \<Rightarrow> if yes then Some True else hasCaptures g entered i js
      else None)"
  by pat_completeness auto

termination
  by (relation "inv_image (less_than <*lex*> less_than <*lex*> less_than <*lex*> less_than)
      (\<lambda>s. case s of Inl (g, entered, i) \<Rightarrow> (free_rules g entered, nat i, 1, 0)
                   | Inr (g, entered, i, js) \<Rightarrow> (free_rules g entered, nat i, 0, length js))")
    (auto intro: free_rules_less simp del: list.set)

declare buildClass.simps [simp del] hasCapture.simps [simp del]

section \<open>Emitting a node\<close>

definition recursive_error :: "grammar \<Rightarrow> int \<Rightarrow> string" where
  "recursive_error g r = ''rule '' @ [CHR 0x27] @ ruleName g r @ [CHR 0x27] @
     '' is recursive; the compiled strategy inlines rules and cannot express recursion''"

definition capture_error :: string where
  "capture_error = ''a capture inside an unbounded repetition cannot be compiled: the loop reuses one slot pair, so only the last match would survive. Give the repetition an upper bound so it can be unrolled.''"

definition emitOctets :: "int list \<Rightarrow> program \<Rightarrow> program emitted" where
  "emitOctets cs p = (case setBits cs no_octets of None \<Rightarrow> Undefined | Some bits \<Rightarrow> Emitted (emitClass bits p))"

fun emitLiteral :: "string \<Rightarrow> program \<Rightarrow> program emitted" where
  "emitLiteral [] p = Emitted p"
| "emitLiteral (c # cs) p =
     and_then (emitOctets [octet (fold_char c), octet (upper_of (fold_char c))] p) (emitLiteral cs)"

text \<open>
  \<open>compiling\<close> lists the rules whose flag is set; the code clears a flag on leaving the
  rule, so it is an argument.  \<open>emitSequence\<close>, \<open>emitAlternatives\<close> and \<open>emitOptional\<close> are the
  three loops; the last two also return the jumps and splits still to be patched.
\<close>

function emitNode :: "grammar \<Rightarrow> int list \<Rightarrow> int \<Rightarrow> program \<Rightarrow> program emitted"
  and emitRepetition :: "grammar \<Rightarrow> int list \<Rightarrow> int \<Rightarrow> program \<Rightarrow> program emitted"
  and emitBody :: "grammar \<Rightarrow> int list \<Rightarrow> int \<Rightarrow> int \<Rightarrow> nat \<Rightarrow> program \<Rightarrow> program emitted"
  and emitOptional :: "grammar \<Rightarrow> int list \<Rightarrow> int \<Rightarrow> int \<Rightarrow> nat \<Rightarrow> program \<Rightarrow> (int list \<times> program) emitted"
  and emitSequence :: "grammar \<Rightarrow> int list \<Rightarrow> int \<Rightarrow> int list \<Rightarrow> program \<Rightarrow> program emitted"
  and emitAlternatives :: "grammar \<Rightarrow> int list \<Rightarrow> int \<Rightarrow> int list \<Rightarrow> program \<Rightarrow> (int list \<times> program) emitted"
  and emitInline :: "grammar \<Rightarrow> int list \<Rightarrow> int \<Rightarrow> int \<Rightarrow> program \<Rightarrow> program emitted"
  where
  "emitNode g compiling i p =
     (if \<not> in_range i (g_nodes g) then Undefined
      else case (if isSingleOctet g [] i then buildClass g [] i no_octets else Some (False, no_octets)) of
        None \<Rightarrow> Undefined
      | Some (ok, bits) \<Rightarrow>
          if ok then Emitted (emitClass bits p)
          else let n = node g i in
            case n_kind n of
              OctetRange \<Rightarrow> emitOctets [n_lo n..n_hi n] p
            | Literal \<Rightarrow> emitLiteral (literal g (n_literal n)) p
            | Reference \<Rightarrow>
                if ruleRoot g (n_lo n) = kNoRule then compile_fail ''undefined rule reference''
                else if n_lo n \<in> set compiling then compile_fail (recursive_error g (n_lo n))
                else if n_capture n = kNoCapture then emitNode g (n_lo n # compiling) (ruleRoot g (n_lo n)) p
                else let slot = int (length (pg_slotCapture p));
                         p1 = emit Save (slot * 2) 0 (p\<lparr>pg_slotCapture := pg_slotCapture p @ [n_capture n]\<rparr>)
                     in and_then (emitNode g (n_lo n # compiling) (ruleRoot g (n_lo n)) p1)
                          (\<lambda>p2. Emitted (emit Save (slot * 2 + 1) 0 p2))
            | Sequence \<Rightarrow> emitSequence g compiling i (kids g n) p
            | Alternation \<Rightarrow>
                and_then (emitAlternatives g compiling i (kids g n) p)
                  (\<lambda>(jumps, p'). Emitted (patch_all_x jumps (pc_of p') p'))
            | Repetition \<Rightarrow> emitRepetition g compiling i p)"
| "emitRepetition g compiling i p =
     (let n = node g i; j = child g (n_first n); least = max 0 (n_lo n) in
        and_then (emitBody g compiling i j (nat least) p)
          (\<lambda>p1.
            if n_hi n = kUnbounded
            then case hasCapture g [] j of
                   None \<Rightarrow> Undefined
                 | Some yes \<Rightarrow>
                     if yes then compile_fail capture_error
                     else let loop = pc_of p1; p2 = patch_x loop (loop + 1) (emit Split 0 0 p1) in
                       and_then (emitInline g compiling i j p2)
                         (\<lambda>p3. let p4 = emit Jump loop 0 p3 in Emitted (patch_y loop (pc_of p4) p4))
            else if n_hi n - least < 0 then compile_fail ''repetition range runs backwards''
            else if kUnrollLimit < n_hi n - least then compile_fail ''bounded repetition too large to unroll''
            else and_then (emitOptional g compiling i j (nat (n_hi n - least)) p1)
                   (\<lambda>(exits, p2). Emitted (patch_all_y exits (pc_of p2) p2))))"
| "emitBody g compiling i j 0 p = Emitted p"
| "emitBody g compiling i j (Suc m) p = and_then (emitInline g compiling i j p) (emitBody g compiling i j m)"
| "emitOptional g compiling i j 0 p = Emitted ([], p)"
| "emitOptional g compiling i j (Suc m) p =
     (let split = pc_of p in
        and_then (emitInline g compiling i j (patch_x split (split + 1) (emit Split 0 0 p)))
          (\<lambda>p1. and_then (emitOptional g compiling i j m p1)
             (\<lambda>(exits, p2). Emitted (split # exits, p2))))"
| "emitSequence g compiling i [] p = Emitted p"
| "emitSequence g compiling i (j # js) p = and_then (emitInline g compiling i j p) (emitSequence g compiling i js)"
| "emitAlternatives g compiling i [] p = Emitted ([], p)"
| "emitAlternatives g compiling i (j # js) p =
     (if js = [] then and_then (emitInline g compiling i j p) (\<lambda>p1. Emitted ([], p1))
      else let split = pc_of p in
        and_then (emitInline g compiling i j (patch_x split (split + 1) (emit Split 0 0 p)))
          (\<lambda>p1. let jump = pc_of p1; p2 = emit Jump 0 0 p1; p3 = patch_y split (pc_of p2) p2 in
             and_then (emitAlternatives g compiling i js p3) (\<lambda>(jumps, p4). Emitted (jump # jumps, p4))))"
| "emitInline g compiling i j p = (if 0 \<le> j \<and> j < i then emitNode g compiling j p else Undefined)"
  by pat_completeness auto

abbreviation "emit_measure \<equiv> \<lambda>s. case s of
    Inl (Inl (g, compiling, i, p)) \<Rightarrow> (free_rules g compiling, nat i, 3, 0)
  | Inl (Inr (Inl (g, compiling, i, p))) \<Rightarrow> (free_rules g compiling, nat i, 2, 0)
  | Inl (Inr (Inr (g, compiling, i, j, m, p))) \<Rightarrow> (free_rules g compiling, nat i, 1, m)
  | Inr (Inl (Inl (g, compiling, i, j, m, p))) \<Rightarrow> (free_rules g compiling, nat i, 1, m)
  | Inr (Inl (Inr (g, compiling, i, js, p))) \<Rightarrow> (free_rules g compiling, nat i, 1, length js)
  | Inr (Inr (Inl (g, compiling, i, js, p))) \<Rightarrow> (free_rules g compiling, nat i, 1, length js)
  | Inr (Inr (Inr (g, compiling, i, j, p))) \<Rightarrow> (free_rules g compiling, nat i, 0, 0)"

termination emitNode
  by (relation "inv_image (less_than <*lex*> less_than <*lex*> less_than <*lex*> less_than) emit_measure")
    (auto intro: free_rules_less simp del: list.set)

declare emitNode.simps [simp del] emitRepetition.simps [simp del] emitInline.simps [simp del]

definition compileRule :: "grammar \<Rightarrow> int \<Rightarrow> program emitted" where
  "compileRule g rule =
     (if ruleRoot g rule = kNoRule then compile_fail ''no such rule''
      else and_then (emitNode g [] (ruleRoot g rule) empty_program) (\<lambda>p. Emitted (emit Match 0 0 p)))"

end
