(* ===== verification/Grammar_Validator.thy ===== *)
theory Grammar_Validator
  imports Grammar_Builder Program_Compiler
begin

text \<open>
  \<open>src/grammar/GrammarValidator.cpp\<close>: the checks of a parsed grammar, every rule defined and
  no rule left-recursive; and \<open>GrammarBuilder::compile\<close>, which runs them.

  The vectors of flags \<open>busy\<close> and \<open>seen\<close> are the lists of the rules whose flag is set;
  \<open>busy\<close> is cleared on leaving a rule, so it is an argument.  \<open>None\<close> is a run that C++ leaves
  undefined or that does not end: an index outside the arena, a child that does not lie
  below its parent.
\<close>

section \<open>Nullable nodes\<close>

function isNullable :: "grammar \<Rightarrow> int list \<Rightarrow> int \<Rightarrow> bool option"
  and all_nullable :: "grammar \<Rightarrow> int list \<Rightarrow> int \<Rightarrow> int list \<Rightarrow> bool option"
  and some_nullable :: "grammar \<Rightarrow> int list \<Rightarrow> int \<Rightarrow> int list \<Rightarrow> bool option" where
  "isNullable g busy i =
     (if \<not> in_range i (g_nodes g) then None
      else let n = node g i in
        case n_kind n of
          Literal \<Rightarrow> Some (literal g (n_literal n) = [])
        | OctetRange \<Rightarrow> Some False
        | Reference \<Rightarrow>
            if \<not> in_range (n_lo n) (g_ruleRoots g) then None
            else if n_lo n \<in> set busy then Some False
            else if ruleRoot g (n_lo n) = kNoRule then Some True
            else isNullable g (n_lo n # busy) (ruleRoot g (n_lo n))
        | Sequence \<Rightarrow> all_nullable g busy i (kids g n)
        | Alternation \<Rightarrow> some_nullable g busy i (kids g n)
        | Repetition \<Rightarrow> if n_lo n = 0 then Some True else all_nullable g busy i [child g (n_first n)])"
| "all_nullable g busy i [] = Some True"
| "all_nullable g busy i (j # js) =
     (if 0 \<le> j \<and> j < i
      then case isNullable g busy j of
             None \<Rightarrow> None
           | Some yes \<Rightarrow> if yes then all_nullable g busy i js else Some False
      else None)"
| "some_nullable g busy i [] = Some False"
| "some_nullable g busy i (j # js) =
     (if 0 \<le> j \<and> j < i
      then case isNullable g busy j of
             None \<Rightarrow> None
           | Some yes \<Rightarrow> if yes then Some True else some_nullable g busy i js
      else None)"
  by pat_completeness auto

termination
  by (relation "inv_image (less_than <*lex*> less_than <*lex*> less_than <*lex*> less_than)
      (\<lambda>s. case s of Inl (g, busy, i) \<Rightarrow> (free_rules g busy, nat i, 1, 0)
                   | Inr (Inl (g, busy, i, js)) \<Rightarrow> (free_rules g busy, nat i, 0, length js)
                   | Inr (Inr (g, busy, i, js)) \<Rightarrow> (free_rules g busy, nat i, 0, length js))")
    (auto intro: free_rules_less simp del: list.set)

declare isNullable.simps [simp del]

section \<open>The rules a node can start with\<close>

function collectLeftReachable :: "grammar \<Rightarrow> int \<Rightarrow> int list \<Rightarrow> int list option"
  and collect_sequence :: "grammar \<Rightarrow> int \<Rightarrow> int list \<Rightarrow> int list \<Rightarrow> int list option"
  and collect_all :: "grammar \<Rightarrow> int \<Rightarrow> int list \<Rightarrow> int list \<Rightarrow> int list option" where
  "collectLeftReachable g i seen =
     (if \<not> in_range i (g_nodes g) then None
      else let n = node g i in
        case n_kind n of
          Literal \<Rightarrow> Some seen
        | OctetRange \<Rightarrow> Some seen
        | Reference \<Rightarrow>
            if \<not> in_range (n_lo n) (g_ruleRoots g) then None
            else if n_lo n \<in> set seen then Some seen
            else if ruleRoot g (n_lo n) = kNoRule then Some (n_lo n # seen)
            else collectLeftReachable g (ruleRoot g (n_lo n)) (n_lo n # seen)
        | Sequence \<Rightarrow> collect_sequence g i (kids g n) seen
        | Alternation \<Rightarrow> collect_all g i (kids g n) seen
        | Repetition \<Rightarrow> collect_all g i [child g (n_first n)] seen)"
| "collect_sequence g i [] seen = Some seen"
| "collect_sequence g i (j # js) seen =
     (if 0 \<le> j \<and> j < i
      then case collectLeftReachable g j seen of
             None \<Rightarrow> None
           | Some seen' \<Rightarrow>
               (case isNullable g [] j of
                  None \<Rightarrow> None
                | Some yes \<Rightarrow> if yes then collect_sequence g i js seen' else Some seen')
      else None)"
| "collect_all g i [] seen = Some seen"
| "collect_all g i (j # js) seen =
     (if 0 \<le> j \<and> j < i
      then case collectLeftReachable g j seen of
             None \<Rightarrow> None
           | Some seen' \<Rightarrow> collect_all g i js seen'
      else None)"
  by pat_completeness auto

abbreviation "collect_dom \<equiv> collectLeftReachable_collect_sequence_collect_all_dom"

lemma collect_grows:
  "collect_dom (Inl (g, i, seen)) \<Longrightarrow> collectLeftReachable g i seen = Some seen' \<Longrightarrow> set seen \<subseteq> set seen'"
  "collect_dom (Inr (Inl (g, i, js, seen))) \<Longrightarrow> collect_sequence g i js seen = Some seen' \<Longrightarrow> set seen \<subseteq> set seen'"
  "collect_dom (Inr (Inr (g, i, js, seen))) \<Longrightarrow> collect_all g i js seen = Some seen' \<Longrightarrow> set seen \<subseteq> set seen'"
proof (induction g i seen and g i js seen and g i js seen arbitrary: seen' and seen' and seen'
    rule: collectLeftReachable_collect_sequence_collect_all.pinduct)
  case (1 g i seen)
  note run = "1.prems" [unfolded collectLeftReachable.psimps [OF "1.hyps"]]
  show ?case
  proof (cases "n_kind (node g i)")
    case Reference
    have r: "in_range i (g_nodes g)" "in_range (n_lo (node g i)) (g_ruleRoots g)"
      using run Reference by (auto simp: Let_def split: if_splits)
    show ?thesis
    proof (cases "n_lo (node g i) \<in> set seen \<or> ruleRoot g (n_lo (node g i)) = kNoRule")
      case True
      then show ?thesis using run Reference by (auto simp: Let_def split: if_splits)
    next
      case False
      then have "collectLeftReachable g (ruleRoot g (n_lo (node g i))) (n_lo (node g i) # seen) = Some seen'"
        using run Reference by (auto simp: Let_def split: if_splits)
      then have "set (n_lo (node g i) # seen) \<subseteq> set seen'"
        using r False by (intro "1.IH"(1) [OF _ refl Reference]) simp_all
      then show ?thesis by auto
    qed
  next
    case Sequence
    then show ?thesis using run "1.IH"(2) [OF _ refl Sequence] by (auto simp: Let_def split: if_splits)
  next
    case Alternation
    then show ?thesis using run "1.IH"(3) [OF _ refl Alternation] by (auto simp: Let_def split: if_splits)
  next
    case Repetition
    then show ?thesis using run "1.IH"(4) [OF _ refl Repetition] by (auto simp: Let_def split: if_splits)
  qed (use run in \<open>auto simp: Let_def split: if_splits\<close>)
next
  case (2 g i seen)
  then show ?case by (simp add: collect_sequence.psimps)
next
  case (3 g i j js seen)
  note run = "3.prems" [unfolded collect_sequence.psimps(2) [OF "3.hyps"]]
  obtain seen1 yes where p: "0 \<le> j \<and> j < i" "collectLeftReachable g j seen = Some seen1" "isNullable g [] j = Some yes"
      "(if yes then collect_sequence g i js seen1 else Some seen1) = Some seen'"
    using run by (auto split: if_splits option.splits)
  show ?case
    using "3.IH"(1) [OF p(1,2)] "3.IH"(2) [OF p(1,2,3)] p(4) by (auto split: if_splits)
next
  case (4 g i seen)
  then show ?case by (simp add: collect_all.psimps)
next
  case (5 g i j js seen)
  note run = "5.prems" [unfolded collect_all.psimps(2) [OF "5.hyps"]]
  obtain seen1 where p: "0 \<le> j \<and> j < i" "collectLeftReachable g j seen = Some seen1" "collect_all g i js seen1 = Some seen'"
    using run by (auto split: if_splits option.splits)
  show ?case using "5.IH"(1) [OF p(1,2)] "5.IH"(2) [OF p] by auto
qed

lemma free_rules_mono: "set seen \<subseteq> set seen' \<Longrightarrow> free_rules g seen' \<le> free_rules g seen"
  unfolding free_rules_def by (rule card_mono) auto

termination collectLeftReachable
  by (relation "inv_image (less_than <*lex*> less_than <*lex*> less_than <*lex*> less_than)
      (\<lambda>s. case s of Inl (g, i, seen) \<Rightarrow> (free_rules g seen, nat i, 1, 0)
                   | Inr (Inl (g, i, js, seen)) \<Rightarrow> (free_rules g seen, nat i, 0, length js)
                   | Inr (Inr (g, i, js, seen)) \<Rightarrow> (free_rules g seen, nat i, 0, length js))")
    (auto intro: free_rules_less simp: le_less [symmetric] simp del: list.set dest!: collect_grows free_rules_mono)

declare collectLeftReachable.simps [simp del]

section \<open>The checks\<close>

datatype validation = Valid | Invalid string | Unfinished

definition rules_of :: "grammar \<Rightarrow> int list" where
  "rules_of g = map int [0..<length (g_ruleNames g)]"

definition checkAllRulesDefined :: "grammar \<Rightarrow> validation" where
  "checkAllRulesDefined g =
     (case List.find (\<lambda>r. ruleRoot g r = kNoRule) (rules_of g) of
        None \<Rightarrow> Valid
      | Some r \<Rightarrow> Invalid (''rule '' @ quoted (ruleName g r) @ '' is referenced but never defined''))"

fun left_recursion :: "grammar \<Rightarrow> int list \<Rightarrow> validation" where
  "left_recursion g [] = Valid"
| "left_recursion g (r # rs) =
     (if ruleRoot g r = kNoRule then left_recursion g rs
      else case collectLeftReachable g (ruleRoot g r) [] of
             None \<Rightarrow> Unfinished
           | Some seen \<Rightarrow>
               if r \<in> set seen then Invalid (''rule '' @ quoted (ruleName g r) @ '' is left-recursive'')
               else left_recursion g rs)"

definition checkNoLeftRecursion :: "grammar \<Rightarrow> validation" where
  "checkNoLeftRecursion g = left_recursion g (rules_of g)"

definition validate :: "grammar \<Rightarrow> validation" where
  "validate g = (case checkAllRulesDefined g of Valid \<Rightarrow> checkNoLeftRecursion g | v \<Rightarrow> v)"

text \<open>\<open>GrammarBuilder::compile\<close>: the grammar of a text, or the error; \<open>None\<close> where a check does not end.\<close>

definition compile_grammar :: "string \<Rightarrow> (string + grammar) option" where
  "compile_grammar s =
     (case read_grammar s of
        Inl (lineNo, e) \<Rightarrow> Some (Inl (build_error lineNo e))
      | Inr ls \<Rightarrow>
          (case parseRules ls empty_grammar of
             Inl e \<Rightarrow> Some (Inl e)
           | Inr g \<Rightarrow>
               (case validate g of
                  Valid \<Rightarrow> Some (Inr g)
                | Invalid e \<Rightarrow> Some (Inl (build_error 0 e))
                | Unfinished \<Rightarrow> None)))"

end
