(* ===== verification/Program_Machine.thy ===== *)
theory Program_Machine
  imports Program_Compiler
begin

text \<open>
  \<open>src/grammar/compiled/ProgramMatcher.cpp\<close>: the machine that runs a compiled rule on a line,
  all threads in lock step.  The lists \<open>current\<close> and \<open>next\<close>, the vector \<open>seen\<close> and the arena
  of slot vectors are the code's; reusing the vectors' memory between lines is not
  observable, since every one is reset before it is read.

  \<open>None\<close> is what C++ leaves undefined: an instruction outside the program, or the
  generation counter, an \<open>int\<close> that counts every position of every line ever matched, going
  past its largest value.  \<open>addThread\<close> recurses on the call stack; its first argument bounds
  that depth, and one more than the length of the program is always enough.
\<close>

section \<open>Threads\<close>

record thread =
  th_pc :: int
  th_slots :: nat

record closure =
  c_list :: "thread list"
  c_seen :: "int list"
  c_arena :: "int list list"

definition cloneSlots :: "nat \<Rightarrow> int \<Rightarrow> int \<Rightarrow> int list list \<Rightarrow> nat \<times> int list list" where
  "cloneSlots slots index v arena = (length arena, arena @ [(arena ! slots)[nat index := v]])"

fun addThread :: "nat \<Rightarrow> program \<Rightarrow> int \<Rightarrow> nat \<Rightarrow> int \<Rightarrow> nat \<Rightarrow> closure \<Rightarrow> closure option" where
  "addThread 0 P gen pos pc slots c = None"
| "addThread (Suc fuel) P gen pos pc slots c =
     (if \<not> in_range pc (pg_code P) then None
      else if c_seen c ! nat pc = gen then Some c
      else let c1 = c\<lparr>c_seen := (c_seen c)[nat pc := gen]\<rparr>; ins = pg_code P ! nat pc in
        case i_op ins of
          Jump \<Rightarrow> addThread fuel P gen pos (i_x ins) slots c1
        | Split \<Rightarrow> Option.bind (addThread fuel P gen pos (i_x ins) slots c1) (addThread fuel P gen pos (i_y ins) slots)
        | Save \<Rightarrow>
            let (updated, arena) = cloneSlots slots (i_x ins) (int pos) (c_arena c1)
            in addThread fuel P gen pos (pc + 1) updated (c1\<lparr>c_arena := arena\<rparr>)
        | _ \<Rightarrow> Some (c1\<lparr>c_list := c_list c1 @ [\<lparr>th_pc = pc, th_slots = slots\<rparr>]\<rparr>))"

definition fuel_for :: "program \<Rightarrow> nat" where
  "fuel_for P = Suc (length (pg_code P))"

text \<open>The threads of one position: the first that stands at the end of the program and the line wins.\<close>

fun run_threads :: "program \<Rightarrow> string \<Rightarrow> nat \<Rightarrow> int \<Rightarrow> thread list \<Rightarrow> closure \<Rightarrow> (thread option \<times> closure) option" where
  "run_threads P line pos gen [] c = Some (None, c)"
| "run_threads P line pos gen (t # ts) c =
     (let ins = pg_code P ! nat (th_pc t) in
        if i_op ins = Match then
          if pos \<noteq> length line then run_threads P line pos gen ts c else Some (Some t, c)
        else if i_op ins = Class \<and> pos < length line \<and> program_inClass P (i_x ins) (line ! pos)
        then Option.bind (addThread (fuel_for P) P gen (pos + 1) (th_pc t + 1) (th_slots t) c)
               (run_threads P line pos gen ts)
        else run_threads P line pos gen ts c)"

section \<open>The positions of a line\<close>

abbreviation kIntMax :: int where "kIntMax \<equiv> 2147483647"

definition next_generation :: "int \<Rightarrow> int option" where
  "next_generation gen = (if gen < kIntMax then Some (gen + 1) else None)"

function run_positions ::
  "program \<Rightarrow> string \<Rightarrow> nat \<Rightarrow> int \<Rightarrow> closure \<Rightarrow> ((thread \<times> int list list) option \<times> int) option" where
  "run_positions P line pos gen c =
     Option.bind (next_generation gen)
       (\<lambda>gen1. Option.bind (run_threads P line pos gen1 (c_list c) (c\<lparr>c_list := []\<rparr>))
         (\<lambda>(found, c1).
           case found of
             Some t \<Rightarrow> Some (Some (t, c_arena c1), gen1)
           | None \<Rightarrow>
               if length line \<le> pos then Some (None, gen1)
               else if c_list c1 = [] then Some (None, gen1)
               else run_positions P line (pos + 1) gen1 c1))"
  by pat_completeness auto

termination
  by (relation "measure (\<lambda>(P, line, pos, gen, c). Suc (length line) - pos)") auto

declare run_positions.simps [simp del]

definition run_program :: "program \<Rightarrow> string \<Rightarrow> int \<Rightarrow> ((thread \<times> int list list) option \<times> int) option" where
  "run_program P line gen =
     Option.bind (next_generation gen)
       (\<lambda>gen1. Option.bind
         (addThread (fuel_for P) P gen1 0 0 0
           \<lparr>c_list = [], c_seen = replicate (length (pg_code P)) 0,
            c_arena = [replicate (2 * length (pg_slotCapture P)) (- 1)]\<rparr>)
         (run_positions P line 0 gen1))"

section \<open>The captures of a finished thread\<close>

definition slot_capture :: "program \<Rightarrow> string \<Rightarrow> int list \<Rightarrow> nat \<Rightarrow> captures" where
  "slot_capture P line saved slot =
     (let start = saved ! (2 * slot); stop = saved ! (2 * slot + 1)
      in if start < 0 \<or> stop < 0 \<or> stop < start then []
         else [(pg_slotCapture P ! slot, take (nat (stop - start)) (drop (nat start) line))])"

definition saved_captures :: "program \<Rightarrow> string \<Rightarrow> int list \<Rightarrow> captures" where
  "saved_captures P line saved = concat (map (slot_capture P line saved) [0..<length (pg_slotCapture P)])"

definition push_values :: "captures \<Rightarrow> string list list \<Rightarrow> string list list" where
  "push_values cs vs = foldl (\<lambda>vs c. vs[nat (fst c) := vs ! nat (fst c) @ [snd c]]) vs cs"

section \<open>The matcher\<close>

record program_matcher =
  pm_programs :: "program option list"
  pm_error :: string
  pm_generation :: int

definition new_program_matcher :: "grammar \<Rightarrow> program_matcher" where
  "new_program_matcher g = \<lparr>pm_programs = replicate (length (g_ruleNames g)) None, pm_error = [], pm_generation = 0\<rparr>"

definition programFor :: "grammar \<Rightarrow> int \<Rightarrow> program_matcher \<Rightarrow> (program option \<times> program_matcher) option" where
  "programFor g rule m =
     (if \<not> in_range rule (pm_programs m) then Some (None, m)
      else case pm_programs m ! nat rule of
        Some P \<Rightarrow> Some (Some P, m)
      | None \<Rightarrow>
          (case compileRule g rule of
             Emitted P \<Rightarrow> Some (Some P, m\<lparr>pm_programs := (pm_programs m)[nat rule := Some P]\<rparr>)
           | Failed e \<Rightarrow> Some (None, m\<lparr>pm_error := e\<rparr>)
           | Undefined \<Rightarrow> None))"

fun compileRules :: "grammar \<Rightarrow> int list \<Rightarrow> program_matcher \<Rightarrow> (bool \<times> program_matcher) option" where
  "compileRules g [] m = Some (True, m)"
| "compileRules g (r # rs) m =
     (if ruleRoot g r = kNoRule then compileRules g rs m
      else case programFor g r m of
        None \<Rightarrow> None
      | Some (p, m') \<Rightarrow> if p = None then Some (False, m') else compileRules g rs m')"

definition compileAll :: "grammar \<Rightarrow> program_matcher \<Rightarrow> (bool \<times> program_matcher) option" where
  "compileAll g m = compileRules g (map int [0..<length (pm_programs m)]) m"

definition program_match ::
  "grammar \<Rightarrow> program_matcher \<Rightarrow> int \<Rightarrow> string \<Rightarrow> (bool \<times> match_result \<times> program_matcher) option" where
  "program_match g m rule line =
     (let out = mr_reset g in
        case programFor g rule m of
          None \<Rightarrow> None
        | Some (None, m') \<Rightarrow> Some (False, out, m')
        | Some (Some P, m') \<Rightarrow>
            if pg_code P = [] then Some (False, out, m')
            else map_option
              (\<lambda>(found, gen). case found of
                 None \<Rightarrow> (False, out, m'\<lparr>pm_generation := gen\<rparr>)
               | Some (t, arena) \<Rightarrow>
                   let cs = saved_captures P line (arena ! th_slots t)
                   in (True, mr_adopt (push_values cs (replicate (length (g_captureNames g)) [])) (map snd cs) (map fst cs) out,
                       m'\<lparr>pm_generation := gen\<rparr>))
              (run_program P line (pm_generation m')))"

end
