(* ===== verification/Tree_Matcher.thy ===== *)
theory Tree_Matcher
  imports Single_Octet
begin

text \<open>
  \<open>src/grammar/interpreted/TreeMatcher.cpp\<close>: the backtracking matcher.  What is still to be
  matched after a node is a continuation, a stack of frames the code links through the call
  stack; the walk carries the captures, the step count and the exhausted flag, and a failed
  attempt puts the captures back.  The depth counter goes up on entering \<open>matchNode\<close> and
  down on leaving it, so it is an argument here; \<open>kMaxDepth\<close> is what makes the functions
  terminate on every grammar, left recursive ones included.
\<close>

section \<open>The walk\<close>

datatype cont =
    ContEnd
  | ContNode int cont
  | ContSequence int nat cont
  | ContRepeat int nat nat cont
  | ContCloseCapture int nat cont

record walk =
  wk_values :: "string list list"
  wk_sequence :: "string list"
  wk_owners :: "int list"
  wk_steps :: int
  wk_exhausted :: bool

abbreviation kMaxSteps :: int where "kMaxSteps \<equiv> 200000"
abbreviation kMaxDepth :: nat where "kMaxDepth \<equiv> 256"

definition exhaust :: "walk \<Rightarrow> walk" where
  "exhaust w = w\<lparr>wk_exhausted := True\<rparr>"

definition add_steps :: "nat \<Rightarrow> walk \<Rightarrow> walk" where
  "add_steps n w = w\<lparr>wk_steps := wk_steps w + int n\<rparr>"

definition pushCapture :: "int \<Rightarrow> string \<Rightarrow> walk \<Rightarrow> walk" where
  "pushCapture slot s w = w\<lparr>wk_values := (wk_values w)[nat slot := wk_values w ! nat slot @ [s]],
     wk_sequence := wk_sequence w @ [s], wk_owners := wk_owners w @ [slot]\<rparr>"

definition dropCapture :: "int \<Rightarrow> nat \<Rightarrow> nat \<Rightarrow> walk \<Rightarrow> walk" where
  "dropCapture slot mark order w =
     w\<lparr>wk_values := (wk_values w)[nat slot := take mark (wk_values w ! nat slot)],
       wk_sequence := take order (wk_sequence w), wk_owners := take order (wk_owners w)\<rparr>"

definition literal_at :: "string \<Rightarrow> nat \<Rightarrow> string \<Rightarrow> bool" where
  "literal_at line pos s \<longleftrightarrow> pos + length s \<le> length line \<and>
     map fold_char (take (length s) (drop pos line)) = map fold_char s"

fun octet_run :: "octets \<Rightarrow> nat \<Rightarrow> string \<Rightarrow> nat" where
  "octet_run bits most [] = 0"
| "octet_run bits most (c # cs) = (if 0 < most \<and> inClass bits c then Suc (octet_run bits (most - 1) cs) else 0)"

section \<open>The four functions and their loops\<close>

function
  matchNode :: "grammar \<Rightarrow> string \<Rightarrow> nat \<Rightarrow> int \<Rightarrow> nat \<Rightarrow> cont \<Rightarrow> walk \<Rightarrow> bool \<times> walk"
  and matchContinuation :: "grammar \<Rightarrow> string \<Rightarrow> nat \<Rightarrow> cont \<Rightarrow> nat \<Rightarrow> walk \<Rightarrow> bool \<times> walk"
  and matchSequence :: "grammar \<Rightarrow> string \<Rightarrow> nat \<Rightarrow> int \<Rightarrow> nat \<Rightarrow> nat \<Rightarrow> cont \<Rightarrow> walk \<Rightarrow> bool \<times> walk"
  and matchRepetition ::
    "grammar \<Rightarrow> string \<Rightarrow> nat \<Rightarrow> int \<Rightarrow> nat \<Rightarrow> nat \<Rightarrow> nat \<Rightarrow> cont \<Rightarrow> walk \<Rightarrow> bool \<times> walk"
  and matchAlternatives ::
    "grammar \<Rightarrow> string \<Rightarrow> nat \<Rightarrow> int list \<Rightarrow> nat \<Rightarrow> cont \<Rightarrow> walk \<Rightarrow> bool \<times> walk"
  and matchTakes :: "grammar \<Rightarrow> string \<Rightarrow> nat \<Rightarrow> nat \<Rightarrow> nat \<Rightarrow> nat \<Rightarrow> cont \<Rightarrow> walk \<Rightarrow> bool \<times> walk"
  where
  "matchNode g line d i pos k w0 =
     (if wk_exhausted w0 then (False, w0)
      else let w = add_steps 1 w0 in
        if kMaxSteps < wk_steps w then (False, exhaust w)
        else if kMaxDepth \<le> d then (False, exhaust w)
        else let n = node g i in
          case n_kind n of
            Literal \<Rightarrow>
              if literal_at line pos (literal g (n_literal n))
              then matchContinuation g line (d + 1) k (pos + length (literal g (n_literal n))) w else (False, w)
          | OctetRange \<Rightarrow>
              if pos < length line \<and> octet_in n (line ! pos)
              then matchContinuation g line (d + 1) k (pos + 1) w else (False, w)
          | Reference \<Rightarrow>
              if ruleRoot g (n_lo n) = kNoRule then (False, w)
              else matchNode g line (d + 1) (ruleRoot g (n_lo n)) pos
                (if n_capture n = kNoCapture then k else ContCloseCapture (n_capture n) pos k) w
          | Sequence \<Rightarrow> matchSequence g line (d + 1) i 0 pos k w
          | Alternation \<Rightarrow> matchAlternatives g line (d + 1) (kids g n) pos k w
          | Repetition \<Rightarrow> matchRepetition g line (d + 1) i 0 pos pos k w)"
| "matchContinuation g line d k pos w =
     (if wk_exhausted w then (False, w)
      else case k of
        ContEnd \<Rightarrow> (pos = length line, w)
      | ContNode i k' \<Rightarrow> matchNode g line d i pos k' w
      | ContSequence i c k' \<Rightarrow> matchSequence g line d i c pos k' w
      | ContRepeat i c start k' \<Rightarrow> matchRepetition g line d i c start pos k' w
      | ContCloseCapture slot start k' \<Rightarrow>
          case matchContinuation g line d k' pos (pushCapture slot (take (pos - start) (drop start line)) w) of
            (ok, w') \<Rightarrow>
              if ok then (True, w')
              else (False, dropCapture slot (length (wk_values w ! nat slot)) (length (wk_sequence w)) w'))"
| "matchSequence g line d i c pos k w =
     (let n = node g i in
        if n_count n \<le> int c then matchContinuation g line d k pos w
        else matchNode g line d (child g (n_first n + int c)) pos (ContSequence i (c + 1) k) w)"
| "matchRepetition g line d i c start pos k w =
     (if wk_exhausted w then (False, w)
      else let n = node g i; j = child g (n_first n) in
        if c = 0 \<and> isSingleOctet g [] j
        then
          let least = nat (max 0 (n_lo n));
              most = (if n_hi n = kUnbounded then length line else nat (n_hi n mod 2 ^ 64));
              taken = octet_run (octetBitmap g j) most (drop pos line);
              w1 = add_steps taken w
          in if kMaxSteps < wk_steps w1 then (False, exhaust w1)
             else if taken < least then (False, w1)
             else matchTakes g line d taken least pos k w1
        else if (n_hi n = kUnbounded \<or> int c < n_hi n) \<and> \<not> (0 < c \<and> pos = start)
        then case matchNode g line d j pos (ContRepeat i (c + 1) pos k) w of
          (ok, w') \<Rightarrow>
            if ok then (True, w')
            else if wk_exhausted w' then (False, w')
            else if n_lo n \<le> int c then matchContinuation g line d k pos w' else (False, w')
        else if n_lo n \<le> int c then matchContinuation g line d k pos w else (False, w))"
| "matchAlternatives g line d js pos k w =
     (case js of
        [] \<Rightarrow> (False, w)
      | j # js' \<Rightarrow>
          case matchNode g line d j pos k w of
            (ok, w') \<Rightarrow>
              if ok then (True, w')
              else if wk_exhausted w' then (False, w')
              else matchAlternatives g line d js' pos k w')"
| "matchTakes g line d took least pos k w =
     (case matchContinuation g line d k (pos + took) w of
        (ok, w') \<Rightarrow>
          if ok then (True, w')
          else if wk_exhausted w' then (False, w')
          else if took \<le> least then (False, w')
          else matchTakes g line d (took - 1) least pos k w')"
  by pat_completeness auto

abbreviation headroom :: "nat \<Rightarrow> nat" where
  "headroom d \<equiv> 2 * (kMaxDepth - d)"

abbreviation "match_measure \<equiv> \<lambda>s. case s of
    Inl (Inl (g, line, d, i, pos, k, w)) \<Rightarrow> (headroom d, 0, 0, 0)
  | Inl (Inr (Inl (g, line, d, k, pos, w))) \<Rightarrow> (headroom d + 1, size k, 0, 0)
  | Inl (Inr (Inr (g, line, d, i, c, pos, k, w))) \<Rightarrow> (headroom d + 1, size k, 1, 0)
  | Inr (Inl (g, line, d, i, c, start, pos, k, w)) \<Rightarrow> (headroom d + 1, size k, 2, 0)
  | Inr (Inr (Inl (g, line, d, js, pos, k, w))) \<Rightarrow> (headroom d + 1, size k, 1, length js)
  | Inr (Inr (Inr (g, line, d, took, least, pos, k, w))) \<Rightarrow> (headroom d + 1, size k, 1, took)"

termination matchNode
  apply (relation "inv_image (less_than <*lex*> less_than <*lex*> less_than <*lex*> less_than) match_measure")
  apply (auto simp: Let_def)
  done

declare matchNode.simps [simp del] matchContinuation.simps [simp del] matchSequence.simps [simp del]
  matchRepetition.simps [simp del] matchAlternatives.simps [simp del] matchTakes.simps [simp del]

definition tree_match :: "grammar \<Rightarrow> int \<Rightarrow> string \<Rightarrow> bool \<times> match_result \<times> bool" where
  "tree_match g rule line =
     (let out = mr_reset g; root = ruleRoot g rule
      in if root = kNoRule then (False, out, False)
         else case matchNode g line 0 root 0 ContEnd
                \<lparr>wk_values = replicate (length (g_captureNames g)) [], wk_sequence = [], wk_owners = [],
                 wk_steps = 0, wk_exhausted = False\<rparr> of
           (ok, w) \<Rightarrow>
             (ok, if ok then mr_adopt (wk_values w) (wk_sequence w) (wk_owners w) out else out, wk_exhausted w))"

end
