(* ===== verification/Start_Up.thy ===== *)
theory Start_Up
  imports Grammar_Validator Program_Machine Tree_Matcher Dispatch
begin

text \<open>
  How the server gets its parser (\<open>Server::initGrammar\<close> in \<open>src/Server.cpp\<close>): the grammar
  from its source, embedded (\<open>src/grammar/EmbeddedGrammarSource.cpp\<close>) or a file
  (\<open>FileGrammarSource.cpp\<close>), the matcher the environment asks for, the table of command rules.
\<close>

section \<open>Sources\<close>

text \<open>The lines of the embedded grammar, and the text: each of them with its newline.\<close>

definition kGrammar_lines :: "string list" where
  "kGrammar_lines =
     [''SPACE      =  %x20'',
      ''nospcrlfcl =  %x01-09 / %x0B-0C / %x0E-1F / %x21-39 / %x3B-FF'',
      ''middle     =  nospcrlfcl *( \":\" / nospcrlfcl )'',
      ''trailing   =  *( \":\" / \" \" / nospcrlfcl )'',
      ''letter     =  %x41-5A / %x61-7A'',
      ''digit      =  %x30-39'',
      ''special    =  %x5B-60 / %x7B-7D'',
      ''nickname   =  ( letter / special ) *8( letter / digit / special / \"-\" )'',
      ''password   =  middle'',
      ''newnick    =  middle'',
      ''username   =  middle'',
      ''usermode   =  middle'',
      ''unused     =  middle'',
      ''realname   =  trailing'',
      ''quitmsg    =  trailing'',
      ''capsub     =  middle'',
      ''capparam   =  trailing'',
      ''pingtoken  =  trailing'',
      ''chanlist   =  middle'',
      ''keylist    =  middle'',
      ''partmsg    =  trailing'',
      ''msgtarget  =  middle'',
      ''msgtext    =  trailing'',
      ''kickchans  =  middle'',
      ''kickusers  =  middle'',
      ''kickreason =  trailing'',
      ''invnick    =  middle'',
      ''invchan    =  middle'',
      ''topicchan  =  middle'',
      ''topictext  =  trailing'',
      ''modetarget =  middle'',
      ''modestring =  middle'',
      ''modeparam  =  middle'',
      ''whomask    =  middle'',
      ''whoisnick  =  middle'',
      ''hostnick   =  middle'',
      ''cap-cmd    =  \"CAP\" [ SPACE $capsub [ SPACE [ \":\" ] $capparam ] ] *SPACE'',
      ''pass-cmd   =  \"PASS\" SPACE [ \":\" ] $password *SPACE'',
      ''nick-cmd   =  \"NICK\" SPACE [ \":\" ] $newnick *SPACE'',
      ''user-cmd   =  \"USER\" SPACE $username SPACE $usermode SPACE $unused SPACE \":\" $realname *SPACE'',
      ''quit-cmd   =  \"QUIT\" [ SPACE [ \":\" ] $quitmsg ] *SPACE'',
      ''pong-cmd   =  \"PONG\" [ SPACE [ \":\" ] $pingtoken ] *SPACE'',
      ''ping-cmd   =  \"PING\" [ SPACE [ \":\" ] $pingtoken ] *SPACE'',
      ''join-cmd   =  \"JOIN\" SPACE ( \"0\" / $chanlist [ SPACE $keylist ] ) *SPACE'',
      ''part-cmd   =  \"PART\" SPACE $chanlist [ SPACE [ \":\" ] $partmsg ] *SPACE'',
      ''privmsg-cmd = \"PRIVMSG\" SPACE $msgtarget SPACE [ \":\" ] $msgtext *SPACE'',
      ''notice-cmd =  \"NOTICE\" SPACE $msgtarget SPACE [ \":\" ] $msgtext *SPACE'',
      ''kick-cmd   =  \"KICK\" SPACE $kickchans SPACE $kickusers [ SPACE [ \":\" ] $kickreason ] *SPACE'',
      ''invite-cmd =  \"INVITE\" SPACE $invnick SPACE $invchan *SPACE'',
      ''topic-cmd  =  \"TOPIC\" SPACE $topicchan [ SPACE \":\" $topictext ] *SPACE'',
      ''mode-cmd   =  \"MODE\" SPACE $modetarget [ SPACE $modestring *13( SPACE $modeparam ) ] *SPACE'',
      ''who-cmd    =  \"WHO\" [ SPACE $whomask ] *SPACE'',
      ''whois-cmd  =  \"WHOIS\" SPACE [ middle SPACE ] $whoisnick *SPACE'',
      ''userhost-cmd = \"USERHOST\" SPACE $hostnick *4( SPACE $hostnick ) *SPACE'',
      ''command    =  1*letter / 3digit'',
      ''param      =  middle'',
      ''trail      =  trailing'',
      ''prefix     =  middle'',
      ''sp         =  1*SPACE'',
      ''params     =  *14( sp $param ) [ sp \":\" $trail ]'',
      ''           =/ 14( sp $param ) [ sp [ \":\" ] $trail ]'',
      ''message    =  *SPACE [ \":\" $prefix sp ] $command [ params ] *SPACE'']"

definition kGrammar :: string where
  "kGrammar = concat (map (\<lambda>l. l @ [CHR 0x0A]) kGrammar_lines)"

definition embedded_origin :: string where
  "embedded_origin = ''<embedded RFC 2812 grammar>''"

text \<open>
  Where the grammar comes from and its text; a file that cannot be opened gives none.  The
  file system is the function \<open>files\<close> from a path to the contents of the file.
\<close>

definition grammar_source :: "(string \<Rightarrow> string option) \<Rightarrow> string option \<Rightarrow> string \<times> string option" where
  "grammar_source files grammarPath =
     (case grammarPath of
        None \<Rightarrow> (embedded_origin, Some kGrammar)
      | Some path \<Rightarrow> (path, files path))"

section \<open>The two matchers\<close>

definition tree_answer :: "grammar \<Rightarrow> int \<Rightarrow> string \<Rightarrow> match_result option" where
  "tree_answer g rule line = (let (ok, out, exhausted) = tree_match g rule line in if ok then Some out else None)"

text \<open>
  The compiled matcher has every program after \<open>compileAll\<close>; from then on only its generation
  counter changes, on which no answer depends while it has room.
\<close>

definition program_answer :: "grammar \<Rightarrow> program_matcher \<Rightarrow> int \<Rightarrow> string \<Rightarrow> match_result option" where
  "program_answer g m rule line =
     (case program_match g m rule line of
        None \<Rightarrow> None
      | Some (ok, out, m') \<Rightarrow> if ok then Some out else None)"

text \<open>The matcher \<open>FT_IRC_MATCHER\<close> asks for, or why there is none; \<open>None\<close> is undefined behaviour.\<close>

definition choose_matcher :: "string option \<Rightarrow> grammar \<Rightarrow> (string + (int \<Rightarrow> string \<Rightarrow> match_result option)) option" where
  "choose_matcher strategy g =
     (if strategy = Some ''compiled'' then
        (case compileAll g (new_program_matcher g) of
           None \<Rightarrow> None
         | Some (ok, m) \<Rightarrow>
             Some (if ok then Inr (program_answer g m) else Inl (''compiled matcher: '' @ pm_error m)))
      else Some (Inr (tree_answer g)))"

section \<open>Start-up\<close>

definition initGrammar ::
  "(string \<Rightarrow> string option) \<Rightarrow> string option \<Rightarrow> string option \<Rightarrow> (string + parser) option" where
  "initGrammar files grammarPath strategy =
     (let (origin, source) = grammar_source files grammarPath in
      case source of
        None \<Rightarrow> Some (Inl (''cannot read grammar from '' @ origin))
      | Some contents \<Rightarrow>
          (case compile_grammar contents of
             None \<Rightarrow> None
           | Some (Inl e) \<Rightarrow> Some (Inl (''grammar from '' @ origin @ '': '' @ e))
           | Some (Inr g) \<Rightarrow>
               (case choose_matcher strategy g of
                  None \<Rightarrow> None
                | Some (Inl e) \<Rightarrow> Some (Inl e)
                | Some (Inr answer) \<Rightarrow>
                    let rule = ruleIndex g ''message'' in
                    if rule = kNoRule then Some (Inl (''grammar defines no '' @ quoted ''message'' @ '' rule''))
                    else let rules = bindCommandRules g in
                      case verifyCommandTable rules command_names origin of
                        Some e \<Rightarrow> Some (Inl e)
                      | None \<Rightarrow> Some (Inr \<lparr>ps_grammar = g, ps_match = answer, ps_messageRule = rule, ps_commandRules = rules\<rparr>))))"

end
