(* ===== verification/Builder_Correct.thy ===== *)
theory Builder_Correct
  imports Grammar_Builder "HOL-Library.Sublist"
begin

text \<open>
  What the builder of \<open>src/grammar/GrammarBuilder.cpp\<close> builds: the arena is well formed at
  every moment and only grows, so that the indices a node holds stay in range.
\<close>

section \<open>Growing keeps what is there\<close>

definition arena_le :: "grammar \<Rightarrow> grammar \<Rightarrow> bool" where
  "arena_le g g' \<longleftrightarrow> prefix (g_nodes g) (g_nodes g') \<and> prefix (g_children g) (g_children g') \<and>
     prefix (g_literals g) (g_literals g') \<and> prefix (g_captureNames g) (g_captureNames g') \<and>
     prefix (g_ruleNames g) (g_ruleNames g') \<and> prefix (g_ruleRoots g) (g_ruleRoots g')"

lemma arena_le_refl [simp]: "arena_le g g"
  by (simp add: arena_le_def)

lemma arena_le_trans [trans]: "arena_le g g' \<Longrightarrow> arena_le g' g'' \<Longrightarrow> arena_le g g''"
  unfolding arena_le_def by (blast intro: prefix_order.trans)

lemma in_range_prefix: "prefix xs ys \<Longrightarrow> in_range i xs \<Longrightarrow> in_range i ys"
  using prefix_length_le [of xs ys] by (auto simp: in_range_def)

lemma nth_prefix: "prefix xs ys \<Longrightarrow> in_range i xs \<Longrightarrow> ys ! nat i = xs ! nat i"
  by (auto simp: in_range_def nth_append elim!: prefixE)

lemma arena_le_nodes: "arena_le g g' \<Longrightarrow> in_range i (g_nodes g) \<Longrightarrow> in_range i (g_nodes g')"
  by (auto simp: arena_le_def intro: in_range_prefix)

lemma arena_le_kids:
  assumes "prefix (g_children g) (g_children g')" and "0 \<le> n_first n"
    and "n_first n + n_count n \<le> int (length (g_children g))"
  shows "kids g' n = kids g n"
proof -
  have "child g' (n_first n + int k) = child g (n_first n + int k)" if "k < nat (n_count n)" for k
    unfolding child_def by (rule nth_prefix [OF assms(1)]) (use assms(2,3) that in \<open>simp add: in_range_def\<close>)
  then show ?thesis by (simp add: kids_def)
qed

lemma node_wf_mono:
  assumes "arena_le g g'" and "node_wf g i n"
  shows "node_wf g' i n"
proof -
  note le = assms(1) [unfolded arena_le_def]
  have "kids_wf g' i n" if "kids_wf g i n"
    using that le arena_le_kids [of g g' n] prefix_length_le [of "g_children g" "g_children g'"]
    by (auto simp: kids_wf_def)
  then show ?thesis
    using assms(2) le by (auto simp: node_wf_def intro: in_range_prefix split: node_kind.splits)
qed

lemma node_of_prefix: "arena_le g g' \<Longrightarrow> in_range i (g_nodes g) \<Longrightarrow> node g' i = node g i"
  using nth_prefix [of "g_nodes g" "g_nodes g'" i] arena_le_nodes [of g g' i] by (auto simp: node_def arena_le_def)

text \<open>What a step of the builder does to a well-formed grammar.\<close>

definition builds :: "grammar \<Rightarrow> grammar \<Rightarrow> bool" where
  "builds g g' \<longleftrightarrow> grammar_wf g' \<and> arena_le g g'"

lemma builds_trans [trans]: "builds g g' \<Longrightarrow> builds g' g'' \<Longrightarrow> builds g g''"
  by (auto simp: builds_def intro: arena_le_trans)

lemma builds_range: "builds g g' \<Longrightarrow> in_range i (g_nodes g) \<Longrightarrow> in_range i (g_nodes g')"
  by (auto simp: builds_def intro: arena_le_nodes)

lemma builds_no_node:
  assumes "grammar_wf g" and "arena_le g g'" and "g_nodes g' = g_nodes g"
    and "length (g_ruleRoots g') = length (g_ruleNames g')"
    and "\<forall>r \<in> set (g_ruleRoots g'). r = kNoRule \<or> r \<in> set (g_ruleRoots g)"
  shows "builds g g'"
proof -
  have "node_wf g' i (node g' i)" if "in_range i (g_nodes g')" for i
    using that assms(1,2,3) node_wf_mono [of g g' i "node g i"] node_of_prefix [of g g' i] by (auto simp: grammar_wf_def)
  moreover have "r = kNoRule \<or> in_range r (g_nodes g')" if "r \<in> set (g_ruleRoots g')" for r
    using that assms(1,3,5) by (auto simp: grammar_wf_def)
  ultimately show ?thesis using assms(2,4) by (auto simp: builds_def grammar_wf_def)
qed

lemma internRule_builds:
  assumes "grammar_wf g" and "internRule name g = (i, g')"
  shows "builds g g'" "in_range i (g_ruleRoots g')"
proof -
  have l: "length (g_ruleRoots g) = length (g_ruleNames g)" using assms(1) by (simp add: grammar_wf_def)
  show "builds g g'"
    by (rule builds_no_node [OF assms(1)])
      (use assms(2) l in \<open>auto simp: internRule_def arena_le_def Let_def split: if_splits\<close>)
  show "in_range i (g_ruleRoots g')"
    using assms(2) l index_from_bounds [of 0 "lowered name" "g_ruleNames g"]
    by (auto simp: internRule_def in_range_def Let_def split: if_splits)
qed

lemma internCapture_builds:
  assumes "grammar_wf g" and "internCapture name g = (i, g')"
  shows "builds g g'" "in_range i (g_captureNames g')" "g_ruleRoots g' = g_ruleRoots g"
proof -
  show "builds g g'"
    by (rule builds_no_node [OF assms(1)])
      (use assms in \<open>auto simp: internCapture_def arena_le_def grammar_wf_def Let_def split: if_splits\<close>)
  show "in_range i (g_captureNames g')" "g_ruleRoots g' = g_ruleRoots g"
    using assms(2) index_from_bounds [of 0 name "g_captureNames g"]
    by (auto simp: internCapture_def in_range_def Let_def split: if_splits)
qed

lemma addLiteral_builds:
  assumes "grammar_wf g" and "addLiteral s g = (i, g')"
  shows "builds g g'" "in_range i (g_literals g')"
proof -
  show "builds g g'"
    by (rule builds_no_node [OF assms(1)]) (use assms in \<open>auto simp: addLiteral_def arena_le_def grammar_wf_def\<close>)
  show "in_range i (g_literals g')" using assms(2) by (auto simp: addLiteral_def in_range_def)
qed

lemma addChildren_builds:
  assumes "grammar_wf g" and "addChildren js g = (first, g')"
  shows "builds g g'" "first = int (length (g_children g))" "g_children g' = g_children g @ js" "g_nodes g' = g_nodes g"
proof -
  show "builds g g'"
    by (rule builds_no_node [OF assms(1)]) (use assms in \<open>auto simp: addChildren_def arena_le_def grammar_wf_def\<close>)
  show "first = int (length (g_children g))" "g_children g' = g_children g @ js" "g_nodes g' = g_nodes g"
    using assms(2) by (auto simp: addChildren_def)
qed

lemma addNode_builds:
  assumes "grammar_wf g" and "node_wf g (int (length (g_nodes g))) n" and "addNode n g = (i, g')"
  shows "builds g g' \<and> in_range i (g_nodes g')"
proof -
  have g': "g' = g\<lparr>g_nodes := g_nodes g @ [n]\<rparr>" and i: "i = int (length (g_nodes g))"
    using assms(3) by (auto simp: addNode_def)
  have le: "arena_le g g'" by (simp add: g' arena_le_def)
  have "node_wf g' j (node g' j)" if "in_range j (g_nodes g')" for j
  proof (cases "j = i")
    case True
    then have "node g' j = n" by (simp add: node_def g' i in_range_def)
    then show ?thesis using node_wf_mono [OF le assms(2)] True i by simp
  next
    case False
    then have "in_range j (g_nodes g)" using that by (auto simp: g' i in_range_def)
    then show ?thesis using node_of_prefix [OF le] node_wf_mono [OF le] assms(1) by (auto simp: grammar_wf_def)
  qed
  moreover have "r = kNoRule \<or> in_range r (g_nodes g')" if "r \<in> set (g_ruleRoots g')" for r
    using that assms(1) by (auto simp: g' grammar_wf_def in_range_def)
  moreover have "length (g_ruleRoots g') = length (g_ruleNames g')" using assms(1) by (simp add: g' grammar_wf_def)
  ultimately show ?thesis using le by (auto simp: builds_def grammar_wf_def g' i in_range_def)
qed

lemma addParent_builds:
  assumes "grammar_wf g" and "\<forall>j \<in> set js. in_range j (g_nodes g)" and "js \<noteq> []"
    and "kind = Sequence \<or> kind = Alternation \<or> kind = Repetition \<and> length js = 1 \<and> (hi = kUnbounded \<or> lo \<le> hi)"
    and "addParent kind lo hi js g = (i, g')"
  shows "builds g g' \<and> in_range i (g_nodes g')"
proof -
  obtain first g1 where c: "addChildren js g = (first, g1)" by (cases "addChildren js g")
  note c1 = addChildren_builds [OF assms(1) c]
  let ?n = "empty_node\<lparr>n_kind := kind, n_lo := lo, n_hi := hi, n_first := first, n_count := int (length js)\<rparr>"
  have kids: "kids g1 ?n = js"
  proof (rule nth_equalityI)
    show "length (kids g1 ?n) = length js" by (simp add: empty_node_def)
    show "kids g1 ?n ! k = js ! k" if "k < length (kids g1 ?n)" for k
      using that by (simp add: kids_def child_def c1(2,3) nth_append empty_node_def nat_add_distrib)
  qed
  have "kids_wf g1 (int (length (g_nodes g1))) ?n"
    unfolding kids_wf_def kids using assms(2) by (auto simp: c1 in_range_def empty_node_def)
  then have "node_wf g1 (int (length (g_nodes g1))) ?n"
    using assms(3,4) by (auto simp: node_wf_def empty_node_def)
  moreover have "addNode ?n g1 = (i, g')" using assms(5) by (simp add: addParent_def c)
  moreover have "grammar_wf g1" using c1(1) by (simp add: builds_def)
  ultimately show ?thesis using addNode_builds [of g1 ?n i g'] builds_trans [OF c1(1)] by blast
qed


section \<open>Elements\<close>

lemma builds_refl: "grammar_wf g \<Longrightarrow> builds g g"
  by (simp add: builds_def)

lemma builds_wf: "builds g g' \<Longrightarrow> grammar_wf g'"
  by (simp add: builds_def)

definition built :: "grammar \<Rightarrow> int \<Rightarrow> grammar \<Rightarrow> bool" where
  "built g i g' \<longleftrightarrow> builds g g' \<and> in_range i (g_nodes g')"

lemma builtI: "builds g g' \<Longrightarrow> built g' i g'' \<Longrightarrow> built g i g''"
  by (auto simp: built_def intro: builds_trans)

lemma octet_range_built:
  fixes low high :: int
  defines "n \<equiv> empty_node\<lparr>n_kind := OctetRange, n_lo := low, n_hi := high\<rparr>"
  assumes "grammar_wf g" and "low \<le> high"
  shows "built g (fst (addNode n g)) (snd (addNode n g))"
  unfolding built_def by (rule addNode_builds [OF assms(2)]) (use assms(3) in \<open>simp_all add: n_def node_wf_def empty_node_def\<close>)

lemma numeric_piece_builds:
  assumes "grammar_wf g" and "numeric_piece lineNo g s = Inr (i, g', s')"
  shows "built g i g'"
  using assms octet_range_built [OF assms(1)] by (auto simp: numeric_piece_def Let_def case_prod_beta split: if_splits)

lemma builds_all: "builds g g' \<Longrightarrow> \<forall>j \<in> set js. in_range j (g_nodes g) \<Longrightarrow> \<forall>j \<in> set js. in_range j (g_nodes g')"
  by (blast intro: builds_range)

definition built_list :: "grammar \<Rightarrow> int list \<Rightarrow> grammar \<Rightarrow> bool" where
  "built_list g js g' \<longleftrightarrow> builds g g' \<and> (\<forall>j \<in> set js. in_range j (g_nodes g'))"

lemma built_snoc:
  assumes "\<forall>j \<in> set js. in_range j (g_nodes g)" and "built g i g1"
  shows "\<forall>j \<in> set (js @ [i]). in_range j (g_nodes g1)"
  using assms builds_all [of g g1 js] by (auto simp: built_def)

lemma numeric_pieces_builds:
  "numeric_pieces lineNo pieces g s = Inr (js, g', s') \<Longrightarrow> grammar_wf g \<Longrightarrow>
    \<forall>j \<in> set pieces. in_range j (g_nodes g) \<Longrightarrow> built_list g js g' \<and> js \<noteq> []"
proof (induction lineNo pieces g s rule: numeric_pieces.induct)
  case (1 lineNo pieces g s)
  from "1.prems"(1) obtain piece g1 s1 where p: "numeric_piece lineNo g s = Inr (piece, g1, s1)"
      "(if s1 \<noteq> [] \<and> hd s1 = CHR ''.'' then numeric_pieces lineNo (pieces @ [piece]) g1 (tl s1)
        else Inr (pieces @ [piece], g1, s1)) = Inr (js, g', s')"
    by (auto simp: numeric_pieces.simps [of lineNo pieces g s] and_parse_Inr)
  have b: "built g piece g1" by (rule numeric_piece_builds [OF "1.prems"(2) p(1)])
  note all = built_snoc [OF "1.prems"(3) b]
  show ?case
  proof (cases "s1 \<noteq> [] \<and> hd s1 = CHR ''.''")
    case True
    have "built_list g1 js g' \<and> js \<noteq> []"
      by (rule "1.IH" [OF p(1) True _ _ all]) (use p(2) True b in \<open>auto simp: built_def dest: builds_wf\<close>)
    then show ?thesis using b by (auto simp: built_def built_list_def intro: builds_trans)
  next
    case False
    then show ?thesis using p(2) b all by (auto simp: built_def built_list_def)
  qed
qed

text \<open>One of several: a list of one is the node itself, a longer one gets a parent.\<close>

lemma built_parent:
  assumes "built_list g js g'" and "js \<noteq> []"
    and "if length js = 1 then (i, g'') = (hd js, g') else addParent kind 0 0 js g' = (i, g'')"
    and "kind = Sequence \<or> kind = Alternation"
  shows "built g i g''"
proof (cases "length js = 1")
  case True
  then show ?thesis using assms by (auto simp: built_list_def built_def)
next
  case False
  then have "addParent kind 0 0 js g' = (i, g'')" using assms(3) by simp
  then have "built g' i g''"
    unfolding built_def using assms(1,2,4) by (intro addParent_builds) (auto simp: built_list_def builds_wf)
  then show ?thesis using assms(1) by (auto simp: built_list_def intro: builtI)
qed

lemma parseNumericValue_builds:
  assumes "grammar_wf g" and "parseNumericValue lineNo g s = Inr (i, g', s')"
  shows "built g i g'"
proof -
  obtain js g1 where p: "numeric_pieces lineNo [] g (tl s) = Inr (js, g1, s')"
      "if length js = 1 then (i, g') = (hd js, g1) else addParent Sequence 0 0 js g1 = (i, g')"
    using assms(2) by (auto simp: parseNumericValue_def and_parse_Inr Let_def case_prod_beta prod_eq_iff split: if_splits)
  show ?thesis
    by (rule built_parent [OF _ _ p(2)]) (use numeric_pieces_builds [OF p(1) assms(1)] in auto)
qed

lemma parseReference_builds:
  assumes "grammar_wf g" and "parseReference lineNo capture g s = Inr (i, g', s')"
  shows "built g i g'"
proof -
  obtain rule g1 where r: "internRule (takeWhile isRuleChar s) g = (rule, g1)" by (cases "internRule (takeWhile isRuleChar s) g")
  obtain slot g2 where c: "(if capture then internCapture (takeWhile isRuleChar s) g1 else (kNoCapture, g1)) = (slot, g2)"
    by (meson surj_pair)
  note r1 = internRule_builds [OF assms(1) r]
  have c1: "builds g1 g2" "g_ruleRoots g2 = g_ruleRoots g1" "slot = kNoCapture \<or> in_range slot (g_captureNames g2)"
    using c internCapture_builds [OF builds_wf [OF r1(1)]] builds_refl [OF builds_wf [OF r1(1)]]
    by (auto split: if_splits)
  have "addNode (empty_node\<lparr>n_kind := Reference, n_lo := rule, n_capture := slot\<rparr>) g2 = (i, g')"
    using assms(2) unfolding parseReference_def Let_def r prod.case c
    by (cases "addNode (empty_node\<lparr>n_kind := Reference, n_lo := rule, n_capture := slot\<rparr>) g2") simp
  then have "built g2 i g'"
    unfolding built_def
    by (intro addNode_builds builds_wf [OF c1(1)]) (use r1(2) c1(2,3) in \<open>simp_all add: node_wf_def empty_node_def\<close>)
  then show ?thesis using r1(1) c1(1) by (blast intro: builtI)
qed

lemma plain_element_builds:
  assumes "grammar_wf g" and "plain_element lineNo c t g = Inr (i, g', s')"
  shows "built g i g'"
proof (cases "c = CHR 0x22")
  case True
  obtain k g1 where l: "addLiteral (takeWhile (\<lambda>d. d \<noteq> CHR 0x22) t) g = (k, g1)"
    by (cases "addLiteral (takeWhile (\<lambda>d. d \<noteq> CHR 0x22) t) g")
  note l1 = addLiteral_builds [OF assms(1) l]
  have "addNode (empty_node\<lparr>n_kind := Literal, n_literal := k\<rparr>) g1 = (i, g')"
    using assms(2) True
    by (simp add: plain_element_def l Let_def case_prod_beta prod_eq_iff del: dropWhile_eq_Nil_conv split: if_splits)
  then have "built g1 i g'"
    unfolding built_def
    by (intro addNode_builds builds_wf [OF l1(1)]) (use l1(2) in \<open>simp_all add: node_wf_def empty_node_def\<close>)
  then show ?thesis using l1(1) by (blast intro: builtI)
next
  case False
  then consider "parseNumericValue lineNo g t = Inr (i, g', s')" | capture u where "parseReference lineNo capture g u = Inr (i, g', s')"
    using assms(2) by (auto simp: plain_element_def Let_def split: if_splits)
  then show ?thesis by cases (use assms(1) parseNumericValue_builds parseReference_builds in blast)+
qed

lemma repeat_counts_ok:
  assumes "repeat_counts lineNo g s = Inr ((repeated, low, high), g', s')"
  shows "g' = g" "high = kUnbounded \<or> low \<le> high"
  using assms by (auto simp: repeat_counts_def Let_def split: if_splits)

section \<open>Rule bodies\<close>

lemma close_group_same: "close_group lineNo opener closer i g s = Inr (j, g', s') \<Longrightarrow> j = i \<and> g' = g"
  by (auto simp: close_group_def Let_def split: if_splits)

lemma parsers_build:
  "parseElement lineNo g s = Inr (i, g', s') \<Longrightarrow> grammar_wf g \<Longrightarrow> built g i g'"
  "parseRepetition lineNo g s = Inr (i, g', s') \<Longrightarrow> grammar_wf g \<Longrightarrow> built g i g'"
  "concatenation_parts lineNo parts g s = Inr (js, g', s') \<Longrightarrow> grammar_wf g \<Longrightarrow>
    \<forall>j \<in> set parts. in_range j (g_nodes g) \<Longrightarrow> built_list g js g'"
  "parseConcatenation lineNo g s = Inr (i, g', s') \<Longrightarrow> grammar_wf g \<Longrightarrow> built g i g'"
  "alternation_branches lineNo branches g s = Inr (js, g', s') \<Longrightarrow> grammar_wf g \<Longrightarrow>
    \<forall>j \<in> set branches. in_range j (g_nodes g) \<Longrightarrow> branches \<noteq> [] \<Longrightarrow> built_list g js g' \<and> js \<noteq> []"
  "parseAlternation lineNo g s = Inr (i, g', s') \<Longrightarrow> grammar_wf g \<Longrightarrow> built g i g'"
proof (induction lineNo g s and lineNo g s and lineNo parts g s and lineNo g s and lineNo branches g s and lineNo g s
    arbitrary: i g' s' and i g' s' and js g' s' and i g' s' and js g' s' and i g' s'
    rule: parseElement_parseRepetition_concatenation_parts_parseConcatenation_alternation_branches_parseAlternation.induct)
  case (1 lineNo g s)
  from "1.prems" obtain c t where ct: "skipBlanks s = c # t"
    unfolding parseElement.simps [of lineNo g s] by (auto split: list.splits)
  note run = "1.prems"(1) [unfolded parseElement.simps [of lineNo g s] ct list.case]
  consider "c = CHR ''(''" | "c \<noteq> CHR ''(''" "c = CHR ''[''" | "c \<noteq> CHR ''(''" "c \<noteq> CHR ''[''" by blast
  then show ?case
  proof cases
    case 1
    with run obtain s1 where p: "parseAlternation lineNo g t = Inr (i, g', s1)"
      by (auto simp: and_parse_Inr dest: close_group_same)
    show ?thesis using "1.IH"(1) [OF ct 1 p "1.prems"(2)] .
  next
    case 2
    with run obtain j g1 s1 where p: "parseAlternation lineNo g t = Inr (j, g1, s1)" "addParent Repetition 0 1 [j] g1 = (i, g')"
      by (auto simp: and_parse_Inr Let_def case_prod_beta prod_eq_iff dest: close_group_same)
    have b: "built g j g1" by (rule "1.IH"(2) [OF ct 2 p(1) "1.prems"(2)])
    then have "built g1 i g'"
      unfolding built_def by (intro addParent_builds [OF _ _ _ _ p(2)]) (auto simp: builds_wf)
    then show ?thesis using b by (auto simp: built_def intro: builds_trans)
  next
    case 3
    then show ?thesis using run plain_element_builds [OF "1.prems"(2)] by simp
  qed
next
  case (2 lineNo g s)
  from "2.prems"(1) obtain repeated low high g0 s0 j s1 g1 where r:
      "repeat_counts lineNo g (skipBlanks s) = Inr ((repeated, low, high), g0, s0)"
      "parseElement lineNo g0 s0 = Inr (j, g1, s1)"
      "if \<not> repeated then (i, g') = (j, g1) else addParent Repetition low high [j] g1 = (i, g')"
    unfolding parseRepetition.simps [of lineNo g s]
    by (auto simp: and_parse_Inr Let_def case_prod_beta prod_eq_iff split: if_splits)
  note rc = repeat_counts_ok [OF r(1)]
  have b: "built g j g1" using "2.IH" [OF r(1,2)] "2.prems"(2) rc(1) by simp
  show ?case
  proof (cases repeated)
    case True
    then have "built g1 i g'"
      unfolding built_def using b r(3) rc(2) by (intro addParent_builds) (auto simp: built_def builds_wf)
    then show ?thesis using b by (auto simp: built_def intro: builds_trans)
  next
    case False
    then show ?thesis using r(3) b by simp
  qed
next
  case (3 lineNo parts g s)
  note run = "3.prems"(1) [unfolded concatenation_parts.simps [of lineNo parts g s]]
  show ?case
  proof (cases "skipBlanks s")
    case Nil
    then show ?thesis using run "3.prems"(2,3) by (simp add: built_list_def builds_refl)
  next
    case (Cons c t)
    show ?thesis
    proof (cases "c = CHR ''/'' \<or> c = CHR '')'' \<or> c = CHR '']''")
      case True
      then show ?thesis using run "3.prems"(2,3) by (auto simp: Cons built_list_def builds_refl)
    next
      case False
      with run obtain part g1 s1 where p: "parseRepetition lineNo g (c # t) = Inr (part, g1, s1)"
          "concatenation_parts lineNo (parts @ [part]) g1 s1 = Inr (js, g', s')" by (auto simp: Cons and_parse_Inr)
      have b: "built g part g1" by (rule "3.IH"(1) [OF Cons False p(1) "3.prems"(2)])
      have "built_list g1 js g'"
        by (rule "3.IH"(2) [OF Cons False p _ built_snoc [OF "3.prems"(3) b]]) (use b in \<open>auto simp: built_def dest: builds_wf\<close>)
      then show ?thesis using b by (auto simp: built_def built_list_def intro: builds_trans)
    qed
  qed
next
  case (4 lineNo g s)
  from "4.prems"(1) obtain js g1 where p: "concatenation_parts lineNo [] g s = Inr (js, g1, s')" "js \<noteq> []"
      "if length js = 1 then (i, g') = (hd js, g1) else addParent Sequence 0 0 js g1 = (i, g')"
    unfolding parseConcatenation.simps [of lineNo g s]
    by (auto simp: and_parse_Inr Let_def case_prod_beta prod_eq_iff split: if_splits)
  show ?case by (rule built_parent [OF _ p(2,3)]) (use "4.IH" [OF p(1) "4.prems"(2)] in simp_all)
next
  case (5 lineNo branches g s)
  note run = "5.prems"(1) [unfolded alternation_branches.simps [of lineNo branches g s]]
  show ?case
  proof (cases "skipBlanks s")
    case Nil
    then show ?thesis using run "5.prems"(2,3,4) by (simp add: built_list_def builds_refl)
  next
    case (Cons c t)
    show ?thesis
    proof (cases "c = CHR ''/''")
      case False
      then show ?thesis using run "5.prems"(2,3,4) by (auto simp: Cons built_list_def builds_refl)
    next
      case True
      with run obtain branch g1 s1 where p: "parseConcatenation lineNo g t = Inr (branch, g1, s1)"
          "alternation_branches lineNo (branches @ [branch]) g1 s1 = Inr (js, g', s')" by (auto simp: Cons and_parse_Inr)
      have c: "\<not> c \<noteq> CHR ''/''" using True by simp
      have b: "built g branch g1" by (rule "5.IH"(1) [OF Cons c p(1) "5.prems"(2)])
      have "built_list g1 js g' \<and> js \<noteq> []"
        by (rule "5.IH"(2) [OF Cons c p _ built_snoc [OF "5.prems"(3) b]]) (use b in \<open>auto simp: built_def dest: builds_wf\<close>)
      then show ?thesis using b by (auto simp: built_def built_list_def intro: builds_trans)
    qed
  qed
next
  case (6 lineNo g s)
  from "6.prems"(1) obtain j g1 s1 js g2 where p: "parseConcatenation lineNo g s = Inr (j, g1, s1)"
      "alternation_branches lineNo [j] g1 s1 = Inr (js, g2, s')"
      "if length js = 1 then (i, g') = (hd js, g2) else addParent Alternation 0 0 js g2 = (i, g')"
    unfolding parseAlternation.simps [of lineNo g s]
    by (auto simp: and_parse_Inr case_prod_beta Let_def prod_eq_iff split: if_splits)
  have b: "built g j g1" by (rule "6.IH"(1) [OF p(1) "6.prems"(2)])
  have "built_list g1 js g2 \<and> js \<noteq> []"
    by (rule "6.IH"(2) [OF p(1,2)]) (use b in \<open>auto simp: built_def dest: builds_wf\<close>)
  then have "built g1 i g'" by (intro built_parent [OF _ _ p(3)]) simp_all
  then show ?case using b by (auto simp: built_def intro: builds_trans)
qed


section \<open>Rules\<close>

lemma setRoot_wf:
  assumes "grammar_wf g" and "in_range root (g_nodes g)"
  shows "grammar_wf (setRoot rule root g)"
proof -
  have eq: "g_nodes (setRoot rule root g) = g_nodes g" "node (setRoot rule root g) = node g"
      "kids (setRoot rule root g) = kids g"
    by (simp_all add: setRoot_def node_def kids_def child_def fun_eq_iff)
  have "node_wf (setRoot rule root g) i n = node_wf g i n" for i n
    unfolding node_wf_def kids_wf_def eq by (simp add: setRoot_def in_range_def split: node_kind.split)
  then show ?thesis
    using assms by (auto simp: grammar_wf_def eq) (auto simp: setRoot_def dest: set_update_subset_insert [THEN subsetD])
qed

lemma parseRule_wf:
  assumes "grammar_wf g" and "parseRule lineNo line g = Inr g'"
  shows "grammar_wf g'"
proof (cases "skipBlanks line = []")
  case True
  then show ?thesis using assms by (simp add: parseRule_def)
next
  case False
  let ?s = "skipBlanks line"
  obtain rule g1 where r: "internRule (takeWhile isRuleChar ?s) g = (rule, g1)" by (cases "internRule (takeWhile isRuleChar ?s) g")
  obtain t body g2 u where p: "parseAlternation lineNo g1 t = Inr (body, g2, u)"
      "g' = setRoot rule body g2 \<or> ruleRoot g2 rule \<noteq> kNoRule \<and>
        g' = (let (alt, g3) = addParent Alternation 0 0 [ruleRoot g2 rule, body] g2 in setRoot rule alt g3)"
    using assms(2) False unfolding parseRule_def Let_def r prod.case
    by (auto simp: case_prod_beta split: if_splits sum.splits)
  have b: "built g1 body g2" using parsers_build(6) [OF p(1)] internRule_builds(1) [OF assms(1) r] by (simp add: builds_wf)
  show ?thesis
  proof (cases "g' = setRoot rule body g2")
    case True
    then show ?thesis using b by (auto simp: built_def intro: setRoot_wf dest: builds_wf)
  next
    case False
    obtain alt g3 where a: "addParent Alternation 0 0 [ruleRoot g2 rule, body] g2 = (alt, g3)"
      by (cases "addParent Alternation 0 0 [ruleRoot g2 rule, body] g2")
    have "builds g2 g3 \<and> in_range alt (g_nodes g3)"
      using b p(2) False wf_root [of g2 rule] by (intro addParent_builds [OF _ _ _ _ a]) (auto simp: built_def dest: builds_wf)
    then show ?thesis using p(2) False a by (auto intro: setRoot_wf dest: builds_wf)
  qed
qed

lemma parseRules_wf: "parseRules ls g = Inr g' \<Longrightarrow> grammar_wf g \<Longrightarrow> grammar_wf g'"
  by (induction ls g rule: parseRules.induct) (auto split: sum.splits dest: parseRule_wf)

lemma empty_grammar_wf: "grammar_wf empty_grammar"
  by (auto simp: grammar_wf_def empty_grammar_def in_range_def)

end
