(* ===== verification/Validator_Correct.thy ===== *)
theory Validator_Correct
  imports Grammar_Validator Builder_Correct
begin

text \<open>
  The validator of \<open>src/grammar/GrammarValidator.cpp\<close> decides what it is meant to decide: on a
  well-formed grammar \<open>isNullable\<close> is the question whether a node derives the empty string,
  the set \<open>collectLeftReachable\<close> builds is the set of rules a derivation from the node can
  start with, and the checks accept exactly the grammars where every rule is defined and none
  is left-recursive.
\<close>

section \<open>The checks end\<close>

lemma kids_below:
  assumes "grammar_wf g" and "in_range i (g_nodes g)" and "j \<in> set (kids g (node g i))"
  shows "0 \<le> j \<and> j < i \<and> in_range j (g_nodes g)"
  using wf_kid [OF assms] by blast

lemma reference_root:
  assumes "grammar_wf g" and "in_range i (g_nodes g)" and "n_kind (node g i) = Reference"
  shows "in_range (n_lo (node g i)) (g_ruleRoots g)"
  using wf_node [OF assms(1,2)] assms(3) by (simp add: node_wf_def)

lemma repetition_kid:
  assumes "grammar_wf g" and "in_range i (g_nodes g)" and "n_kind (node g i) = Repetition"
  shows "\<forall>j \<in> set [child g (n_first (node g i))]. 0 \<le> j \<and> j < i \<and> in_range j (g_nodes g)"
  using kids_below [OF assms(1,2)] wf_repetition [OF assms] by simp

abbreviation below :: "grammar \<Rightarrow> int \<Rightarrow> int list \<Rightarrow> bool" where
  "below g i js \<equiv> \<forall>j \<in> set js. 0 \<le> j \<and> j < i \<and> in_range j (g_nodes g)"

lemma isNullable_total:
  "grammar_wf g \<Longrightarrow> in_range i (g_nodes g) \<Longrightarrow> \<exists>b. isNullable g busy i = Some b"
  "grammar_wf g \<Longrightarrow> below g i js \<Longrightarrow> \<exists>b. all_nullable g busy i js = Some b"
  "grammar_wf g \<Longrightarrow> below g i js \<Longrightarrow> \<exists>b. some_nullable g busy i js = Some b"
proof (induction g busy i and g busy i js and g busy i js rule: isNullable_all_nullable_some_nullable.induct)
  case (1 g busy i)
  have in_r: "\<not> \<not> in_range i (g_nodes g)" using "1.prems" by simp
  show ?case
  proof (cases "n_kind (node g i)")
    case Reference
    then show ?thesis
      using "1.prems" reference_root [OF "1.prems" Reference] "1.IH"(1) [OF in_r refl Reference] wf_root [OF "1.prems"(1)]
      by (auto simp: isNullable.simps [of g busy i] Let_def)
  next
    case Sequence
    then show ?thesis
      using "1.prems" "1.IH"(2) [OF in_r refl Sequence] kids_below [OF "1.prems"] by (simp add: isNullable.simps [of g busy i])
  next
    case Alternation
    then show ?thesis
      using "1.prems" "1.IH"(3) [OF in_r refl Alternation] kids_below [OF "1.prems"] by (simp add: isNullable.simps [of g busy i])
  next
    case Repetition
    then show ?thesis
      using "1.prems" "1.IH"(4) [OF in_r refl Repetition] repetition_kid [OF "1.prems" Repetition]
      by (auto simp: isNullable.simps [of g busy i] Let_def)
  qed (use "1.prems" in \<open>auto simp: isNullable.simps [of g busy i] Let_def\<close>)
next
  case (3 g busy i j js)
  have j: "0 \<le> j \<and> j < i" using "3.prems" by simp
  obtain b where b: "isNullable g busy j = Some b" using "3.IH"(1) [OF j] "3.prems" by auto
  show ?case using "3.IH"(2) [OF j b] "3.prems" j b by (cases b) auto
next
  case (5 g busy i j js)
  have j: "0 \<le> j \<and> j < i" using "5.prems" by simp
  obtain b where b: "isNullable g busy j = Some b" using "5.IH"(1) [OF j] "5.prems" by auto
  show ?case using "5.IH"(2) [OF j b] "5.prems" j b by (cases b) auto
qed auto

lemma collect_total:
  "grammar_wf g \<Longrightarrow> in_range i (g_nodes g) \<Longrightarrow> \<exists>seen'. collectLeftReachable g i seen = Some seen'"
  "grammar_wf g \<Longrightarrow> below g i js \<Longrightarrow> \<exists>seen'. collect_sequence g i js seen = Some seen'"
  "grammar_wf g \<Longrightarrow> below g i js \<Longrightarrow> \<exists>seen'. collect_all g i js seen = Some seen'"
proof (induction g i seen and g i js seen and g i js seen rule: collectLeftReachable_collect_sequence_collect_all.induct)
  case (1 g i seen)
  have in_r: "\<not> \<not> in_range i (g_nodes g)" using "1.prems" by simp
  show ?case
  proof (cases "n_kind (node g i)")
    case Reference
    then show ?thesis
      using "1.prems" reference_root [OF "1.prems" Reference] "1.IH"(1) [OF in_r refl Reference] wf_root [OF "1.prems"(1)]
      by (auto simp: collectLeftReachable.simps [of g i seen] Let_def)
  next
    case Sequence
    then show ?thesis
      using "1.prems" "1.IH"(2) [OF in_r refl Sequence] kids_below [OF "1.prems"] by (simp add: collectLeftReachable.simps [of g i seen])
  next
    case Alternation
    then show ?thesis
      using "1.prems" "1.IH"(3) [OF in_r refl Alternation] kids_below [OF "1.prems"] by (simp add: collectLeftReachable.simps [of g i seen])
  next
    case Repetition
    then show ?thesis
      using "1.prems" "1.IH"(4) [OF in_r refl Repetition] repetition_kid [OF "1.prems" Repetition]
      by (simp add: collectLeftReachable.simps [of g i seen])
  qed (use "1.prems" in \<open>simp_all add: collectLeftReachable.simps [of g i seen]\<close>)
next
  case (3 g i j js seen)
  have j: "0 \<le> j \<and> j < i" using "3.prems" by simp
  obtain seen1 where s: "collectLeftReachable g j seen = Some seen1" using "3.IH"(1) [OF j] "3.prems" by auto
  obtain b where b: "isNullable g [] j = Some b" using isNullable_total(1) [of g j] "3.prems" by auto
  show ?case using "3.IH"(2) [OF j s b] "3.prems" j s b by (cases b) auto
next
  case (5 g i j js seen)
  have j: "0 \<le> j \<and> j < i" using "5.prems" by simp
  obtain seen1 where s: "collectLeftReachable g j seen = Some seen1" using "5.IH"(1) [OF j] "5.prems" by auto
  show ?case using "5.IH"(2) [OF j s] "5.prems" j s by auto
qed simp_all

lemma left_recursion_total: "grammar_wf g \<Longrightarrow> left_recursion g rs \<noteq> Unfinished"
proof (induction rs)
  case (Cons r rs)
  show ?case
  proof (cases "ruleRoot g r = kNoRule")
    case False
    then obtain seen where "collectLeftReachable g (ruleRoot g r) [] = Some seen"
      using collect_total(1) [OF Cons.prems wf_root [OF Cons.prems False]] by blast
    then show ?thesis using Cons False by simp
  qed (use Cons in simp)
qed simp

lemma validate_total: "grammar_wf g \<Longrightarrow> validate g \<noteq> Unfinished"
  using left_recursion_total [of g "rules_of g"]
  by (auto simp: validate_def checkNoLeftRecursion_def checkAllRulesDefined_def split: option.splits)

section \<open>Nullable means deriving the empty string\<close>

definition nullable :: "grammar \<Rightarrow> int \<Rightarrow> bool" where
  "nullable g i \<longleftrightarrow> (\<exists>cs. yields g i [] cs)"

definition rules_defined :: "grammar \<Rightarrow> bool" where
  "rules_defined g \<longleftrightarrow> (\<forall>r. in_range r (g_ruleRoots g) \<longrightarrow> ruleRoot g r \<noteq> kNoRule)"

definition lower_bounds_ok :: "grammar \<Rightarrow> bool" where
  "lower_bounds_ok g \<longleftrightarrow> (\<forall>n \<in> set (g_nodes g). n_kind n = Repetition \<longrightarrow> 0 \<le> n_lo n)"

lemma lower_bounds_okD: "lower_bounds_ok g \<Longrightarrow> n_kind (node g i) = Repetition \<Longrightarrow> 0 \<le> n_lo (node g i)"
  using node_cases [of g i] by (auto simp: lower_bounds_ok_def empty_node_def)

lemma nullable_seq: "\<forall>j \<in> set js. nullable g j \<Longrightarrow> \<exists>cs. yields_seq g js [] cs"
proof (induction js)
  case (Cons j js)
  then obtain cs ds where "yields g j [] cs" "yields_seq g js [] ds" by (auto simp: nullable_def)
  then show ?case using seq_cons [of g j "[]" cs js "[]" ds] by auto
qed (auto intro: seq_nil)

lemma nullable_times: "nullable g j \<Longrightarrow> \<exists>cs. yields_times g j m [] cs"
proof (induction m)
  case (Suc m)
  then obtain cs ds where "yields g j [] cs" "yields_times g j m [] ds" by (auto simp: nullable_def)
  then show ?case using times_more [of g j "[]" cs m "[]" ds] by auto
qed (auto intro: times_zero)

lemma nullable_repetition:
  assumes "grammar_wf g" and "lower_bounds_ok g" and "in_range i (g_nodes g)" and "n_kind (node g i) = Repetition"
    and "n_lo (node g i) = 0 \<or> nullable g (child g (n_first (node g i)))"
  shows "nullable g i"
proof -
  have lo: "0 \<le> n_lo (node g i)" by (rule lower_bounds_okD [OF assms(2,4)])
  obtain cs where "yields_times g (child g (n_first (node g i))) (nat (n_lo (node g i))) [] cs"
    using assms(5) nullable_times [of g "child g (n_first (node g i))"] times_zero [of g "child g (n_first (node g i))"]
    by (metis nat_0)
  moreover have "times_ok (node g i) (nat (n_lo (node g i)))"
    using wf_node [OF assms(1,3)] assms(4) lo by (auto simp: node_wf_def times_ok_def)
  ultimately show ?thesis using assms(4) yield_repetition unfolding nullable_def by blast
qed

lemma isNullable_sound:
  "isNullable g busy i = Some True \<Longrightarrow> grammar_wf g \<Longrightarrow> rules_defined g \<Longrightarrow> lower_bounds_ok g \<Longrightarrow> nullable g i"
  "all_nullable g busy i js = Some True \<Longrightarrow> grammar_wf g \<Longrightarrow> rules_defined g \<Longrightarrow> lower_bounds_ok g \<Longrightarrow> \<forall>j \<in> set js. nullable g j"
  "some_nullable g busy i js = Some True \<Longrightarrow> grammar_wf g \<Longrightarrow> rules_defined g \<Longrightarrow> lower_bounds_ok g \<Longrightarrow> \<exists>j \<in> set js. nullable g j"
proof (induction g busy i and g busy i js and g busy i js rule: isNullable_all_nullable_some_nullable.induct)
  case (1 g busy i)
  have r: "in_range i (g_nodes g)" using "1.prems"(1) by (auto simp: isNullable.simps [of g busy i] split: if_splits)
  then have in_r: "\<not> \<not> in_range i (g_nodes g)" by simp
  note run = "1.prems"(1) [unfolded isNullable.simps [of g busy i]]
  show ?case
  proof (cases "n_kind (node g i)")
    case Reference
    let ?q = "n_lo (node g i)"
    have q: "in_range ?q (g_ruleRoots g)" "?q \<notin> set busy" using run r Reference by (auto simp: Let_def split: if_splits)
    then have d: "ruleRoot g ?q \<noteq> kNoRule" using "1.prems"(3) by (simp add: rules_defined_def)
    then have "nullable g (ruleRoot g ?q)"
      using "1.IH"(1) [OF in_r refl Reference _ q(2) d] run r Reference q "1.prems"(2,3,4) by (simp add: Let_def)
    then show ?thesis using yield_reference [OF Reference d] by (auto simp: nullable_def)
  next
    case Sequence
    then have "\<forall>j \<in> set (kids g (node g i)). nullable g j"
      using "1.IH"(2) [OF in_r refl Sequence] run r "1.prems"(2,3,4) by simp
    then show ?thesis using nullable_seq yield_sequence [OF Sequence] unfolding nullable_def by blast
  next
    case Alternation
    then have "\<exists>j \<in> set (kids g (node g i)). nullable g j"
      using "1.IH"(3) [OF in_r refl Alternation] run r "1.prems"(2,3,4) by simp
    then show ?thesis using yield_alternation [OF Alternation] unfolding nullable_def by blast
  next
    case Repetition
    have "n_lo (node g i) = 0 \<or> nullable g (child g (n_first (node g i)))"
      using "1.IH"(4) [OF in_r refl Repetition] run r Repetition "1.prems"(2,3,4)
      by (auto simp: Let_def simp del: all_nullable.simps split: if_splits)
    then show ?thesis by (rule nullable_repetition [OF "1.prems"(2,4) r Repetition])
  next
    case Literal
    then show ?thesis using run r yield_literal [OF Literal, of "[]"] by (auto simp: nullable_def)
  next
    case OctetRange
    then show ?thesis using run r by simp
  qed
qed (auto split: if_splits option.splits)


text \<open>
  The other direction: a derivation of the empty string need not go through a rule it is
  already inside of.  \<open>nullable_in\<close> bounds how deep the references nest.
\<close>

inductive nullable_in :: "grammar \<Rightarrow> nat \<Rightarrow> int \<Rightarrow> bool" for g :: grammar where
  null_literal: "n_kind (node g i) = Literal \<Longrightarrow> literal g (n_literal (node g i)) = [] \<Longrightarrow> nullable_in g h i"
| null_reference: "n_kind (node g i) = Reference \<Longrightarrow> ruleRoot g (n_lo (node g i)) \<noteq> kNoRule \<Longrightarrow>
    nullable_in g h (ruleRoot g (n_lo (node g i))) \<Longrightarrow> nullable_in g (Suc h) i"
| null_sequence: "n_kind (node g i) = Sequence \<Longrightarrow> \<forall>j \<in> set (kids g (node g i)). nullable_in g h j \<Longrightarrow> nullable_in g h i"
| null_alternation: "n_kind (node g i) = Alternation \<Longrightarrow> j \<in> set (kids g (node g i)) \<Longrightarrow> nullable_in g h j \<Longrightarrow> nullable_in g h i"
| null_none: "n_kind (node g i) = Repetition \<Longrightarrow> n_lo (node g i) = 0 \<Longrightarrow> nullable_in g h i"
| null_repetition: "n_kind (node g i) = Repetition \<Longrightarrow> nullable_in g h (child g (n_first (node g i))) \<Longrightarrow> nullable_in g h i"

inductive_cases nullable_inE: "nullable_in g h i"

lemma nullable_in_mono: "nullable_in g h i \<Longrightarrow> h \<le> h' \<Longrightarrow> nullable_in g h' i"
proof (induction arbitrary: h' rule: nullable_in.induct)
  case (null_reference i h)
  then obtain m where "h' = Suc m" "h \<le> m" by (cases h') auto
  then show ?case using null_reference nullable_in.null_reference by blast
next
  case (null_sequence i h)
  then show ?case by (blast intro: nullable_in.null_sequence)
qed (blast intro: nullable_in.intros)+

lemma yields_nullable_in:
  "yields g i s cs \<Longrightarrow> lower_bounds_ok g \<Longrightarrow> s = [] \<Longrightarrow> \<exists>h. nullable_in g h i"
  "yields_seq g js s cs \<Longrightarrow> lower_bounds_ok g \<Longrightarrow> s = [] \<Longrightarrow> \<exists>h. \<forall>j \<in> set js. nullable_in g h j"
  "yields_times g j m s cs \<Longrightarrow> lower_bounds_ok g \<Longrightarrow> s = [] \<Longrightarrow> 0 < m \<Longrightarrow> \<exists>h. nullable_in g h j"
proof (induction rule: yields_yields_seq_yields_times.inducts)
  case (yield_repetition i m s cs)
  have lo: "0 \<le> n_lo (node g i)" by (rule lower_bounds_okD [OF yield_repetition.prems(1) yield_repetition(1)])
  show ?case
  proof (cases "n_lo (node g i) = 0")
    case True
    then show ?thesis using yield_repetition(1) by (blast intro: null_none)
  next
    case False
    then have "0 < m" using lo yield_repetition(2) by (auto simp: times_ok_def)
    then show ?thesis using yield_repetition by (blast intro: null_repetition)
  qed
next
  case (seq_cons j s cs js t ds)
  then obtain h h' where "nullable_in g h j" "\<forall>k \<in> set js. nullable_in g h' k" by auto
  then have "\<forall>k \<in> set (j # js). nullable_in g (max h h') k" by (auto intro: nullable_in_mono)
  then show ?case by blast
qed (auto intro: nullable_in.intros)

text \<open>The rules on the way down are busy because their bodies need deeper references.\<close>

abbreviation deeper :: "grammar \<Rightarrow> int list \<Rightarrow> nat \<Rightarrow> bool" where
  "deeper g busy h \<equiv> \<forall>r \<in> set busy. \<forall>k < h. \<not> nullable_in g k (ruleRoot g r)"

lemma isNullable_complete:
  "grammar_wf g \<Longrightarrow> in_range i (g_nodes g) \<Longrightarrow> nullable_in g h i \<Longrightarrow> deeper g busy h \<Longrightarrow> isNullable g busy i = Some True"
  "grammar_wf g \<Longrightarrow> below g i js \<Longrightarrow> \<forall>j \<in> set js. nullable_in g h j \<Longrightarrow> deeper g busy h \<Longrightarrow> all_nullable g busy i js = Some True"
  "grammar_wf g \<Longrightarrow> below g i js \<Longrightarrow> \<exists>j \<in> set js. nullable_in g h j \<Longrightarrow> deeper g busy h \<Longrightarrow> some_nullable g busy i js = Some True"
proof (induction g busy i and g busy i js and g busy i js arbitrary: h and h and h
    rule: isNullable_all_nullable_some_nullable.induct)
  case (1 g busy i)
  note r = "1.prems"(2)
  then have in_r: "\<not> \<not> in_range i (g_nodes g)" by simp
  note eq = isNullable.simps [of g busy i]
  show ?case
  proof (cases "n_kind (node g i)")
    case Reference
    let ?q = "n_lo (node g i)"
    obtain h' where h': "h = Suc h'" "ruleRoot g ?q \<noteq> kNoRule" "nullable_in g h' (ruleRoot g ?q)"
      using "1.prems"(3) Reference by (auto elim: nullable_inE)
    define k where "k = (LEAST k. nullable_in g k (ruleRoot g ?q))"
    have k: "nullable_in g k (ruleRoot g ?q)" "k \<le> h'"
      unfolding k_def using h'(3) by (auto intro: LeastI Least_le)
    have "\<not> nullable_in g m (ruleRoot g ?q)" if "m < k" for m using not_less_Least that unfolding k_def by blast
    then have "deeper g (?q # busy) k" using "1.prems"(4) k(2) h'(1) by auto
    moreover have q: "?q \<notin> set busy" using "1.prems"(4) k h'(1) by force
    moreover note reference_root [OF "1.prems"(1,2) Reference]
    ultimately show ?thesis
      using "1.IH"(1) [OF in_r refl Reference _ q h'(2) "1.prems"(1) wf_root [OF "1.prems"(1) h'(2)] k(1)] r Reference h'(2)
      by (simp add: eq Let_def)
  next
    case Sequence
    then have "\<forall>j \<in> set (kids g (node g i)). nullable_in g h j" using "1.prems"(3) by (auto elim: nullable_inE)
    then show ?thesis
      using "1.IH"(2) [OF in_r refl Sequence "1.prems"(1) _ _ "1.prems"(4)] kids_below [OF "1.prems"(1,2)] r Sequence
      by (simp add: eq)
  next
    case Alternation
    then have "\<exists>j \<in> set (kids g (node g i)). nullable_in g h j" using "1.prems"(3) by (auto elim: nullable_inE)
    then show ?thesis
      using "1.IH"(3) [OF in_r refl Alternation "1.prems"(1) _ _ "1.prems"(4)] kids_below [OF "1.prems"(1,2)] r Alternation
      by (simp add: eq)
  next
    case Repetition
    then have "n_lo (node g i) = 0 \<or> nullable_in g h (child g (n_first (node g i)))"
      using "1.prems"(3) by (auto elim: nullable_inE)
    then show ?thesis
      using "1.IH"(4) [OF in_r refl Repetition _ "1.prems"(1) repetition_kid [OF "1.prems"(1,2) Repetition] _ "1.prems"(4)] r Repetition
      by (auto simp: eq Let_def simp del: all_nullable.simps)
  qed (use "1.prems"(3) r in \<open>auto simp: eq elim: nullable_inE\<close>)
next
  case (3 g busy i j js)
  have j: "0 \<le> j \<and> j < i" using "3.prems" by simp
  have b: "isNullable g busy j = Some True" using "3.IH"(1) [OF j "3.prems"(1) _ _ "3.prems"(4)] "3.prems"(2,3) by simp
  have "all_nullable g busy i js = Some True"
    by (rule "3.IH"(2) [OF j b _ "3.prems"(1) _ _ "3.prems"(4)]) (use "3.prems"(2,3) in auto)
  then show ?case using j b by simp
next
  case (5 g busy i j js)
  have j: "0 \<le> j \<and> j < i" using "5.prems" by simp
  obtain b where b: "isNullable g busy j = Some b" using isNullable_total(1) [of g j busy] "5.prems" by auto
  have "b" if "nullable_in g h j" using "5.IH"(1) [OF j "5.prems"(1) _ that "5.prems"(4)] "5.prems"(2) b by simp
  moreover have "some_nullable g busy i js = Some True" if nb: "\<not> b"
    by (rule "5.IH"(2) [OF j b nb "5.prems"(1) _ _ "5.prems"(4)]) (use "5.prems"(2,3) calculation nb in auto)
  ultimately show ?case using j b by (cases b) simp_all
qed simp_all

lemma isNullable_exact:
  assumes "grammar_wf g" and "rules_defined g" and "lower_bounds_ok g" and "in_range i (g_nodes g)"
  shows "isNullable g [] i = Some (nullable g i)"
proof -
  have "isNullable g [] i = Some True" if n: "nullable g i"
  proof -
    obtain h where "nullable_in g h i" using n yields_nullable_in(1) [of g i "[]", OF _ assms(3)] by (auto simp: nullable_def)
    then show ?thesis using isNullable_complete(1) [OF assms(1,4)] by simp
  qed
  moreover obtain b where "isNullable g [] i = Some b" using isNullable_total(1) [OF assms(1,4)] by blast
  ultimately show ?thesis using isNullable_sound(1) [of g "[]" i] assms by (cases b) auto
qed


section \<open>Left recursion\<close>

text \<open>
  The rules a derivation from a node can start with: the rule of a reference, what that
  rule's body starts with, and past the parts of a sequence that may be empty.
\<close>

inductive leftmost :: "grammar \<Rightarrow> int \<Rightarrow> int \<Rightarrow> bool" for g :: grammar where
  left_here: "n_kind (node g i) = Reference \<Longrightarrow> leftmost g i (n_lo (node g i))"
| left_rule: "n_kind (node g i) = Reference \<Longrightarrow> ruleRoot g (n_lo (node g i)) \<noteq> kNoRule \<Longrightarrow>
    leftmost g (ruleRoot g (n_lo (node g i))) r \<Longrightarrow> leftmost g i r"
| left_sequence: "n_kind (node g i) = Sequence \<Longrightarrow> kids g (node g i) = js @ j # ks \<Longrightarrow>
    \<forall>k \<in> set js. nullable g k \<Longrightarrow> leftmost g j r \<Longrightarrow> leftmost g i r"
| left_alternation: "n_kind (node g i) = Alternation \<Longrightarrow> j \<in> set (kids g (node g i)) \<Longrightarrow> leftmost g j r \<Longrightarrow> leftmost g i r"
| left_repetition: "n_kind (node g i) = Repetition \<Longrightarrow> leftmost g (child g (n_first (node g i))) r \<Longrightarrow> leftmost g i r"

definition grammar_ok :: "grammar \<Rightarrow> bool" where
  "grammar_ok g \<longleftrightarrow> grammar_wf g \<and> rules_defined g \<and> lower_bounds_ok g"

lemma collect_sound:
  "collectLeftReachable g i seen = Some seen' \<Longrightarrow> grammar_ok g \<Longrightarrow> r \<in> set seen' \<Longrightarrow> r \<in> set seen \<or> leftmost g i r"
  "collect_sequence g i js seen = Some seen' \<Longrightarrow> grammar_ok g \<Longrightarrow> r \<in> set seen' \<Longrightarrow> below g i js \<Longrightarrow>
    r \<in> set seen \<or> (\<exists>as j bs. js = as @ j # bs \<and> (\<forall>k \<in> set as. nullable g k) \<and> leftmost g j r)"
  "collect_all g i js seen = Some seen' \<Longrightarrow> grammar_ok g \<Longrightarrow> r \<in> set seen' \<Longrightarrow>
    r \<in> set seen \<or> (\<exists>j \<in> set js. leftmost g j r)"
proof (induction g i seen and g i js seen and g i js seen arbitrary: seen' and seen' and seen'
    rule: collectLeftReachable_collect_sequence_collect_all.induct)
  case (1 g i seen)
  have i: "in_range i (g_nodes g)" using "1.prems"(1) by (auto simp: collectLeftReachable.simps [of g i seen] split: if_splits)
  then have in_r: "\<not> \<not> in_range i (g_nodes g)" by simp
  note run = "1.prems"(1) [unfolded collectLeftReachable.simps [of g i seen]]
  note ok = "1.prems"(2) note wf = ok [unfolded grammar_ok_def, THEN conjunct1]
  show ?case
  proof (cases "n_kind (node g i)")
    case Reference
    let ?q = "n_lo (node g i)"
    have q: "in_range ?q (g_ruleRoots g)" by (rule reference_root [OF wf i Reference])
    then have d: "ruleRoot g ?q \<noteq> kNoRule" using ok by (simp add: grammar_ok_def rules_defined_def)
    show ?thesis
    proof (cases "?q \<in> set seen")
      case True
      then show ?thesis using run i Reference q "1.prems"(3) by (simp add: Let_def)
    next
      case False
      then have "r \<in> set (?q # seen) \<or> leftmost g (ruleRoot g ?q) r"
        using "1.IH"(1) [OF in_r refl Reference _ False d _ ok "1.prems"(3)] run i Reference q d by (simp add: Let_def)
      then show ?thesis using left_here [OF Reference] left_rule [OF Reference d] by auto
    qed
  next
    case Sequence
    then have "r \<in> set seen \<or> (\<exists>as j bs. kids g (node g i) = as @ j # bs \<and> (\<forall>k \<in> set as. nullable g k) \<and> leftmost g j r)"
      using "1.IH"(2) [OF in_r refl Sequence _ ok "1.prems"(3)] run i kids_below [OF wf i] by (simp add: Let_def)
    then show ?thesis using left_sequence [OF Sequence] by blast
  next
    case Alternation
    then have "r \<in> set seen \<or> (\<exists>j \<in> set (kids g (node g i)). leftmost g j r)"
      using "1.IH"(3) [OF in_r refl Alternation _ ok "1.prems"(3)] run i by (simp add: Let_def)
    then show ?thesis using left_alternation [OF Alternation] by blast
  next
    case Repetition
    then have "r \<in> set seen \<or> leftmost g (child g (n_first (node g i))) r"
      using "1.IH"(4) [OF in_r refl Repetition _ ok "1.prems"(3)] run i by (simp add: Let_def del: collect_all.simps)
    then show ?thesis using left_repetition [OF Repetition] by blast
  qed (use run i "1.prems"(3) in \<open>simp_all add: Let_def\<close>)
next
  case (3 g i j js seen)
  obtain seen1 yes where p: "0 \<le> j \<and> j < i" "collectLeftReachable g j seen = Some seen1" "isNullable g [] j = Some yes"
      "(if yes then collect_sequence g i js seen1 else Some seen1) = Some seen'"
    using "3.prems"(1) by (auto split: if_splits option.splits)
  have y: "yes = nullable g j"
    using isNullable_exact [of g j] "3.prems"(2,4) p(3) by (simp add: grammar_ok_def)
  have first: "r \<in> set seen1 \<Longrightarrow> r \<in> set seen \<or> leftmost g j r" by (rule "3.IH"(1) [OF p(1,2) "3.prems"(2)])
  show ?case
  proof (cases yes)
    case True
    then have "r \<in> set seen1 \<or> (\<exists>as k bs. js = as @ k # bs \<and> (\<forall>k \<in> set as. nullable g k) \<and> leftmost g k r)"
      using "3.IH"(2) [OF p(1,2,3) True _ "3.prems"(2,3)] p(4) "3.prems"(4) by simp
    then show ?thesis
    proof
      assume "\<exists>as k bs. js = as @ k # bs \<and> (\<forall>k \<in> set as. nullable g k) \<and> leftmost g k r"
      then obtain as k bs where "j # js = (j # as) @ k # bs" "\<forall>k \<in> set (j # as). nullable g k" "leftmost g k r"
        using True y by auto
      then show ?thesis by blast
    qed (use first in fastforce)
  next
    case False
    then show ?thesis using p(4) first "3.prems"(3) by fastforce
  qed
next
  case (5 g i j js seen)
  obtain seen1 where p: "0 \<le> j \<and> j < i" "collectLeftReachable g j seen = Some seen1" "collect_all g i js seen1 = Some seen'"
    using "5.prems"(1) by (auto split: if_splits option.splits)
  show ?case using "5.IH"(1) [OF p(1,2) "5.prems"(2)] "5.IH"(2) [OF p "5.prems"(2,3)] by auto
qed auto


text \<open>One step of \<open>leftmost\<close>: the references met without entering a rule.\<close>

inductive direct :: "grammar \<Rightarrow> int \<Rightarrow> int \<Rightarrow> bool" for g :: grammar where
  direct_here: "n_kind (node g i) = Reference \<Longrightarrow> direct g i (n_lo (node g i))"
| direct_sequence: "n_kind (node g i) = Sequence \<Longrightarrow> kids g (node g i) = js @ j # ks \<Longrightarrow>
    \<forall>k \<in> set js. nullable g k \<Longrightarrow> direct g j r \<Longrightarrow> direct g i r"
| direct_alternation: "n_kind (node g i) = Alternation \<Longrightarrow> j \<in> set (kids g (node g i)) \<Longrightarrow> direct g j r \<Longrightarrow> direct g i r"
| direct_repetition: "n_kind (node g i) = Repetition \<Longrightarrow> direct g (child g (n_first (node g i))) r \<Longrightarrow> direct g i r"

inductive_cases directE: "direct g i r"

text \<open>What a collection has found, from a node's direct references, and from what it has visited on the way.\<close>

definition found :: "grammar \<Rightarrow> (int \<Rightarrow> bool) \<Rightarrow> int list \<Rightarrow> int list \<Rightarrow> bool" where
  "found g here seen seen' \<longleftrightarrow> set seen \<subseteq> set seen' \<and> (\<forall>r. here r \<longrightarrow> r \<in> set seen') \<and>
     (\<forall>q \<in> set seen' - set seen. \<forall>r. direct g (ruleRoot g q) r \<longrightarrow> r \<in> set seen')"

lemma found_then:
  assumes "found g here seen seen1" and "found g there seen1 seen'"
  shows "found g (\<lambda>r. here r \<or> there r) seen seen'"
  using assms unfolding found_def by blast

lemma found_less: "found g here seen seen' \<Longrightarrow> (\<And>r. here' r \<Longrightarrow> here r) \<Longrightarrow> found g here' seen seen'"
  unfolding found_def by blast

lemma found_nothing [simp]: "found g (\<lambda>r. False) seen seen"
  by (simp add: found_def)

lemma collect_complete:
  "collectLeftReachable g i seen = Some seen' \<Longrightarrow> grammar_ok g \<Longrightarrow> found g (direct g i) seen seen'"
  "collect_sequence g i js seen = Some seen' \<Longrightarrow> grammar_ok g \<Longrightarrow> below g i js \<Longrightarrow>
    found g (\<lambda>r. \<exists>as j bs. js = as @ j # bs \<and> (\<forall>k \<in> set as. nullable g k) \<and> direct g j r) seen seen'"
  "collect_all g i js seen = Some seen' \<Longrightarrow> grammar_ok g \<Longrightarrow> found g (\<lambda>r. \<exists>j \<in> set js. direct g j r) seen seen'"
proof (induction g i seen and g i js seen and g i js seen arbitrary: seen' and seen' and seen'
    rule: collectLeftReachable_collect_sequence_collect_all.induct)
  case (1 g i seen)
  have i: "in_range i (g_nodes g)" using "1.prems"(1) by (auto simp: collectLeftReachable.simps [of g i seen] split: if_splits)
  then have in_r: "\<not> \<not> in_range i (g_nodes g)" by simp
  note run = "1.prems"(1) [unfolded collectLeftReachable.simps [of g i seen]]
  note ok = "1.prems"(2) note wf = ok [unfolded grammar_ok_def, THEN conjunct1]
  show ?case
  proof (cases "n_kind (node g i)")
    case Reference
    let ?q = "n_lo (node g i)"
    have q: "in_range ?q (g_ruleRoots g)" by (rule reference_root [OF wf i Reference])
    then have d: "ruleRoot g ?q \<noteq> kNoRule" using ok by (simp add: grammar_ok_def rules_defined_def)
    have here: "direct g i r \<longleftrightarrow> r = ?q" for r
      using Reference direct_here [OF Reference] by (auto elim: directE)
    show ?thesis
    proof (cases "?q \<in> set seen")
      case True
      then show ?thesis using run i Reference q by (simp add: Let_def here found_def)
    next
      case False
      then have "found g (direct g (ruleRoot g ?q)) (?q # seen) seen'"
        using "1.IH"(1) [OF in_r refl Reference _ False d _ ok] run i Reference q d by (simp add: Let_def)
      then show ?thesis unfolding found_def here by auto
    qed
  next
    case Sequence
    then have "found g (\<lambda>r. \<exists>as j bs. kids g (node g i) = as @ j # bs \<and> (\<forall>k \<in> set as. nullable g k) \<and> direct g j r) seen seen'"
      using "1.IH"(2) [OF in_r refl Sequence _ ok] run i kids_below [OF wf i] by (simp add: Let_def)
    then show ?thesis by (rule found_less) (erule directE, use Sequence in \<open>simp_all, blast\<close>)
  next
    case Alternation
    then have "found g (\<lambda>r. \<exists>j \<in> set (kids g (node g i)). direct g j r) seen seen'"
      using "1.IH"(3) [OF in_r refl Alternation _ ok] run i by (simp add: Let_def)
    then show ?thesis by (rule found_less) (use Alternation in \<open>auto elim: directE\<close>)
  next
    case Repetition
    then have "found g (\<lambda>r. \<exists>j \<in> set [child g (n_first (node g i))]. direct g j r) seen seen'"
      using "1.IH"(4) [OF in_r refl Repetition _ ok] run i by (simp add: Let_def del: collect_all.simps)
    then show ?thesis by (rule found_less) (use Repetition in \<open>auto elim: directE\<close>)
  qed (use run i in \<open>auto simp: Let_def found_def elim: directE\<close>)
next
  case (3 g i j js seen)
  obtain seen1 yes where p: "0 \<le> j \<and> j < i" "collectLeftReachable g j seen = Some seen1" "isNullable g [] j = Some yes"
      "(if yes then collect_sequence g i js seen1 else Some seen1) = Some seen'"
    using "3.prems"(1) by (auto split: if_splits option.splits)
  have y: "yes = nullable g j"
    using isNullable_exact [of g j] "3.prems"(2,3) p(3) by (simp add: grammar_ok_def)
  have one: "found g (direct g j) seen seen1" by (rule "3.IH"(1) [OF p(1,2) "3.prems"(2)])
  have split: "direct g j r \<or> nullable g j \<and> (\<exists>as k bs. js = as @ k # bs \<and> (\<forall>k \<in> set as. nullable g k) \<and> direct g k r)"
    if h: "\<exists>as k bs. j # js = as @ k # bs \<and> (\<forall>k \<in> set as. nullable g k) \<and> direct g k r" for r
  proof -
    obtain as k bs where s: "j # js = as @ k # bs" "\<forall>k \<in> set as. nullable g k" "direct g k r"
      using h by (elim exE conjE) (rule that)
    show ?thesis
    proof (cases as)
      case (Cons a as')
      then have "js = as' @ k # bs" "nullable g j" "\<forall>k \<in> set as'. nullable g k" using s by simp_all
      then show ?thesis using s(3) by blast
    next
      case Nil
      then have "direct g j r" using s by simp
      then show ?thesis by blast
    qed
  qed
  show ?case
  proof (cases yes)
    case True
    then have "found g (\<lambda>r. \<exists>as k bs. js = as @ k # bs \<and> (\<forall>k \<in> set as. nullable g k) \<and> direct g k r) seen1 seen'"
      using "3.IH"(2) [OF p(1,2,3) True _ "3.prems"(2)] p(4) "3.prems"(3) by simp
    from found_then [OF one this] show ?thesis by (rule found_less) (use split in blast)
  next
    case False
    then have "seen' = seen1" using p(4) by simp
    then have "found g (direct g j) seen seen'" using one by simp
    then show ?thesis by (rule found_less) (use split False y in blast)
  qed
next
  case (5 g i j js seen)
  obtain seen1 where p: "0 \<le> j \<and> j < i" "collectLeftReachable g j seen = Some seen1" "collect_all g i js seen1 = Some seen'"
    using "5.prems"(1) by (auto split: if_splits option.splits)
  from found_then [OF "5.IH"(1) [OF p(1,2) "5.prems"(2)] "5.IH"(2) [OF p "5.prems"(2)]]
  show ?case by (rule found_less) auto
qed (auto simp: found_def)

lemma leftmost_closed:
  assumes "leftmost g i r" and "\<forall>q. direct g i q \<longrightarrow> q \<in> S"
    and "\<forall>q \<in> S. \<forall>r. direct g (ruleRoot g q) r \<longrightarrow> r \<in> S"
  shows "r \<in> S"
  using assms(1,2)
proof (induction rule: leftmost.induct)
  case (left_rule i r)
  then show ?case using assms(3) direct_here by blast
qed (use direct.intros in blast)+

theorem collectLeftReachable_exact:
  assumes "grammar_ok g" and "collectLeftReachable g i [] = Some seen"
  shows "set seen = {r. leftmost g i r}"
proof -
  have "r \<in> set seen" if "leftmost g i r" for r
    by (rule leftmost_closed [OF that]) (use collect_complete(1) [OF assms(2,1)] in \<open>auto simp: found_def\<close>)
  moreover have "leftmost g i r" if "r \<in> set seen" for r using collect_sound(1) [OF assms(2,1) that] by simp
  ultimately show ?thesis by blast
qed

section \<open>What the validator accepts\<close>

definition left_recursive :: "grammar \<Rightarrow> int \<Rightarrow> bool" where
  "left_recursive g r \<longleftrightarrow> ruleRoot g r \<noteq> kNoRule \<and> leftmost g (ruleRoot g r) r"

lemma left_recursion_valid:
  assumes "grammar_ok g"
  shows "left_recursion g rs = Valid \<longleftrightarrow> (\<forall>r \<in> set rs. \<not> left_recursive g r)"
proof (induction rs)
  case (Cons r rs)
  show ?case
  proof (cases "ruleRoot g r = kNoRule")
    case True
    then show ?thesis using Cons by (simp add: left_recursive_def)
  next
    case False
    have wf: "grammar_wf g" using assms by (simp add: grammar_ok_def)
    obtain seen where seen: "collectLeftReachable g (ruleRoot g r) [] = Some seen"
      using collect_total(1) [OF wf wf_root [OF wf False]] by blast
    have "r \<in> set seen \<longleftrightarrow> left_recursive g r"
      using collectLeftReachable_exact [OF assms seen] False by (simp add: left_recursive_def)
    then show ?thesis using Cons False seen by simp
  qed
qed simp

lemma rules_of_range: "grammar_wf g \<Longrightarrow> r \<in> set (rules_of g) \<longleftrightarrow> in_range r (g_ruleRoots g)"
  by (auto simp: rules_of_def grammar_wf_def in_range_def image_iff intro!: bexI [of _ "nat r"])

lemma checkAllRulesDefined_valid:
  assumes "grammar_wf g"
  shows "checkAllRulesDefined g = Valid \<longleftrightarrow> rules_defined g"
proof -
  have "checkAllRulesDefined g = Valid \<longleftrightarrow> (\<forall>r \<in> set (rules_of g). ruleRoot g r \<noteq> kNoRule)"
    by (auto simp: checkAllRulesDefined_def find_None_iff find_Some_iff split: option.splits)
  then show ?thesis using rules_of_range [OF assms] by (auto simp: rules_defined_def)
qed

lemma validate_valid:
  assumes "grammar_wf g" and "lower_bounds_ok g"
  shows "validate g = Valid \<longleftrightarrow> rules_defined g \<and> (\<forall>r. \<not> left_recursive g r)"
proof (cases "rules_defined g")
  case True
  then have ok: "grammar_ok g" using assms by (simp add: grammar_ok_def)
  have "\<not> left_recursive g r" if "r \<notin> set (rules_of g)" for r
    using that rules_of_range [OF assms(1), of r] by (simp add: left_recursive_def ruleRoot_def)
  then show ?thesis
    using True left_recursion_valid [OF ok, of "rules_of g"] checkAllRulesDefined_valid [OF assms(1)]
    by (auto simp: validate_def checkNoLeftRecursion_def)
next
  case False
  then have "checkAllRulesDefined g \<noteq> Valid" using checkAllRulesDefined_valid [OF assms(1)] by simp
  then show ?thesis using False by (auto simp: validate_def split: validation.splits)
qed

section \<open>The whole builder\<close>

lemma compile_grammar_total: "compile_grammar s \<noteq> None"
proof -
  have "validate g \<noteq> Unfinished" if "parseRules ls empty_grammar = Inr g" for ls g
    by (rule validate_total) (rule parseRules_wf [OF that empty_grammar_wf])
  then show ?thesis by (auto simp: compile_grammar_def split: sum.splits validation.splits)
qed

lemma compile_grammar_valid:
  assumes "compile_grammar s = Some (Inr g)"
  shows "grammar_wf g" "validate g = Valid"
proof -
  obtain ls where "parseRules ls empty_grammar = Inr g" "validate g = Valid"
    using assms by (auto simp: compile_grammar_def split: sum.splits validation.splits)
  then show "grammar_wf g" "validate g = Valid" using parseRules_wf empty_grammar_wf by blast+
qed

lemma compile_grammar_defined: "compile_grammar s = Some (Inr g) \<Longrightarrow> rules_defined g"
  using compile_grammar_valid [of s g] checkAllRulesDefined_valid [of g]
  by (auto simp: validate_def split: validation.splits)

end
