(* ===== verification/Compiler_Segments.thy ===== *)
theory Compiler_Segments
  imports Program_Machine "HOL-Library.Sublist"
begin

text \<open>
  The paths through a compiled program, and what a stretch of code between two addresses
  matches: every path that leaves the stretch does so at its end, having consumed a text of
  its language, and every such text has a path.  The lemmas are the ways the compiler puts
  stretches together.
\<close>

section \<open>Paths\<close>

definition ins_at :: "program \<Rightarrow> int \<Rightarrow> instruction" where
  "ins_at P pc = pg_code P ! nat pc"

inductive path :: "program \<Rightarrow> string \<Rightarrow> nat \<Rightarrow> int \<Rightarrow> nat \<Rightarrow> int \<Rightarrow> nat \<Rightarrow> bool" for P line where
  path_here: "path P line 0 pc pos pc pos"
| path_jump: "in_range pc (pg_code P) \<Longrightarrow> i_op (ins_at P pc) = Jump \<Longrightarrow>
    path P line n (i_x (ins_at P pc)) pos q r \<Longrightarrow> path P line (Suc n) pc pos q r"
| path_split_x: "in_range pc (pg_code P) \<Longrightarrow> i_op (ins_at P pc) = Split \<Longrightarrow>
    path P line n (i_x (ins_at P pc)) pos q r \<Longrightarrow> path P line (Suc n) pc pos q r"
| path_split_y: "in_range pc (pg_code P) \<Longrightarrow> i_op (ins_at P pc) = Split \<Longrightarrow>
    path P line n (i_y (ins_at P pc)) pos q r \<Longrightarrow> path P line (Suc n) pc pos q r"
| path_save: "in_range pc (pg_code P) \<Longrightarrow> i_op (ins_at P pc) = Save \<Longrightarrow>
    path P line n (pc + 1) pos q r \<Longrightarrow> path P line (Suc n) pc pos q r"
| path_class: "in_range pc (pg_code P) \<Longrightarrow> i_op (ins_at P pc) = Class \<Longrightarrow> pos < length line \<Longrightarrow>
    program_inClass P (i_x (ins_at P pc)) (line ! pos) \<Longrightarrow>
    path P line n (pc + 1) (pos + 1) q r \<Longrightarrow> path P line (Suc n) pc pos q r"

inductive_cases path_E: "path P line n pc pos q r"

abbreviation reach :: "program \<Rightarrow> string \<Rightarrow> int \<Rightarrow> nat \<Rightarrow> int \<Rightarrow> nat \<Rightarrow> bool" where
  "reach P line pc pos q r \<equiv> \<exists>n. path P line n pc pos q r"

lemma path_trans:
  "path P line n pc pos q r \<Longrightarrow> path P line m q r q' r' \<Longrightarrow> path P line (n + m) pc pos q' r'"
  by (induction rule: path.induct) (auto intro: path.intros)

lemma reach_trans: "reach P line pc pos q r \<Longrightarrow> reach P line q r q' r' \<Longrightarrow> reach P line pc pos q' r'"
  using path_trans by blast

section \<open>Stretches of code\<close>

definition piece :: "string \<Rightarrow> nat \<Rightarrow> string \<Rightarrow> bool" where
  "piece line pos s \<longleftrightarrow> (\<exists>t. drop pos line = s @ t)"

lemma piece_append: "piece line pos (s1 @ s2) \<longleftrightarrow> piece line pos s1 \<and> piece line (pos + length s1) s2"
proof
  assume "piece line pos (s1 @ s2)"
  then obtain t where t: "drop pos line = s1 @ s2 @ t" by (auto simp: piece_def)
  then have "drop (pos + length s1) line = s2 @ t" by (metis add.commute append_eq_conv_conj drop_drop)
  then show "piece line pos s1 \<and> piece line (pos + length s1) s2" using t by (auto simp: piece_def)
next
  assume "piece line pos s1 \<and> piece line (pos + length s1) s2"
  then obtain t u where "drop pos line = s1 @ t" "drop (pos + length s1) line = s2 @ u" by (auto simp: piece_def)
  then have "drop pos line = (s1 @ s2) @ u" by (metis add.commute append.assoc append_eq_conv_conj drop_drop)
  then show "piece line pos (s1 @ s2)" unfolding piece_def by blast
qed

lemma piece_nil [simp]: "piece line pos []"
  by (simp add: piece_def)

lemma piece_one: "piece line pos [c] \<longleftrightarrow> pos < length line \<and> line ! pos = c"
proof
  assume "piece line pos [c]"
  then obtain t where "drop pos line = c # t" by (auto simp: piece_def)
  then show "pos < length line \<and> line ! pos = c"
    by (metis drop_eq_Nil2 hd_drop_conv_nth leI list.discI list.sel(1))
next
  assume "pos < length line \<and> line ! pos = c"
  then show "piece line pos [c]" by (auto simp: piece_def intro!: exI [of _ "drop (Suc pos) line"] Cons_nth_drop_Suc [symmetric])
qed

definition seg :: "program \<Rightarrow> string \<Rightarrow> int \<Rightarrow> int \<Rightarrow> (string \<Rightarrow> bool) \<Rightarrow> bool" where
  "seg P line a b L \<longleftrightarrow> a \<le> b \<and>
     (\<forall>n pos q r. path P line n a pos q r \<longrightarrow> \<not> (a \<le> q \<and> q < b) \<longrightarrow>
        (\<exists>s m. m \<le> n \<and> piece line pos s \<and> L s \<and> path P line m b (pos + length s) q r)) \<and>
     (\<forall>pos s. piece line pos s \<longrightarrow> L s \<longrightarrow> reach P line a pos b (pos + length s))"

lemma segD:
  assumes "seg P line a b L" and "path P line n a pos q r" and "\<not> (a \<le> q \<and> q < b)"
  obtains s m where "m \<le> n" "piece line pos s" "L s" "path P line m b (pos + length s) q r"
  using assms unfolding seg_def by blast

lemma segR: "seg P line a b L \<Longrightarrow> piece line pos s \<Longrightarrow> L s \<Longrightarrow> reach P line a pos b (pos + length s)"
  by (simp add: seg_def)

lemma seg_le: "seg P line a b L \<Longrightarrow> a \<le> b"
  by (simp add: seg_def)

lemma segI:
  assumes "a \<le> b"
    and "\<And>n pos q r. path P line n a pos q r \<Longrightarrow> \<not> (a \<le> q \<and> q < b) \<Longrightarrow>
        \<exists>s m. m \<le> n \<and> piece line pos s \<and> L s \<and> path P line m b (pos + length s) q r"
    and "\<And>pos s. piece line pos s \<Longrightarrow> L s \<Longrightarrow> reach P line a pos b (pos + length s)"
  shows "seg P line a b L"
  using assms unfolding seg_def by blast

lemma seg_iff: "seg P line a b L \<Longrightarrow> (\<And>s. L s \<longleftrightarrow> M s) \<Longrightarrow> seg P line a b M"
  by (simp add: seg_def)

lemma seg_empty [intro]: "seg P line a a (\<lambda>s. s = [])"
  by (rule segI) (auto intro: path_here)

lemma seg_seq:
  assumes "seg P line a m L" and "seg P line m b M"
  shows "seg P line a b (\<lambda>s. \<exists>s1 s2. s = s1 @ s2 \<and> L s1 \<and> M s2)"
proof (rule segI)
  show "a \<le> b" using assms [THEN seg_le] by simp
next
  fix n pos q r
  assume p: "path P line n a pos q r" and q: "\<not> (a \<le> q \<and> q < b)"
  have "\<not> (a \<le> q \<and> q < m)" "\<not> (m \<le> q \<and> q < b)" using q assms [THEN seg_le] by auto
  obtain s1 n1 where 1: "n1 \<le> n" "piece line pos s1" "L s1" "path P line n1 m (pos + length s1) q r"
    using segD [OF assms(1) p \<open>\<not> (a \<le> q \<and> q < m)\<close>] by blast
  obtain s2 n2 where 2: "n2 \<le> n1" "piece line (pos + length s1) s2" "M s2"
      "path P line n2 b (pos + length s1 + length s2) q r"
    using segD [OF assms(2) 1(4) \<open>\<not> (m \<le> q \<and> q < b)\<close>] by blast
  show "\<exists>s n'. n' \<le> n \<and> piece line pos s \<and> (\<exists>s1 s2. s = s1 @ s2 \<and> L s1 \<and> M s2) \<and>
      path P line n' b (pos + length s) q r"
    using 1 2 by (intro exI [of _ "s1 @ s2"] exI [of _ n2]) (auto simp: piece_append add.assoc)
next
  fix pos s
  assume "piece line pos s" and "\<exists>s1 s2. s = s1 @ s2 \<and> L s1 \<and> M s2"
  then obtain s1 s2 where s: "s = s1 @ s2" "L s1" "M s2" "piece line pos s1" "piece line (pos + length s1) s2"
    by (auto simp: piece_append)
  show "reach P line a pos b (pos + length s)"
    using reach_trans [OF segR [OF assms(1) s(4,2)] segR [OF assms(2) s(5,3)]] by (simp add: s(1) add.assoc)
qed

lemma seg_class:
  assumes "in_range a (pg_code P)" and "i_op (ins_at P a) = Class"
  shows "seg P line a (a + 1) (\<lambda>s. \<exists>c. s = [c] \<and> program_inClass P (i_x (ins_at P a)) c)"
proof (rule segI)
  fix n pos q r
  assume p: "path P line n a pos q r" and q: "\<not> (a \<le> q \<and> q < a + 1)"
  from p obtain m where m: "n = Suc m" "pos < length line" "program_inClass P (i_x (ins_at P a)) (line ! pos)"
      "path P line m (a + 1) (pos + 1) q r"
    by (cases rule: path_E) (use q assms(2) in auto)
  then show "\<exists>s m. m \<le> n \<and> piece line pos s \<and> (\<exists>c. s = [c] \<and> program_inClass P (i_x (ins_at P a)) c) \<and>
      path P line m (a + 1) (pos + length s) q r"
    by (intro exI [of _ "[line ! pos]"] exI [of _ m]) (auto simp: piece_one)
next
  fix pos s
  assume "piece line pos s" and "\<exists>c. s = [c] \<and> program_inClass P (i_x (ins_at P a)) c"
  then have "pos < length line" "program_inClass P (i_x (ins_at P a)) (line ! pos)" "length s = 1"
    by (auto simp: piece_one)
  then show "reach P line a pos (a + 1) (pos + length s)"
    using path_class [OF assms _ _ path_here] by auto
qed simp

lemma seg_save:
  assumes "in_range a (pg_code P)" and "i_op (ins_at P a) = Save"
  shows "seg P line a (a + 1) (\<lambda>s. s = [])"
proof (rule segI)
  fix n pos q r
  assume p: "path P line n a pos q r" and q: "\<not> (a \<le> q \<and> q < a + 1)"
  from p obtain m where "n = Suc m" "path P line m (a + 1) pos q r"
    by (cases rule: path_E) (use q assms(2) in auto)
  then show "\<exists>s m. m \<le> n \<and> piece line pos s \<and> s = [] \<and> path P line m (a + 1) (pos + length s) q r"
    by (intro exI [of _ "[]"] exI [of _ m]) auto
next
  fix pos s
  assume "s = ([] :: string)"
  then show "reach P line a pos (a + 1) (pos + length s)" using path_save [OF assms path_here] by auto
qed simp

section \<open>Choices, options and loops\<close>

lemma path_split:
  assumes "path P line n pc pos q r" and "i_op (ins_at P pc) = Split" and "q \<noteq> pc"
  obtains m where "n = Suc m" "path P line m (i_x (ins_at P pc)) pos q r \<or> path P line m (i_y (ins_at P pc)) pos q r"
  using assms(1) by (cases rule: path_E) (use assms in auto)

lemma path_jump':
  assumes "path P line n pc pos q r" and "i_op (ins_at P pc) = Jump" and "q \<noteq> pc"
  obtains m where "n = Suc m" "path P line m (i_x (ins_at P pc)) pos q r"
  using assms(1) by (cases rule: path_E) (use assms in auto)

lemma reach_split:
  assumes "in_range pc (pg_code P)" and "i_op (ins_at P pc) = Split"
    and "t = i_x (ins_at P pc) \<or> t = i_y (ins_at P pc)" and "reach P line t pos q r"
  shows "reach P line pc pos q r"
  using assms by (blast intro: path_split_x path_split_y)

lemma seg_alt:
  assumes "in_range a (pg_code P)" and "i_op (ins_at P a) = Split" and "i_x (ins_at P a) = a + 1"
    and "i_y (ins_at P a) = m + 1" and "seg P line (a + 1) m L" and "in_range m (pg_code P)"
    and "i_op (ins_at P m) = Jump" and "i_x (ins_at P m) = b" and "seg P line (m + 1) b M"
  shows "seg P line a b (\<lambda>s. L s \<or> M s)"
proof (rule segI)
  note le = seg_le [OF assms(5)] seg_le [OF assms(9)]
  show "a \<le> b" using le by simp
  fix n pos q r
  assume p: "path P line n a pos q r" and q: "\<not> (a \<le> q \<and> q < b)"
  have "q \<noteq> a" using q le by auto
  then obtain n1 where n1: "n = Suc n1" "path P line n1 (a + 1) pos q r \<or> path P line n1 (m + 1) pos q r"
    using path_split [OF p assms(2)] assms(3,4) by metis
  from n1(2) show "\<exists>s n'. n' \<le> n \<and> piece line pos s \<and> (L s \<or> M s) \<and> path P line n' b (pos + length s) q r"
  proof
    have nm: "\<not> (a + 1 \<le> q \<and> q < m)" using q le by auto
    assume "path P line n1 (a + 1) pos q r"
    then obtain s n2 where s: "n2 \<le> n1" "piece line pos s" "L s" "path P line n2 m (pos + length s) q r"
      using segD [OF assms(5) _ nm] by blast
    have "q \<noteq> m" using q le by auto
    then obtain n3 where "n2 = Suc n3" "path P line n3 b (pos + length s) q r"
      using path_jump' [OF s(4) assms(7)] assms(8) by metis
    then show ?thesis using s n1 by (intro exI [of _ s] exI [of _ n3]) auto
  next
    assume p2: "path P line n1 (m + 1) pos q r"
    have "\<not> (m + 1 \<le> q \<and> q < b)" using q le by auto
    from segD [OF assms(9) p2 this] obtain s n2 where "n2 \<le> n1" "piece line pos s" "M s"
        "path P line n2 b (pos + length s) q r" by blast
    then show ?thesis using n1 by (intro exI [of _ s] exI [of _ n2]) auto
  qed
next
  fix pos s
  assume s: "piece line pos s" "L s \<or> M s"
  from s(2) show "reach P line a pos b (pos + length s)"
  proof
    assume "L s"
    then obtain n where "path P line n (a + 1) pos m (pos + length s)" using segR [OF assms(5) s(1)] by blast
    moreover have "path P line (Suc 0) m (pos + length s) b (pos + length s)"
      using path_jump [OF assms(6,7)] path_here assms(8) by simp
    ultimately have "reach P line (a + 1) pos b (pos + length s)" using path_trans by blast
    then show ?thesis by (rule reach_split [OF assms(1,2), rotated]) (simp add: assms(3))
  next
    assume "M s"
    then show ?thesis
      by (intro reach_split [OF assms(1,2) _ segR [OF assms(9) s(1)]]) (simp_all add: assms(4))
  qed
qed

fun times_of :: "(string \<Rightarrow> bool) \<Rightarrow> nat \<Rightarrow> string \<Rightarrow> bool" where
  "times_of L 0 s \<longleftrightarrow> s = []"
| "times_of L (Suc m) s \<longleftrightarrow> (\<exists>s1 s2. s = s1 @ s2 \<and> L s1 \<and> times_of L m s2)"

lemma seg_option:
  assumes "in_range a (pg_code P)" and "i_op (ins_at P a) = Split" and "i_x (ins_at P a) = a + 1"
    and "i_y (ins_at P a) = b" and "seg P line (a + 1) m L" and "seg P line m b (\<lambda>s. \<exists>k \<le> c. times_of L k s)"
  shows "seg P line a b (\<lambda>s. \<exists>k \<le> Suc c. times_of L k s)"
proof (rule segI)
  note le = seg_le [OF assms(5)] seg_le [OF assms(6)]
  show "a \<le> b" using le by simp
  fix n pos q r
  assume p: "path P line n a pos q r" and q: "\<not> (a \<le> q \<and> q < b)"
  have "q \<noteq> a" using q le by auto
  then obtain n1 where n1: "n = Suc n1" "path P line n1 (a + 1) pos q r \<or> path P line n1 b pos q r"
    using path_split [OF p assms(2)] assms(3,4) by metis
  from n1(2) show "\<exists>s n'. n' \<le> n \<and> piece line pos s \<and> (\<exists>k \<le> Suc c. times_of L k s) \<and> path P line n' b (pos + length s) q r"
  proof
    assume p1: "path P line n1 (a + 1) pos q r"
    have "\<not> (a + 1 \<le> q \<and> q < b)" using q by auto
    from segD [OF seg_seq [OF assms(5,6)] p1 this] obtain s n2 where s: "n2 \<le> n1" "piece line pos s"
        "\<exists>s1 s2. s = s1 @ s2 \<and> L s1 \<and> (\<exists>k \<le> c. times_of L k s2)" "path P line n2 b (pos + length s) q r" .
    from s(3) obtain s1 s2 k where "s = s1 @ s2" "L s1" "k \<le> c" "times_of L k s2" by blast
    then have "Suc k \<le> Suc c" "times_of L (Suc k) s" by auto
    then have "\<exists>k \<le> Suc c. times_of L k s" by blast
    then show ?thesis using s n1(1) by (intro exI [of _ s] exI [of _ n2]) simp
  next
    assume "path P line n1 b pos q r"
    then show ?thesis using n1(1) by (intro exI [of _ "[]"] exI [of _ n1]) (auto intro!: exI [of _ 0])
  qed
next
  fix pos s
  assume s: "piece line pos s" "\<exists>k \<le> Suc c. times_of L k s"
  then obtain k where k: "k \<le> Suc c" "times_of L k s" by blast
  show "reach P line a pos b (pos + length s)"
  proof (cases k)
    case 0
    have "path P line (Suc 0) a pos b pos" using path_split_y [OF assms(1,2)] path_here [of P line b pos] assms(4) by simp
    then show ?thesis using 0 k by auto
  next
    case (Suc k')
    then have "\<exists>s1 s2. s = s1 @ s2 \<and> L s1 \<and> (\<exists>k \<le> c. times_of L k s2)" using k by auto
    from segR [OF seg_seq [OF assms(5,6)] s(1) this] show ?thesis
      by (rule reach_split [OF assms(1,2), rotated]) (simp add: assms(3))
  qed
qed

lemma seg_loop:
  assumes "in_range a (pg_code P)" and "i_op (ins_at P a) = Split" and "i_x (ins_at P a) = a + 1"
    and "i_y (ins_at P a) = m + 1" and "seg P line (a + 1) m L" and "in_range m (pg_code P)"
    and "i_op (ins_at P m) = Jump" and "i_x (ins_at P m) = a"
  shows "seg P line a (m + 1) (\<lambda>s. \<exists>k. times_of L k s)"
proof (rule segI)
  note le = seg_le [OF assms(5)]
  show "a \<le> m + 1" using le by simp
  fix n pos q r
  assume "path P line n a pos q r" and q: "\<not> (a \<le> q \<and> q < m + 1)"
  then show "\<exists>s n'. n' \<le> n \<and> piece line pos s \<and> (\<exists>k. times_of L k s) \<and> path P line n' (m + 1) (pos + length s) q r"
  proof (induction n arbitrary: pos rule: less_induct)
    case (less n)
    have ne: "q \<noteq> a" "q \<noteq> m" using q le by auto
    obtain n1 where n1: "n = Suc n1" "path P line n1 (a + 1) pos q r \<or> path P line n1 (m + 1) pos q r"
      using path_split [OF less.prems(1) assms(2) ne(1)] assms(3,4) by metis
    from n1(2) show ?case
    proof
      assume p1: "path P line n1 (a + 1) pos q r"
      have "\<not> (a + 1 \<le> q \<and> q < m)" using q by auto
      from segD [OF assms(5) p1 this] obtain s1 n2 where s1: "n2 \<le> n1" "piece line pos s1" "L s1"
          "path P line n2 m (pos + length s1) q r" by blast
      obtain n3 where n3: "n2 = Suc n3" "path P line n3 a (pos + length s1) q r"
        using path_jump' [OF s1(4) assms(7) ne(2)] assms(8) by metis
      have "n3 < n" using n1(1) s1(1) n3(1) by simp
      from less.IH [OF this n3(2) q] obtain s2 n4 k where "n4 \<le> n3" "piece line (pos + length s1) s2" "times_of L k s2"
          "path P line n4 (m + 1) (pos + length s1 + length s2) q r" by blast
      then show ?thesis using s1 \<open>n3 < n\<close>
        by (intro exI [of _ "s1 @ s2"] exI [of _ n4] conjI exI [of _ "Suc k"]) (auto simp: piece_append add.assoc)
    next
      assume "path P line n1 (m + 1) pos q r"
      then show ?thesis using n1(1) by (intro exI [of _ "[]"] exI [of _ n1]) (auto intro!: exI [of _ 0])
    qed
  qed
next
  fix pos s
  assume "piece line pos s" and "\<exists>k. times_of L k s"
  then obtain k where "piece line pos s" "times_of L k s" by blast
  then show "reach P line a pos (m + 1) (pos + length s)"
  proof (induction k arbitrary: pos s)
    case 0
    have "path P line (Suc 0) a pos (m + 1) pos"
      using path_split_y [OF assms(1,2)] path_here [of P line "m + 1" pos] assms(4) by simp
    then show ?case using 0 by auto
  next
    case (Suc k)
    then obtain s1 s2 where s: "s = s1 @ s2" "L s1" "times_of L k s2" "piece line pos s1" "piece line (pos + length s1) s2"
      by (auto simp: piece_append)
    obtain n where "path P line n (a + 1) pos m (pos + length s1)" using segR [OF assms(5) s(4,2)] by blast
    moreover have "path P line (Suc 0) m (pos + length s1) a (pos + length s1)"
      using path_jump [OF assms(6,7)] path_here assms(8) by simp
    ultimately have "reach P line (a + 1) pos a (pos + length s1)" using path_trans by blast
    then have "reach P line (a + 1) pos (m + 1) (pos + length s1 + length s2)"
      using reach_trans Suc.IH [OF s(5,3)] by blast
    then have "reach P line a pos (m + 1) (pos + length s1 + length s2)"
      by (rule reach_split [OF assms(1,2), rotated]) (simp add: assms(3))
    then show ?case using s(1) by (simp add: add.assoc)
  qed
qed

end
