(* ===== verification/Tree_Correct.thy ===== *)
theory Tree_Correct
  imports Tree_Matcher
begin

text \<open>
  What the backtracking matcher computes: an attempt that succeeds has found a derivation of
  the grammar and has pushed exactly its captures; an attempt that fails has left the
  captures as they were, and, unless it gave up on the step or depth limit, there is no
  derivation.  The second half needs that the body of a repetition with a lower bound of two
  or more matches no empty string: the code stops a repetition after an empty iteration.
\<close>

section \<open>What a continuation still accepts\<close>

definition follows ::
  "string \<Rightarrow> (string \<Rightarrow> captures \<Rightarrow> bool) \<Rightarrow> (nat \<Rightarrow> captures \<Rightarrow> bool) \<Rightarrow> nat \<Rightarrow> captures \<Rightarrow> bool" where
  "follows line R K pos cs \<longleftrightarrow>
     (\<exists>s t c1 c2. drop pos line = s @ t \<and> R s c1 \<and> K (pos + length s) c2 \<and> cs = c1 @ c2)"

definition iterates :: "grammar \<Rightarrow> grammar_node \<Rightarrow> nat \<Rightarrow> string \<Rightarrow> captures \<Rightarrow> bool" where
  "iterates g n c s cs \<longleftrightarrow> (\<exists>m. times_ok n (c + m) \<and> yields_times g (child g (n_first n)) m s cs)"

primrec accepts :: "grammar \<Rightarrow> string \<Rightarrow> cont \<Rightarrow> nat \<Rightarrow> captures \<Rightarrow> bool" where
  "accepts g line ContEnd = (\<lambda>pos cs. pos = length line \<and> cs = [])"
| "accepts g line (ContNode i k) = follows line (yields g i) (accepts g line k)"
| "accepts g line (ContSequence i c k) =
     follows line (yields_seq g (drop c (kids g (node g i)))) (accepts g line k)"
| "accepts g line (ContRepeat i c start k) = (\<lambda>pos cs.
     if 0 < c \<and> pos = start then n_lo (node g i) \<le> int c \<and> accepts g line k pos cs
     else follows line (iterates g (node g i) c) (accepts g line k) pos cs)"
| "accepts g line (ContCloseCapture slot start k) = (\<lambda>pos cs.
     \<exists>c2. cs = (slot, take (pos - start) (drop start line)) # c2 \<and> accepts g line k pos c2)"

lemma followsI:
  "drop pos line = s @ t \<Longrightarrow> R s c1 \<Longrightarrow> K (pos + length s) c2 \<Longrightarrow> follows line R K pos (c1 @ c2)"
  unfolding follows_def by blast

lemma followsE:
  assumes "follows line R K pos cs"
  obtains s t c1 c2 where "drop pos line = s @ t" "R s c1" "K (pos + length s) c2" "cs = c1 @ c2"
  using assms unfolding follows_def by blast

lemma follows_cong: "(\<And>s cs. R s cs \<longleftrightarrow> S s cs) \<Longrightarrow> follows line R K pos cs \<longleftrightarrow> follows line S K pos cs"
  by (simp add: follows_def)

lemma follows_empty [simp]: "follows line (\<lambda>s cs. s = [] \<and> cs = []) K pos cs \<longleftrightarrow> K pos cs"
  by (auto simp: follows_def)

lemma follows_then:
  assumes "\<And>s cs. R s cs \<longleftrightarrow> (\<exists>s1 s2 c1 c2. s = s1 @ s2 \<and> cs = c1 @ c2 \<and> R1 s1 c1 \<and> R2 s2 c2)"
  shows "follows line R K pos cs \<longleftrightarrow> follows line R1 (follows line R2 K) pos cs"
proof
  assume "follows line R K pos cs"
  then obtain s t c1 c2 s1 s2 d1 d2 where *: "drop pos line = (s1 @ s2) @ t" "R1 s1 d1" "R2 s2 d2"
      "K (pos + length (s1 @ s2)) c2" "cs = (d1 @ d2) @ c2"
    using assms by (fastforce elim!: followsE)
  have "drop (pos + length s1) line = s2 @ t" using *(1) by (metis add.commute append.assoc append_eq_conv_conj drop_drop)
  then have "follows line R2 K (pos + length s1) (d2 @ c2)" using * by (intro followsI) (auto simp: add.assoc)
  then show "follows line R1 (follows line R2 K) pos cs"
    using * followsI [of pos line s1 "s2 @ t" R1 d1 "follows line R2 K" "d2 @ c2"] by simp
next
  assume "follows line R1 (follows line R2 K) pos cs"
  then obtain s1 t1 d1 s2 t d2 c2 where *: "drop pos line = s1 @ t1" "R1 s1 d1"
      "drop (pos + length s1) line = s2 @ t" "R2 s2 d2" "K (pos + length s1 + length s2) c2" "cs = d1 @ d2 @ c2"
    by (auto elim!: followsE)
  have "drop pos line = (s1 @ s2) @ t"
    using *(1,3) by (metis add.commute append.assoc append_eq_conv_conj drop_drop)
  moreover have "R (s1 @ s2) (d1 @ d2)" using * assms by blast
  ultimately show "follows line R K pos cs"
    using *(5,6) followsI [of pos line "s1 @ s2" t R "d1 @ d2" K c2] by (simp add: add.assoc)
qed

lemma follows_bound:
  assumes "follows line R K pos cs" and "\<And>p cs. K p cs \<Longrightarrow> p \<le> n"
  shows "pos \<le> n"
  using assms(1) by (rule followsE) (use assms(2) in \<open>meson add_leD1\<close>)

lemma accepts_bound: "accepts g line k pos cs \<Longrightarrow> pos \<le> length line"
  by (induction k arbitrary: pos cs) (auto elim!: follows_bound split: if_splits)

section \<open>The nodes, one kind at a time\<close>

lemma yields_literal:
  "n_kind (node g i) = Literal \<Longrightarrow>
   yields g i s cs \<longleftrightarrow> cs = [] \<and> map fold_char s = map fold_char (literal g (n_literal (node g i)))"
  by (auto intro: yield_literal elim: yields_E)

lemma yields_octet:
  "n_kind (node g i) = OctetRange \<Longrightarrow> yields g i s cs \<longleftrightarrow> cs = [] \<and> (\<exists>c. s = [c] \<and> octet_in (node g i) c)"
  by (auto intro: yield_octet elim: yields_E)

lemma yields_reference:
  "n_kind (node g i) = Reference \<Longrightarrow>
   yields g i s cs \<longleftrightarrow> ruleRoot g (n_lo (node g i)) \<noteq> kNoRule \<and>
     (\<exists>c1. yields g (ruleRoot g (n_lo (node g i))) s c1 \<and> cs = c1 @ closing (node g i) s)"
  by (auto intro: yield_reference elim: yields_E)

lemma yields_sequence:
  "n_kind (node g i) = Sequence \<Longrightarrow> yields g i s cs \<longleftrightarrow> yields_seq g (kids g (node g i)) s cs"
  by (auto intro: yield_sequence elim: yields_E)

lemma yields_alternation:
  "n_kind (node g i) = Alternation \<Longrightarrow> yields g i s cs \<longleftrightarrow> (\<exists>j \<in> set (kids g (node g i)). yields g j s cs)"
  by (auto intro: yield_alternation elim: yields_E)

lemma yields_repetition:
  "n_kind (node g i) = Repetition \<Longrightarrow> yields g i s cs \<longleftrightarrow> iterates g (node g i) 0 s cs"
  by (auto simp: iterates_def intro: yield_repetition elim: yields_E)

lemma yields_seq_Cons:
  "yields_seq g (j # js) s cs \<longleftrightarrow>
   (\<exists>s1 s2 c1 c2. s = s1 @ s2 \<and> cs = c1 @ c2 \<and> yields g j s1 c1 \<and> yields_seq g js s2 c2)"
  by (blast intro: seq_cons elim: yields_seq_ConsE)

lemma yields_times_Suc:
  "yields_times g j (Suc m) s cs \<longleftrightarrow>
   (\<exists>s1 s2 c1 c2. s = s1 @ s2 \<and> cs = c1 @ c2 \<and> yields g j s1 c1 \<and> yields_times g j m s2 c2)"
  by (blast intro: times_more elim: yields_times_SucE)

lemma follows_literal:
  assumes "n_kind (node g i) = Literal" and "\<And>p cs. K p cs \<Longrightarrow> p \<le> length line"
  shows "follows line (yields g i) K pos cs \<longleftrightarrow>
    literal_at line pos (literal g (n_literal (node g i))) \<and> K (pos + length (literal g (n_literal (node g i)))) cs"
    (is "?L \<longleftrightarrow> ?R")
proof
  let ?x = "literal g (n_literal (node g i))"
  assume ?L
  then obtain s t where *: "drop pos line = s @ t" "map fold_char s = map fold_char ?x" "K (pos + length s) cs"
    by (auto simp: yields_literal [OF assms(1)] elim!: followsE)
  have "length s = length ?x" using *(2) by (metis length_map)
  then show ?R using * assms(2) [of "pos + length s"] by (auto simp: literal_at_def)
next
  let ?x = "literal g (n_literal (node g i))"
  assume R: ?R
  then have "pos + length ?x \<le> length line" by (simp only: literal_at_def)
  then have l: "length (take (length ?x) (drop pos line)) = length ?x" by simp
  obtain s where s: "s = take (length ?x) (drop pos line)" by simp
  have "length s = length ?x" "map fold_char s = map fold_char ?x" using R s l by (auto simp: literal_at_def)
  moreover have "drop pos line = s @ drop (length ?x) (drop pos line)" using s by (metis append_take_drop_id)
  ultimately show ?L
    using R followsI [of pos line s _ "yields g i" "[]" K cs] by (auto simp: yields_literal [OF assms(1)])
qed

lemma follows_octet:
  assumes "n_kind (node g i) = OctetRange"
  shows "follows line (yields g i) K pos cs \<longleftrightarrow> pos < length line \<and> octet_in (node g i) (line ! pos) \<and> K (pos + 1) cs"
    (is "?L \<longleftrightarrow> ?R")
proof
  assume ?L
  then obtain c t where *: "drop pos line = c # t" "octet_in (node g i) c" "K (pos + 1) cs"
    by (auto simp: yields_octet [OF assms] elim!: followsE)
  then have "pos < length line" by (metis drop_eq_Nil2 leI list.discI)
  then show ?R using * by (metis hd_drop_conv_nth list.sel(1))
next
  assume R: ?R
  then have "drop pos line = [line ! pos] @ drop (Suc pos) line" by (simp add: Cons_nth_drop_Suc)
  then show ?L
    using R followsI [of pos line "[line ! pos]" "drop (Suc pos) line" "yields g i" "[]" K cs]
    by (simp add: yields_octet [OF assms])
qed

lemma follows_reference:
  assumes "n_kind (node g i) = Reference"
  shows "follows line (yields g i) (accepts g line k) pos cs \<longleftrightarrow> ruleRoot g (n_lo (node g i)) \<noteq> kNoRule \<and>
    follows line (yields g (ruleRoot g (n_lo (node g i))))
      (accepts g line (if n_capture (node g i) = kNoCapture then k else ContCloseCapture (n_capture (node g i)) pos k)) pos cs"
proof (cases "n_capture (node g i) = kNoCapture")
  case True
  then show ?thesis by (auto simp: follows_def yields_reference [OF assms] closing_def)
next
  case False
  then show ?thesis
    by (fastforce simp: follows_def yields_reference [OF assms] closing_def)
qed

lemma follows_nil [simp]: "follows line (yields_seq g []) K pos = K pos"
  by (auto simp: follows_def fun_eq_iff)

lemma follows_seq:
  "follows line (yields_seq g (j # js)) K pos cs \<longleftrightarrow> follows line (yields g j) (follows line (yields_seq g js) K) pos cs"
  by (rule follows_then) (rule yields_seq_Cons)

section \<open>Runs of single octets\<close>

definition counts_ok :: "grammar \<Rightarrow> bool" where
  "counts_ok g \<longleftrightarrow> (\<forall>n \<in> set (g_nodes g). n_kind n = Repetition \<longrightarrow> n_hi n = kUnbounded \<or> 0 \<le> n_hi n \<and> n_hi n < 2 ^ 31)"

lemma counts_okD:
  "counts_ok g \<Longrightarrow> n_kind (node g i) = Repetition \<Longrightarrow>
   n_hi (node g i) = kUnbounded \<or> 0 \<le> n_hi (node g i) \<and> n_hi (node g i) < 2 ^ 31"
  using node_cases [of g i] by (auto simp: counts_ok_def empty_node_def)

lemma yields_times_single:
  assumes "isSingleOctet g [] j"
  shows "yields_times g j m s cs \<longleftrightarrow> cs = [] \<and> length s = m \<and> (\<forall>c \<in> set s. octetMatches g [] j c)"
proof (induction m arbitrary: s cs)
  case (Suc m)
  show ?case
  proof (cases s)
    case (Cons a t)
    then show ?thesis
      by (auto simp: yields_times_Suc Suc single_octet_yields [OF assms])
        (rule exI [of _ "[a]"], simp)
  qed (auto simp: yields_times_Suc Suc single_octet_yields [OF assms])
qed auto

lemma octet_run_le:
  "n \<le> octet_run bits most s \<longleftrightarrow> n \<le> most \<and> n \<le> length s \<and> (\<forall>c \<in> set (take n s). inClass bits c)"
proof (induction bits most s arbitrary: n rule: octet_run.induct)
  case (2 bits most c cs)
  show ?case
  proof (cases n)
    case (Suc k)
    then show ?thesis using 2 [of k] by auto
  qed simp
qed auto

lemma follows_takes:
  assumes "isSingleOctet g [] (child g (n_first n))" and "n_hi n = kUnbounded \<or> 0 \<le> n_hi n \<and> n_hi n < 2 ^ 31"
    and "least = nat (max 0 (n_lo n))" and "most = (if n_hi n = kUnbounded then length line else nat (n_hi n mod 2 ^ 64))"
  shows "follows line (iterates g n 0) K pos cs \<longleftrightarrow>
    (\<exists>t. least \<le> t \<and> t \<le> octet_run (octetBitmap g (child g (n_first n))) most (drop pos line) \<and> K (pos + t) cs)"
    (is "?L \<longleftrightarrow> ?R")
proof -
  let ?j = "child g (n_first n)"
  have hi: "n_hi n mod 2 ^ 64 = n_hi n" if "n_hi n \<noteq> kUnbounded"
    using that assms(2) by (intro mod_pos_pos_trivial) auto
  have ok: "times_ok n m \<longleftrightarrow> least \<le> m \<and> m \<le> most" if "m \<le> length line" for m
    using assms(2) that by (auto simp: times_ok_def assms(3,4) hi)
  show ?thesis
  proof
    assume ?L
    then obtain s t where *: "drop pos line = s @ t" "times_ok n (length s)" "\<forall>c \<in> set s. octetMatches g [] ?j c"
        "K (pos + length s) cs"
      by (auto simp: iterates_def yields_times_single [OF assms(1)] elim!: followsE)
    have "length s \<le> length (drop pos line)" using *(1) by simp
    then have "length s \<le> length line" by simp
    then show ?R using * ok by (intro exI [of _ "length s"]) (auto simp: octet_run_le octetBitmap_lookup)
  next
    assume ?R
    then obtain t where t: "least \<le> t" "t \<le> most" "t \<le> length (drop pos line)"
        "\<forall>c \<in> set (take t (drop pos line)). octetMatches g [] ?j c" "K (pos + t) cs"
      by (auto simp: octet_run_le octetBitmap_lookup)
    obtain s where s: "s = take t (drop pos line)" by simp
    have "length s = t" using t(3) s by simp
    moreover have "drop pos line = s @ drop t (drop pos line)" using s by (metis append_take_drop_id)
    moreover have "times_ok n t" using ok [of t] t by simp
    ultimately show ?L
      using t s followsI [of pos line s _ "iterates g n 0" "[]" K cs]
      by (auto simp: iterates_def yields_times_single [OF assms(1)])
  qed
qed

section \<open>Repetitions without empty iterations\<close>

definition repetitions_ok :: "grammar \<Rightarrow> bool" where
  "repetitions_ok g \<longleftrightarrow> (\<forall>n \<in> set (g_nodes g). n_kind n = Repetition \<longrightarrow> 2 \<le> n_lo n \<longrightarrow>
     (\<forall>cs. \<not> yields g (child g (n_first n)) [] cs))"

lemma repetitions_okD:
  "repetitions_ok g \<Longrightarrow> n_kind (node g i) = Repetition \<Longrightarrow> yields g (child g (n_first (node g i))) [] cs \<Longrightarrow>
   n_lo (node g i) \<le> 1"
  using node_cases [of g i] by (fastforce simp: repetitions_ok_def empty_node_def)

lemma times_ok_pred: "times_ok n (c + Suc m) \<Longrightarrow> n_lo n \<le> int (c + m) \<Longrightarrow> times_ok n (c + m)"
  by (auto simp: times_ok_def)

text \<open>
  An iterated text can be read with no empty iteration, or, when one iteration is asked for,
  is the one empty iteration.
\<close>

lemma iterates_nonempty:
  assumes "n_lo n \<le> 1 \<or> (\<forall>cs. \<not> yields g (child g (n_first n)) [] cs)" and "iterates g n c s cs"
  shows "s = [] \<and> n_lo n \<le> int c \<or>
    s = [] \<and> c = 0 \<and> (n_hi n = kUnbounded \<or> 0 < n_hi n) \<and> n_lo n \<le> 1 \<and> (\<exists>cs'. yields g (child g (n_first n)) [] cs') \<or>
    (\<exists>s1 s2 c1 c2. s = s1 @ s2 \<and> s1 \<noteq> [] \<and> (n_hi n = kUnbounded \<or> int c < n_hi n) \<and>
       yields g (child g (n_first n)) s1 c1 \<and> iterates g n (Suc c) s2 c2)"
proof -
  obtain m where m: "times_ok n (c + m)" "yields_times g (child g (n_first n)) m s cs"
    using assms(2) by (auto simp: iterates_def)
  then show ?thesis
  proof (induction m arbitrary: s cs)
    case 0
    then show ?case by (auto simp: times_ok_def)
  next
    case (Suc m)
    then obtain s1 s2 c1 c2 where *: "s = s1 @ s2" "yields g (child g (n_first n)) s1 c1"
        "yields_times g (child g (n_first n)) m s2 c2"
      by (auto simp: yields_times_Suc)
    show ?case
    proof (cases "s1 = []")
      case True
      then have lo: "n_lo n \<le> 1" using assms(1) * by auto
      show ?thesis
      proof (cases "c + m = 0")
        case True
        then have "s2 = []" using * by auto
        then show ?thesis using True * \<open>s1 = []\<close> lo Suc.prems(1) by (auto simp: times_ok_def)
      next
        case False
        then have "n_lo n \<le> int (c + m)" using lo by linarith
        with Suc.prems(1) have "times_ok n (c + m)" by (rule times_ok_pred)
        then show ?thesis using Suc.IH [of s2 c2] * True by simp
      qed
    next
      case False
      have "iterates g n (Suc c) s2 c2" using Suc.prems(1) * by (auto simp: iterates_def intro!: exI [of _ m])
      moreover have "n_hi n = kUnbounded \<or> int c < n_hi n" using Suc.prems(1) by (auto simp: times_ok_def)
      ultimately show ?thesis using False * by blast
    qed
  qed
qed

lemma iterates_more:
  "yields g (child g (n_first n)) s1 c1 \<Longrightarrow> iterates g n (Suc c) s2 c2 \<Longrightarrow> iterates g n c (s1 @ s2) (c1 @ c2)"
  unfolding iterates_def by (elim exE, rule_tac x = "Suc m" in exI) (auto intro: times_more)

lemma iterates_zero: "n_lo n \<le> int c \<Longrightarrow> n_hi n = kUnbounded \<or> int c \<le> n_hi n \<Longrightarrow> iterates g n c [] []"
  unfolding iterates_def times_ok_def by (rule exI [of _ 0]) simp

section \<open>What an attempt does\<close>

definition pushAll :: "captures \<Rightarrow> walk \<Rightarrow> walk" where
  "pushAll cs w = foldl (\<lambda>w c. pushCapture (fst c) (snd c) w) w cs"

definition same_caps :: "walk \<Rightarrow> walk \<Rightarrow> bool" where
  "same_caps v w \<longleftrightarrow> wk_values v = wk_values w \<and> wk_sequence v = wk_sequence w \<and> wk_owners v = wk_owners w"

definition balanced :: "walk \<Rightarrow> bool" where
  "balanced w \<longleftrightarrow> length (wk_owners w) = length (wk_sequence w)"

definition outcome :: "bool \<Rightarrow> (captures \<Rightarrow> bool) \<Rightarrow> walk \<Rightarrow> bool \<times> walk \<Rightarrow> bool" where
  "outcome q A w r \<longleftrightarrow> (balanced w \<longrightarrow>
     (if fst r then \<not> wk_exhausted (snd r) \<and> (\<exists>cs. A cs \<and> same_caps (snd r) (pushAll cs w))
      else same_caps (snd r) w \<and> (q \<longrightarrow> wk_exhausted (snd r) \<or> (\<forall>cs. \<not> A cs))))"

lemma same_caps_refl [simp]: "same_caps w w"
  by (simp add: same_caps_def)

lemma same_caps_trans: "same_caps u v \<Longrightarrow> same_caps v w \<Longrightarrow> same_caps u w"
  by (simp add: same_caps_def)

lemma same_caps_steps [simp]:
  "same_caps (add_steps n w) v \<longleftrightarrow> same_caps w v" "same_caps (exhaust w) v \<longleftrightarrow> same_caps w v"
  by (simp_all add: same_caps_def add_steps_def exhaust_def)

lemma same_caps_balanced: "same_caps v w \<Longrightarrow> balanced v \<longleftrightarrow> balanced w"
  by (simp add: same_caps_def balanced_def)

lemma exhausted_simps [simp]: "wk_exhausted (exhaust w)" "wk_exhausted (add_steps n w) = wk_exhausted w"
    "wk_exhausted (pushCapture slot s w) = wk_exhausted w" "wk_exhausted (dropCapture slot m r w) = wk_exhausted w"
  by (simp_all add: exhaust_def add_steps_def pushCapture_def dropCapture_def)

lemma pushAll_simps [simp]:
  "pushAll [] w = w" "pushAll ((slot, s) # cs) w = pushAll cs (pushCapture slot s w)"
  by (simp_all add: pushAll_def)

lemma pushAll_same: "same_caps v w \<Longrightarrow> same_caps (pushAll cs v) (pushAll cs w)"
  by (induction cs arbitrary: v w) (auto simp: same_caps_def pushCapture_def)

lemma push_balanced [simp]: "balanced (pushCapture slot s w) \<longleftrightarrow> balanced w"
  by (simp add: balanced_def pushCapture_def)

lemma drop_push:
  assumes "balanced w" and "same_caps v (pushCapture slot s w)"
  shows "same_caps (dropCapture slot (length (wk_values w ! nat slot)) (length (wk_sequence w)) v) w"
proof (cases "nat slot < length (wk_values w)")
  case True
  then show ?thesis using assms by (simp add: same_caps_def balanced_def pushCapture_def dropCapture_def)
next
  case False
  then have "vs[nat slot := x] = vs" if "length vs = length (wk_values w)" for vs :: "string list list" and x
    using that by (intro list_update_beyond) linarith
  then show ?thesis using assms by (simp add: same_caps_def balanced_def pushCapture_def dropCapture_def)
qed

lemma outcome_iff:
  assumes "outcome q A w r" and "\<And>cs. A cs \<Longrightarrow> B cs" and "\<And>cs. q \<Longrightarrow> B cs \<Longrightarrow> \<exists>cs. A cs"
  shows "outcome q B w r"
  using assms by (auto simp: outcome_def) blast+

lemma outcome_none: "same_caps v w \<Longrightarrow> wk_exhausted v \<or> (\<forall>cs. \<not> A cs) \<Longrightarrow> outcome q A w (False, v)"
  by (auto simp: outcome_def)

lemma outcome_from:
  assumes "same_caps v w" and "outcome q A v r"
  shows "outcome q A w r"
proof -
  have "same_caps (snd r) (pushAll cs v) \<longleftrightarrow> same_caps (snd r) (pushAll cs w)" for cs
    using pushAll_same [OF assms(1), of cs] by (simp add: same_caps_def)
  moreover have "same_caps (snd r) v \<longleftrightarrow> same_caps (snd r) w" using assms(1) by (simp add: same_caps_def)
  ultimately show ?thesis using assms same_caps_balanced [OF assms(1)] by (auto simp: outcome_def)
qed

lemma outcome_else:
  assumes "outcome q A1 w r" and "\<And>w'. r = (False, w') \<Longrightarrow> \<not> wk_exhausted w' \<Longrightarrow> outcome q A2 w' (f w')"
    and "\<And>cs. A1 cs \<or> A2 cs \<Longrightarrow> A cs" and "\<And>cs. q \<Longrightarrow> A cs \<Longrightarrow> (\<exists>cs. A1 cs) \<or> (\<exists>cs. A2 cs)"
  shows "outcome q A w (case r of (ok, w') \<Rightarrow> if ok then (True, w') else if wk_exhausted w' then (False, w') else f w')"
proof (cases r)
  case (Pair ok w')
  show ?thesis
  proof (cases "\<not> ok \<and> \<not> wk_exhausted w'")
    case True
    show ?thesis
    proof (cases "balanced w")
      case b: True
      then have same: "same_caps w' w" and no: "q \<longrightarrow> (\<forall>cs. \<not> A1 cs)" using assms(1) Pair True by (auto simp: outcome_def)
      have "outcome q A2 w (f w')" by (rule outcome_from [OF same assms(2)]) (use True Pair in auto)
      then have "outcome q A w (f w')" by (rule outcome_iff) (use no assms(3,4) in blast)+
      then show ?thesis using True Pair by simp
    qed (simp add: outcome_def)
  next
    case False
    then have "outcome q A1 w (ok, w') \<Longrightarrow> outcome q A w (ok, w')" using assms(3) by (auto simp: outcome_def) blast
    then show ?thesis using False Pair assms(1) by auto
  qed
qed

lemma outcome_capture:
  assumes "outcome q A (pushCapture slot s w) r"
  shows "outcome q (\<lambda>cs. \<exists>c2. cs = (slot, s) # c2 \<and> A c2) w
    (case r of (ok, w') \<Rightarrow> if ok then (True, w')
       else (False, dropCapture slot (length (wk_values w ! nat slot)) (length (wk_sequence w)) w'))"
proof (cases r)
  case (Pair ok w')
  show ?thesis
  proof (cases ok)
    case True
    then show ?thesis using Pair assms by (auto simp: outcome_def)
  next
    case False
    then show ?thesis using Pair assms drop_push [of w w' slot s] by (auto simp: outcome_def)
  qed
qed

section \<open>The induction\<close>

definition alternatives :: "grammar \<Rightarrow> string \<Rightarrow> int list \<Rightarrow> cont \<Rightarrow> nat \<Rightarrow> captures \<Rightarrow> bool" where
  "alternatives g line js k pos cs \<longleftrightarrow> (\<exists>j \<in> set js. follows line (yields g j) (accepts g line k) pos cs)"

definition takes :: "grammar \<Rightarrow> string \<Rightarrow> nat \<Rightarrow> nat \<Rightarrow> cont \<Rightarrow> nat \<Rightarrow> captures \<Rightarrow> bool" where
  "takes g line took least k pos cs \<longleftrightarrow> (\<exists>t. (t = took \<or> least \<le> t \<and> t \<le> took) \<and> accepts g line k (pos + t) cs)"

lemma takes_step:
  "takes g line took least k pos cs \<longleftrightarrow>
   accepts g line k (pos + took) cs \<or> least < took \<and> takes g line (took - 1) least k pos cs"
proof (cases "least < took")
  case True
  then have "(t = took \<or> least \<le> t \<and> t \<le> took) \<longleftrightarrow> (t = took \<or> t = took - 1 \<or> least \<le> t \<and> t \<le> took - 1)" for t
    by auto
  then show ?thesis using True by (auto simp: takes_def)
next
  case False
  then have "(t = took \<or> least \<le> t \<and> t \<le> took) \<longleftrightarrow> t = took" for t by auto
  then show ?thesis using False by (simp add: takes_def)
qed

primrec cont_ok :: "grammar \<Rightarrow> cont \<Rightarrow> bool" where
  "cont_ok g ContEnd \<longleftrightarrow> True"
| "cont_ok g (ContNode i k) \<longleftrightarrow> cont_ok g k"
| "cont_ok g (ContSequence i c k) \<longleftrightarrow> cont_ok g k"
| "cont_ok g (ContRepeat i c start k) \<longleftrightarrow> n_kind (node g i) = Repetition \<and>
     (n_hi (node g i) = kUnbounded \<or> int c \<le> n_hi (node g i)) \<and> cont_ok g k"
| "cont_ok g (ContCloseCapture slot start k) \<longleftrightarrow> cont_ok g k"

definition again :: "grammar \<Rightarrow> int \<Rightarrow> nat \<Rightarrow> nat \<Rightarrow> nat \<Rightarrow> bool" where
  "again g i c start pos \<longleftrightarrow>
     (n_hi (node g i) = kUnbounded \<or> int c < n_hi (node g i)) \<and> \<not> (0 < c \<and> pos = start)"

abbreviation once_more :: "grammar \<Rightarrow> string \<Rightarrow> int \<Rightarrow> nat \<Rightarrow> cont \<Rightarrow> nat \<Rightarrow> captures \<Rightarrow> bool" where
  "once_more g line i c k pos \<equiv>
     follows line (yields g (child g (n_first (node g i)))) (accepts g line (ContRepeat i (c + 1) pos k)) pos"

lemma repeat_stop:
  assumes "cont_ok g (ContRepeat i c start k)" and "n_lo (node g i) \<le> int c" and "accepts g line k pos cs"
  shows "accepts g line (ContRepeat i c start k) pos cs"
  using assms followsI [of pos line "[]" _ "iterates g (node g i) c" "[]" "accepts g line k" cs] iterates_zero [of "node g i" c]
  by auto

lemma repeat_more:
  assumes "cont_ok g (ContRepeat i c start k)" and "again g i c start pos" and "once_more g line i c k pos cs"
  shows "accepts g line (ContRepeat i c start k) pos cs"
proof -
  let ?n = "node g i"
  let ?j = "child g (n_first ?n)"
  obtain s t c1 c2 where s: "drop pos line = s @ t" "yields g ?j s c1" "cs = c1 @ c2"
      "accepts g line (ContRepeat i (c + 1) pos k) (pos + length s) c2"
    using assms(3) by (rule followsE)
  have "follows line (iterates g ?n c) (accepts g line k) pos cs"
  proof (cases "s = []")
    case True
    then have a: "accepts g line k (pos + length s) c2" and "n_lo ?n \<le> int (Suc c)" using s by simp_all
    then have "iterates g ?n (Suc c) [] []" using assms(2) by (intro iterates_zero) (auto simp: again_def)
    then have "iterates g ?n c s c1" using iterates_more [OF s(2), of c "[]" "[]"] by simp
    then show ?thesis unfolding s(3)
      by (rule followsI [where R = "iterates g ?n c" and K = "accepts g line k", OF s(1) _ a])
  next
    case False
    then obtain s2 t2 d2 c3 where r: "drop (pos + length s) line = s2 @ t2" "iterates g ?n (Suc c) s2 d2"
        "accepts g line k (pos + length s + length s2) c3" "c2 = d2 @ c3"
      using s(4) by (auto elim!: followsE)
    have "drop pos line = (s @ s2) @ t2" using s(1) r(1) by (metis add.commute append.assoc append_eq_conv_conj drop_drop)
    then show ?thesis
      using iterates_more [OF s(2) r(2)] r(3,4) s(3) followsI [of pos line "s @ s2" t2 "iterates g ?n c" "c1 @ d2" _ c3]
      by (simp add: add.assoc)
  qed
  then show ?thesis using assms(2) by (auto simp: again_def)
qed

lemma repeat_complete:
  assumes "repetitions_ok g" and "cont_ok g (ContRepeat i c start k)" and "accepts g line (ContRepeat i c start k) pos cs"
  shows "again g i c start pos \<and> (\<exists>cs. once_more g line i c k pos cs) \<or> n_lo (node g i) \<le> int c \<and> (\<exists>cs. accepts g line k pos cs)"
proof (cases "0 < c \<and> pos = start")
  case True
  then show ?thesis using assms(3) by auto
next
  case False
  let ?n = "node g i"
  let ?j = "child g (n_first ?n)"
  obtain s t c1 c2 where s: "drop pos line = s @ t" "iterates g ?n c s c1" "accepts g line k (pos + length s) c2"
    using assms(3) False by (auto elim!: followsE)
  have "n_lo ?n \<le> 1 \<or> (\<forall>cs. \<not> yields g ?j [] cs)"
    using assms(1,2) repetitions_okD by fastforce
  from iterates_nonempty [OF this s(2)] consider
      "s = []" "n_lo ?n \<le> int c"
    | cs' where "s = []" "c = 0" "n_hi ?n = kUnbounded \<or> 0 < n_hi ?n" "n_lo ?n \<le> 1" "yields g ?j [] cs'"
    | s1 s2 d1 d2 where "s = s1 @ s2" "s1 \<noteq> []" "n_hi ?n = kUnbounded \<or> int c < n_hi ?n" "yields g ?j s1 d1"
        "iterates g ?n (Suc c) s2 d2"
    by blast
  then show ?thesis
  proof cases
    case 1
    then show ?thesis using s by auto
  next
    case 2
    then have "once_more g line i c k pos (cs' @ c2)"
      using s by (intro followsI [of pos line "[]" t]) auto
    moreover have "again g i c start pos" using 2 by (simp add: again_def)
    ultimately show ?thesis by blast
  next
    case 3
    have d: "drop (pos + length s1) line = s2 @ t"
      using s(1) 3(1) by (metis add.commute append.assoc append_eq_conv_conj drop_drop)
    have "accepts g line (ContRepeat i (c + 1) pos k) (pos + length s1) (d2 @ c2)"
      using 3 s(3) followsI [OF d, of "iterates g ?n (Suc c)" d2 "accepts g line k" c2] by (simp add: add.assoc)
    then have "once_more g line i c k pos (d1 @ d2 @ c2)"
      using s(1) 3 by (intro followsI [of pos line s1 "s2 @ t"]) auto
    moreover have "again g i c start pos" using 3 False by (simp add: again_def)
    ultimately show ?thesis by blast
  qed
qed

lemma follows_bool: "(\<And>s cs. R s cs \<longleftrightarrow> S s cs) \<Longrightarrow> follows line R K = follows line S K"
  by (simp add: follows_def fun_eq_iff)

lemma follows_alternation:
  "n_kind (node g i) = Alternation \<Longrightarrow>
   follows line (yields g i) (accepts g line k) pos cs \<longleftrightarrow> alternatives g line (kids g (node g i)) k pos cs"
  by (auto simp: follows_def alternatives_def yields_alternation)

lemma matching_outcome:
  "\<lbrakk>counts_ok g; cont_ok g k\<rbrakk> \<Longrightarrow>
     outcome (repetitions_ok g) (follows line (yields g i) (accepts g line k) pos) w (matchNode g line d i pos k w)"
  "\<lbrakk>counts_ok g; cont_ok g k\<rbrakk> \<Longrightarrow>
     outcome (repetitions_ok g) (accepts g line k pos) w (matchContinuation g line d k pos w)"
  "\<lbrakk>counts_ok g; cont_ok g k\<rbrakk> \<Longrightarrow>
     outcome (repetitions_ok g) (accepts g line (ContSequence i c k) pos) w (matchSequence g line d i c pos k w)"
  "\<lbrakk>counts_ok g; cont_ok g (ContRepeat i c start k)\<rbrakk> \<Longrightarrow>
     outcome (repetitions_ok g) (accepts g line (ContRepeat i c start k) pos) w (matchRepetition g line d i c start pos k w)"
  "\<lbrakk>counts_ok g; cont_ok g k\<rbrakk> \<Longrightarrow>
     outcome (repetitions_ok g) (alternatives g line js k pos) w (matchAlternatives g line d js pos k w)"
  "\<lbrakk>counts_ok g; cont_ok g k\<rbrakk> \<Longrightarrow>
     outcome (repetitions_ok g) (takes g line took least k pos) w (matchTakes g line d took least pos k w)"
proof (induction g line d i pos k w and g line d k pos w and g line d i c pos k w and g line d i c start pos k w
    and g line d js pos k w and g line d took least pos k w
    rule: matchNode_matchContinuation_matchSequence_matchRepetition_matchAlternatives_matchTakes.induct)
  case (1 g line d i pos k w0)
  show ?case
  proof (cases "wk_exhausted w0 \<or> kMaxSteps < wk_steps (add_steps 1 w0) \<or> kMaxDepth \<le> d")
    case True
    then show ?thesis by (auto simp: matchNode.simps [of g line d i pos k w0] Let_def intro: outcome_none)
  next
    case False
    let ?w = "add_steps 1 w0" and ?n = "node g i"
    have F: "\<not> wk_exhausted w0" "\<not> kMaxSteps < wk_steps ?w" "\<not> kMaxDepth \<le> d" using False by auto
    let ?A = "follows line (yields g i) (accepts g line k) pos"
    have "outcome (repetitions_ok g) ?A ?w (matchNode g line d i pos k w0)"
    proof (cases "n_kind ?n")
      case Reference
      show ?thesis
      proof (cases "ruleRoot g (n_lo ?n) = kNoRule")
        case True
        then show ?thesis using F Reference
          by (auto simp: matchNode.simps [of g line d i pos k w0] Let_def follows_reference intro: outcome_none)
      next
        case no: False
        let ?k = "if n_capture ?n = kNoCapture then k else ContCloseCapture (n_capture ?n) pos k"
        have "outcome (repetitions_ok g) (follows line (yields g (ruleRoot g (n_lo ?n))) (accepts g line ?k) pos) ?w
            (matchNode g line (d + 1) (ruleRoot g (n_lo ?n)) pos ?k ?w)"
          by (rule "1.IH"(1) [OF F(1) refl F(2,3) refl Reference no]) (use "1.prems" in auto)
        then have "outcome (repetitions_ok g) ?A ?w (matchNode g line (d + 1) (ruleRoot g (n_lo ?n)) pos ?k ?w)"
          by (rule outcome_iff) (use follows_reference [OF Reference, of line k pos] no in blast)+
        then show ?thesis using F Reference no by (simp add: matchNode.simps [of g line d i pos k w0] Let_def)
      qed
    next
      case Literal
      have b: "accepts g line k p cs \<Longrightarrow> p \<le> length line" for p cs by (rule accepts_bound)
      show ?thesis
        using F Literal "1.IH"(2) [OF F(1) refl F(2,3) refl Literal] "1.prems"
        by (auto simp: matchNode.simps [of g line d i pos k w0] Let_def follows_literal [OF Literal b]
            intro: outcome_none elim!: outcome_iff) blast
    next
      case OctetRange
      note iff = follows_octet [OF OctetRange, of line "accepts g line k" pos]
      show ?thesis
      proof (cases "pos < length line \<and> octet_in ?n (line ! pos)")
        case True
        have "outcome (repetitions_ok g) (accepts g line k (pos + 1)) ?w (matchContinuation g line (d + 1) k (pos + 1) ?w)"
          by (rule "1.IH"(3) [OF F(1) refl F(2,3) refl OctetRange True "1.prems"])
        then have "outcome (repetitions_ok g) ?A ?w (matchContinuation g line (d + 1) k (pos + 1) ?w)"
          by (rule outcome_iff) (use iff True in blast)+
        then show ?thesis using F OctetRange True by (simp add: matchNode.simps [of g line d i pos k w0] Let_def)
      next
        case False
        then have "outcome (repetitions_ok g) ?A ?w (False, ?w)" using iff by (intro outcome_none) auto
        then show ?thesis
          using F OctetRange False by (simp add: matchNode.simps [of g line d i pos k w0] Let_def if_not_P)
      qed
    next
      case Sequence
      have "follows line (yields g i) (accepts g line k) pos = accepts g line (ContSequence i 0 k) pos"
        using fun_cong [OF follows_bool [OF yields_sequence [OF Sequence]]] by simp
      then show ?thesis
        using F Sequence "1.IH"(4) [OF F(1) refl F(2,3) refl Sequence] "1.prems"
        by (simp add: matchNode.simps [of g line d i pos k w0] Let_def)
    next
      case Alternation
      have "follows line (yields g i) (accepts g line k) pos = alternatives g line (kids g ?n) k pos"
        using follows_alternation [OF Alternation] by (simp add: fun_eq_iff)
      then show ?thesis
        using F Alternation "1.IH"(5) [OF F(1) refl F(2,3) refl Alternation] "1.prems"
        by (simp add: matchNode.simps [of g line d i pos k w0] Let_def)
    next
      case Repetition
      have "follows line (yields g i) (accepts g line k) pos = accepts g line (ContRepeat i 0 pos k) pos"
        using fun_cong [OF follows_bool [OF yields_repetition [OF Repetition]]] by simp
      moreover have "cont_ok g (ContRepeat i 0 pos k)"
        using "1.prems" Repetition counts_okD [OF "1.prems"(1) Repetition] by auto
      ultimately show ?thesis
        using F Repetition "1.IH"(6) [OF F(1) refl F(2,3) refl Repetition "1.prems"(1)]
        by (simp add: matchNode.simps [of g line d i pos k w0] Let_def del: accepts.simps)
    qed
    then show ?thesis by (rule outcome_from [rotated]) simp
  qed
next
  case (2 g line d k pos w)
  show ?case
  proof (cases "wk_exhausted w")
    case True
    then show ?thesis by (auto simp: matchContinuation.simps [of g line d _ pos w] intro: outcome_none)
  next
    case F: False
    show ?thesis
    proof (cases k)
      case ContEnd
      then show ?thesis using F by (simp add: matchContinuation.simps [of g line d _ pos w] outcome_def)
    next
      case (ContNode i k')
      then show ?thesis using F "2.IH"(1) [OF F ContNode] "2.prems"
        by (simp add: matchContinuation.simps [of g line d _ pos w])
    next
      case (ContSequence i c k')
      then show ?thesis using F "2.IH"(2) [OF F ContSequence] "2.prems"
        by (simp add: matchContinuation.simps [of g line d _ pos w])
    next
      case (ContRepeat i c start k')
      then show ?thesis using F "2.IH"(3) [OF F ContRepeat] "2.prems"
        by (simp add: matchContinuation.simps [of g line d _ pos w] del: accepts.simps)
    next
      case (ContCloseCapture slot start k')
      then show ?thesis using F outcome_capture [OF "2.IH"(4) [OF F ContCloseCapture]] "2.prems"
        by (simp add: matchContinuation.simps [of g line d _ pos w])
    qed
  qed
next
  case (3 g line d i c pos k w)
  show ?case
  proof (cases "n_count (node g i) \<le> int c")
    case True
    then show ?thesis
      using "3.IH"(1) [OF refl True] "3.prems" drop_kids_end [OF True, of g]
      by (simp add: matchSequence.simps [of g line d i c pos k w] Let_def)
  next
    case False
    then have "drop c (kids g (node g i)) = child g (n_first (node g i) + int c) # drop (c + 1) (kids g (node g i))"
      using drop_kids [of c "node g i" g] by simp
    then have "accepts g line (ContSequence i c k) pos =
        follows line (yields g (child g (n_first (node g i) + int c))) (accepts g line (ContSequence i (c + 1) k)) pos"
      by (simp only: accepts.simps follows_seq fun_eq_iff) simp
    then show ?thesis
      using False "3.IH"(2) [OF refl False] "3.prems"
      by (simp add: matchSequence.simps [of g line d i c pos k w] Let_def del: accepts.simps)
  qed
next
  case (4 g line d i c start pos k w)
  let ?n = "node g i" and ?j = "child g (n_first (node g i))"
  let ?A = "accepts g line (ContRepeat i c start k) pos"
  have k: "counts_ok g" "cont_ok g k" "n_kind ?n = Repetition" using "4.prems" by simp_all
  have kc: "cont_ok g (ContRepeat i (c + 1) pos k)" if "again g i c start pos" using that k "4.prems" by (auto simp: again_def)
  show ?case
  proof (cases "wk_exhausted w")
    case True
    then show ?thesis by (auto simp: matchRepetition.simps [of g line d i c start pos k w] intro: outcome_none)
  next
    case F: False
    show ?thesis
    proof (cases "c = 0 \<and> isSingleOctet g [] ?j")
      case run: True
      let ?least = "nat (max 0 (n_lo ?n))" and ?most = "if n_hi ?n = kUnbounded then length line else nat (n_hi ?n mod 2 ^ 64)"
      let ?taken = "octet_run (octetBitmap g ?j) ?most (drop pos line)"
      let ?w = "add_steps ?taken w"
      have A: "?A cs \<longleftrightarrow> (\<exists>t. ?least \<le> t \<and> t \<le> ?taken \<and> accepts g line k (pos + t) cs)" for cs
        using follows_takes [OF _ counts_okD [OF k(1,3)] refl refl, of g line "accepts g line k" pos cs] run by simp
      have "outcome (repetitions_ok g) ?A ?w (matchRepetition g line d i c start pos k w)"
      proof (cases "kMaxSteps < wk_steps ?w \<or> ?taken < ?least")
        case True
        then have none: "kMaxSteps < wk_steps ?w \<or> (\<forall>cs. \<not> ?A cs)" unfolding A by auto
        have "matchRepetition g line d i c start pos k w = (False, if kMaxSteps < wk_steps ?w then exhaust ?w else ?w)"
          using F run True unfolding matchRepetition.simps [of g line d i c start pos k w] by (simp only: Let_def if_True if_False) auto
        then show ?thesis using none by (simp only:) (rule outcome_none; auto simp del: accepts.simps)
      next
        case False
        then have f: "\<not> kMaxSteps < wk_steps ?w" "\<not> ?taken < ?least" by auto
        have "?A cs \<longleftrightarrow> takes g line ?taken ?least k pos cs" for cs
          unfolding A takes_def using f(2) by (metis linorder_not_less order_refl)
        then have "?A = takes g line ?taken ?least k pos" by (rule ext)
        moreover have "outcome (repetitions_ok g) (takes g line ?taken ?least k pos) ?w
            (matchTakes g line d ?taken ?least pos k ?w)"
          by (rule "4.IH"(1) [OF F refl refl run refl refl refl refl f k(1,2)])
        ultimately have "outcome (repetitions_ok g) ?A ?w (matchTakes g line d ?taken ?least pos k ?w)"
          by (simp only:)
        then show ?thesis
          using F run f by (simp add: matchRepetition.simps [of g line d i _ start pos k w] Let_def del: accepts.simps)
      qed
      then show ?thesis by (rule outcome_from [rotated]) simp
    next
      case slow: False
      let ?stop = "\<lambda>w. if n_lo ?n \<le> int c then matchContinuation g line d k pos w else (False, w)"
      let ?B = "\<lambda>cs. n_lo ?n \<le> int c \<and> accepts g line k pos cs"
      show ?thesis
      proof (cases "again g i c start pos")
        case True
        then have ag: "(n_hi ?n = kUnbounded \<or> int c < n_hi ?n) \<and> \<not> (0 < c \<and> pos = start)" by (simp add: again_def)
        let ?r = "matchNode g line d ?j pos (ContRepeat i (c + 1) pos k) w"
        have one: "outcome (repetitions_ok g) (once_more g line i c k pos) w ?r"
          by (rule "4.IH"(2) [OF F refl refl slow ag k(1) kc [OF True]])
        have two: "outcome (repetitions_ok g) ?B w' (?stop w')" if "?r = (False, w')" "\<not> wk_exhausted w'" for w'
          using "4.IH"(3) [OF F refl refl slow ag that(1) [symmetric] _ that(2) _ k(1,2)]
          by (auto intro: outcome_none)
        have "outcome (repetitions_ok g) ?A w
            (case ?r of (ok, w') \<Rightarrow> if ok then (True, w') else if wk_exhausted w' then (False, w') else ?stop w')"
          by (rule outcome_else [OF one two])
            (use repeat_more [OF "4.prems"(2) True] repeat_stop [OF "4.prems"(2)] repeat_complete [OF _ "4.prems"(2)] in blast)+
        then show ?thesis
          unfolding matchRepetition.simps [of g line d i c start pos k w]
          by (simp only: Let_def if_not_P [OF F] if_not_P [OF slow] if_P [OF ag])
      next
        case False
        then have ag: "\<not> ((n_hi ?n = kUnbounded \<or> int c < n_hi ?n) \<and> \<not> (0 < c \<and> pos = start))" by (simp add: again_def)
        have "outcome (repetitions_ok g) ?B w (?stop w)"
          using "4.IH"(4) [OF F refl refl slow ag _ k(1,2)] by (auto intro: outcome_none)
        then have "outcome (repetitions_ok g) ?A w (?stop w)"
          by (rule outcome_iff)
            (use repeat_stop [OF "4.prems"(2)] repeat_complete [OF _ "4.prems"(2)] False in blast)+
        then show ?thesis
          unfolding matchRepetition.simps [of g line d i c start pos k w]
          by (simp only: Let_def if_not_P [OF F] if_not_P [OF slow] if_not_P [OF ag])
      qed
    qed
  qed
next
  case (5 g line d js pos k w)
  show ?case
  proof (cases js)
    case Nil
    then show ?thesis
      by (auto simp: matchAlternatives.simps [of g line d _ pos k w] alternatives_def intro: outcome_none)
  next
    case (Cons j js')
    show ?thesis
      unfolding Cons matchAlternatives.simps [of g line d "j # js'" pos k w] list.case
      by (rule outcome_else [OF "5.IH"(1) [OF Cons "5.prems"] "5.IH"(2) [OF Cons _ _ _ "5.prems"]])
        (auto simp: alternatives_def Cons)
  qed
next
  case (6 g line d took least pos k w)
  let ?f = "\<lambda>w'. if took \<le> least then (False, w') else matchTakes g line d (took - 1) least pos k w'"
  have two: "outcome (repetitions_ok g) (\<lambda>cs. least < took \<and> takes g line (took - 1) least k pos cs) w' (?f w')"
    if "matchContinuation g line d k (pos + took) w = (False, w')" "\<not> wk_exhausted w'" for w'
    using "6.IH"(2) [OF that(1) [symmetric] _ that(2) _ "6.prems"] by (auto intro: outcome_none)
  show ?case
    unfolding matchTakes.simps [of g line d took least pos k w]
    by (rule outcome_else [OF "6.IH"(1) [OF "6.prems"] two]) (use takes_step in blast)+
qed

section \<open>The whole match\<close>

text \<open>The result a derivation's captures make: their texts, their owners, and the texts per slot.\<close>

definition captured :: "grammar \<Rightarrow> captures \<Rightarrow> match_result" where
  "captured g cs = \<lparr>mr_grammar = Some g,
     mr_values = map (\<lambda>i. map snd (filter (\<lambda>c. fst c = int i) cs)) [0..<length (g_captureNames g)],
     mr_sequence = map snd cs, mr_owners = map fst cs\<rparr>"

lemma captured_ok: "\<forall>c \<in> set cs. in_range (fst c) (g_captureNames g) \<Longrightarrow> mr_ok (captured g cs)"
  by (auto simp: captured_def mr_ok_def)

lemma yields_slots:
  assumes "grammar_wf g"
  shows "yields g i s cs \<Longrightarrow> \<forall>c \<in> set cs. in_range (fst c) (g_captureNames g)"
    and "yields_seq g js s cs \<Longrightarrow> \<forall>c \<in> set cs. in_range (fst c) (g_captureNames g)"
    and "yields_times g i m s cs \<Longrightarrow> \<forall>c \<in> set cs. in_range (fst c) (g_captureNames g)"
proof (induction rule: yields_yields_seq_yields_times.inducts)
  case (yield_reference i s cs)
  have "in_range i (g_nodes g)"
    using yield_reference(1) by (auto simp: node_def empty_node_def split: if_splits)
  then have "node_wf g i (node g i)" by (rule wf_node [OF assms])
  then have "n_capture (node g i) = kNoCapture \<or> in_range (n_capture (node g i)) (g_captureNames g)"
    using yield_reference(1) by (simp add: node_wf_def)
  then show ?case using yield_reference(4) by (auto simp: closing_def)
qed auto

lemma pushAll_texts:
  "wk_sequence (pushAll cs w) = wk_sequence w @ map snd cs \<and> wk_owners (pushAll cs w) = wk_owners w @ map fst cs"
  by (induction cs arbitrary: w) (auto simp: pushCapture_def)

lemma pushAll_values:
  assumes "\<forall>c \<in> set cs. 0 \<le> fst c \<and> fst c < int (length (wk_values w))"
  shows "wk_values (pushAll cs w) =
    map (\<lambda>i. wk_values w ! i @ map snd (filter (\<lambda>c. fst c = int i) cs)) [0..<length (wk_values w)]"
  using assms
proof (induction cs arbitrary: w)
  case Nil
  then show ?case by (simp add: map_nth)
next
  case (Cons c cs)
  obtain slot s where c: "c = (slot, s)" by (cases c)
  have l: "length (wk_values (pushCapture slot s w)) = length (wk_values w)" by (simp add: pushCapture_def)
  have v: "wk_values (pushCapture slot s w) ! i =
      (if int i = slot then wk_values w ! i @ [s] else wk_values w ! i)" if "i < length (wk_values w)" for i
    using that Cons.prems c by (auto simp: pushCapture_def nth_list_update)
  show ?case
    using Cons.IH [of "pushCapture slot s w"] Cons.prems l v by (auto simp: c)
qed

definition start_walk :: "grammar \<Rightarrow> walk" where
  "start_walk g = \<lparr>wk_values = replicate (length (g_captureNames g)) [], wk_sequence = [], wk_owners = [],
     wk_steps = 0, wk_exhausted = False\<rparr>"

lemma tree_match_unfold:
  "tree_match g rule line =
     (if ruleRoot g rule = kNoRule then (False, mr_reset g, False)
      else case matchNode g line 0 (ruleRoot g rule) 0 ContEnd (start_walk g) of
        (ok, w) \<Rightarrow> (ok, if ok then mr_adopt (wk_values w) (wk_sequence w) (wk_owners w) (mr_reset g) else mr_reset g,
                    wk_exhausted w))"
  by (simp add: tree_match_def start_walk_def Let_def)

lemma start_outcome:
  assumes "counts_ok g"
  shows "outcome (repetitions_ok g) (yields g i line) (start_walk g) (matchNode g line 0 i 0 ContEnd (start_walk g))"
proof -
  have "follows line (yields g i) (accepts g line ContEnd) 0 = yields g i line"
    by (auto simp: follows_def fun_eq_iff)
  then show ?thesis using matching_outcome(1) [OF assms, of ContEnd line i 0 "start_walk g" 0] by simp
qed

lemma tree_match_found:
  assumes "grammar_wf g" and "counts_ok g" and "tree_match g rule line = (True, out, e)"
  shows "\<not> e \<and> (\<exists>cs. yields g (ruleRoot g rule) line cs \<and> out = captured g cs)"
proof -
  let ?w = "start_walk g"
  obtain w where w: "matchNode g line 0 (ruleRoot g rule) 0 ContEnd ?w = (True, w)" "e = wk_exhausted w"
      "out = mr_adopt (wk_values w) (wk_sequence w) (wk_owners w) (mr_reset g)"
    using assms(3) by (auto simp: tree_match_unfold split: if_splits prod.splits)
  obtain cs where cs: "\<not> wk_exhausted w" "yields g (ruleRoot g rule) line cs" "same_caps w (pushAll cs ?w)"
    using start_outcome [OF assms(2), of "ruleRoot g rule" line] w(1)
    by (auto simp: outcome_def balanced_def start_walk_def)
  have "\<forall>c \<in> set cs. 0 \<le> fst c \<and> fst c < int (length (wk_values ?w))"
    using yields_slots(1) [OF assms(1) cs(2)] by (simp add: in_range_def start_walk_def)
  then have "out = captured g cs"
    using cs(3) w(3) pushAll_values [of cs ?w] pushAll_texts [of cs ?w]
    by (simp add: captured_def mr_adopt_def mr_reset_def same_caps_def start_walk_def)
  then show ?thesis using cs w by blast
qed

lemma tree_match_none:
  assumes "counts_ok g" and "repetitions_ok g" and "tree_match g rule line = (False, out, False)"
    and "ruleRoot g rule \<noteq> kNoRule"
  shows "\<not> yields g (ruleRoot g rule) line cs"
  using start_outcome [OF assms(1), of "ruleRoot g rule" line] assms(2,3,4)
  by (auto simp: outcome_def balanced_def start_walk_def tree_match_unfold split: prod.splits)

lemma tree_match_failed:
  assumes "tree_match g rule line = (False, out, e)"
  shows "out = mr_reset g"
  using assms by (auto simp: tree_match_unfold split: if_splits prod.splits)

end
