(* ===== verification/Compiler_Correct.thy ===== *)
theory Compiler_Correct
  imports Compiler_Segments Tree_Correct
begin

text \<open>
  A compiled rule matches what the rule yields: every emitting function of the compiler
  leaves the code before it alone and appends a stretch for the language of its node.
\<close>

section \<open>Classes\<close>

lemma octet_of_int:
  assumes "0 \<le> k" and "k < 256"
  obtains c where "octet c = k"
proof
  show "octet (char_of (nat k)) = k" using assms by (simp add: octet_def of_char_of take_bit_nat_eq_self)
qed

lemma setBits_None: "foldl (\<lambda>b c. Option.bind b (setBit c)) None cs = None"
  by (induction cs) simp_all

lemma setBits_lookup:
  assumes "length bits = 32" and "setBits cs bits = Some bits'"
  shows "length bits' = 32 \<and> (\<forall>c. inClass bits' c \<longleftrightarrow> octet c \<in> set cs \<or> inClass bits c)"
  using assms
proof (induction cs arbitrary: bits)
  case Nil
  then show ?case by (simp add: setBits_def)
next
  case (Cons k cs)
  obtain b1 where b1: "setBit k bits = Some b1" "setBits cs b1 = Some bits'"
    using Cons.prems(2) by (cases "setBit k bits") (simp_all add: setBits_def setBits_None)
  then obtain d where d: "octet d = k" by (metis octet_of_int option.distinct(1) setBit_def)
  have "length b1 = 32 \<and> (\<forall>c. inClass b1 c \<longleftrightarrow> c = d \<or> inClass bits c)"
    using setBit_octet [OF Cons.prems(1), of d] b1(1) d by auto
  then show ?case using Cons.IH [OF _ b1(2)] d by auto
qed

lemma setBits_defined:
  assumes "\<forall>k \<in> set cs. 0 \<le> k \<and> k < 256"
  shows "setBits cs bits \<noteq> None"
  using assms
proof (induction cs arbitrary: bits)
  case (Cons k cs)
  then obtain b where "setBit k bits = Some b" by (auto simp: setBit_def)
  then show ?case using Cons by (simp add: setBits_def)
qed (simp add: setBits_def)

lemma of_char_fold: "(of_char (fold_char c) :: nat) = (if 65 \<le> (of_char c :: nat) \<and> (of_char c :: nat) \<le> 90 then of_char c + 32 else of_char c)"
proof -
  have "(CHR ''A'' \<le> c) = (65 \<le> (of_char c :: nat))" "(c \<le> CHR ''Z'') = ((of_char c :: nat) \<le> 90)"
    by (simp_all add: less_eq_char_def)
  then show ?thesis
    by (auto simp: fold_char_def of_char_of take_bit_nat_eq_self)
qed

lemma of_char_upper: "(of_char (upper_of c) :: nat) = (if 97 \<le> (of_char c :: nat) \<and> (of_char c :: nat) \<le> 122 then of_char c - 32 else of_char c)"
proof -
  have "(CHR ''a'' \<le> c) = (97 \<le> (of_char c :: nat))" "(c \<le> CHR ''z'') = ((of_char c :: nat) \<le> 122)"
    by (simp_all add: less_eq_char_def)
  then show ?thesis
    by (auto simp: upper_of_def of_char_of take_bit_nat_eq_self)
qed

lemma fold_char_upper:
  "octet c \<in> {octet (fold_char d), octet (upper_of (fold_char d))} \<longleftrightarrow> fold_char c = fold_char d"
proof -
  have "fold_char c = fold_char d \<longleftrightarrow> (of_char (fold_char c) :: nat) = of_char (fold_char d)" by simp
  then show ?thesis
    by (auto simp: octet_def of_char_fold of_char_upper simp del: of_char_eq_iff)
qed

lemma buildClass_bits:
  shows "isSingleOctet g busy i \<Longrightarrow> length bits = 32 \<Longrightarrow> buildClass g busy i bits = Some (ok, bits') \<Longrightarrow>
      ok \<and> length bits' = 32 \<and> (\<forall>c. inClass bits' c \<longleftrightarrow> octetMatches g busy i c \<or> inClass bits c)"
    and "\<forall>j \<in> set js. isSingleOctet g busy j \<Longrightarrow> length bits = 32 \<Longrightarrow> buildClasses g busy js bits = Some (ok, bits') \<Longrightarrow>
      ok \<and> length bits' = 32 \<and> (\<forall>c. inClass bits' c \<longleftrightarrow> (\<exists>j \<in> set js. octetMatches g busy j c) \<or> inClass bits c)"
proof (induction g busy i bits and g busy js bits arbitrary: ok bits' and ok bits' rule: buildClass_buildClasses.induct)
  case (1 g busy i bits)
  let ?n = "node g i"
  have F: "\<not> (i \<in> set busy \<or> \<not> in_range i (g_nodes g))"
    using "1.prems"(1) by (auto simp: isSingleOctet.simps [of g busy i] split: if_splits)
  note so = "1.prems"(1) [unfolded isSingleOctet.simps [of g busy i] if_not_P [OF F] Let_def]
  note bc = "1.prems"(3) [unfolded buildClass.simps [of g busy i] if_not_P [OF F] Let_def]
  have om: "octetMatches g busy i c = (case n_kind ?n of
          OctetRange \<Rightarrow> octet_in ?n c
        | Literal \<Rightarrow> length (literal g (n_literal ?n)) = 1 \<and> fold_char (literal g (n_literal ?n) ! 0) = fold_char c
        | Reference \<Rightarrow> ruleRoot g (n_lo ?n) \<noteq> kNoRule \<and> octetMatches g (i # busy) (ruleRoot g (n_lo ?n)) c
        | Alternation \<Rightarrow> \<exists>j \<in> set (kids g ?n). octetMatches g (i # busy) j c
        | _ \<Rightarrow> False)" for c
    using F by (simp add: octetMatches.simps [of g busy i] Let_def)
  show ?case
  proof (cases "n_kind ?n")
    case Reference
    then show ?thesis using so bc om "1.IH"(1) [OF F refl Reference] "1.prems"(2) by auto
  next
    case Alternation
    then show ?thesis using so bc om "1.IH"(2) [OF F refl Alternation] "1.prems"(2) by auto
  next
    case OctetRange
    then obtain b where "setBits [n_lo ?n..n_hi ?n] bits = Some b" "ok" "bits' = b" using bc by auto
    then show ?thesis using setBits_lookup [OF "1.prems"(2)] om OctetRange by (auto simp: octet_in_def)
  next
    case Literal
    then have l: "length (literal g (n_literal ?n)) = 1" using so by simp
    let ?d = "literal g (n_literal ?n) ! 0"
    obtain b where b: "setBits [octet ?d, octet (fold_char ?d), octet (upper_of (fold_char ?d))] bits = Some b" "ok" "bits' = b"
      using bc Literal l by auto
    have "octet c \<in> {octet (fold_char ?d), octet (upper_of (fold_char ?d))} \<or> octet c = octet ?d \<longleftrightarrow> fold_char c = fold_char ?d" for c
      using fold_char_upper [of c ?d] by auto
    then have "inClass b c \<longleftrightarrow> fold_char c = fold_char ?d \<or> inClass bits c" for c
      using setBits_lookup [OF "1.prems"(2) b(1)] by (metis insert_iff list.set(1,2) empty_iff)
    moreover have "octetMatches g busy i c \<longleftrightarrow> fold_char c = fold_char ?d" for c
      unfolding om using Literal l by auto
    ultimately show ?thesis using setBits_lookup [OF "1.prems"(2) b(1)] b by blast
  qed (use so in simp_all)
next
  case (2 g busy bits)
  then show ?case by simp
next
  case (3 g busy j js bits)
  obtain ok1 b1 where b1: "buildClass g busy j bits = Some (ok1, b1)"
    using "3.prems"(3) by (cases "buildClass g busy j bits") auto
  have *: "ok1 \<and> length b1 = 32 \<and> (\<forall>c. inClass b1 c \<longleftrightarrow> octetMatches g busy j c \<or> inClass bits c)"
    by (rule "3.IH"(1) [OF _ "3.prems"(2) b1]) (use "3.prems"(1) in simp)
  then have ok1: ok1 and b1l: "length b1 = 32" and bc: "buildClasses g busy js b1 = Some (ok, bits')"
    using "3.prems"(3) b1 by simp_all
  have "ok \<and> length bits' = 32 \<and> (\<forall>c. inClass bits' c \<longleftrightarrow> (\<exists>j \<in> set js. octetMatches g busy j c) \<or> inClass b1 c)"
    by (rule "3.IH"(2) [OF b1 refl ok1 _ b1l bc]) (use "3.prems"(1) in simp)
  then show ?case using * by auto
qed

section \<open>Code that is only appended to\<close>

text \<open>\<open>P\<close> has the instructions of \<open>p\<close> from \<open>a\<close> on, those at \<open>K\<close> apart, and its classes.\<close>

definition agrees :: "int \<Rightarrow> int set \<Rightarrow> program \<Rightarrow> program \<Rightarrow> bool" where
  "agrees a K p P \<longleftrightarrow> pc_of p \<le> pc_of P \<and> prefix (pg_classes p) (pg_classes P) \<and>
     (\<forall>k. a \<le> k \<longrightarrow> k < pc_of p \<longrightarrow> k \<notin> K \<longrightarrow> ins_at P k = ins_at p k)"

abbreviation extends :: "program \<Rightarrow> program \<Rightarrow> bool" where
  "extends p q \<equiv> agrees 0 {} p q"

lemma agrees_refl [simp]: "agrees a K p p"
  by (simp add: agrees_def)

lemma agrees_trans:
  assumes "agrees a K p q" and "agrees b M q P" and "a' \<ge> a" and "a' \<ge> b"
    and "\<And>k. a' \<le> k \<Longrightarrow> k < pc_of p \<Longrightarrow> k \<notin> L \<Longrightarrow> k \<notin> K \<and> k \<notin> M"
  shows "agrees a' L p P"
proof -
  have "ins_at P k = ins_at p k" if "a' \<le> k" "k < pc_of p" "k \<notin> L" for k
    using assms that by (simp add: agrees_def)
  then show ?thesis using assms(1,2) by (auto simp: agrees_def intro: prefix_order.trans)
qed

lemma agrees_le: "agrees a K p P \<Longrightarrow> pc_of p \<le> pc_of P"
  by (simp add: agrees_def)

lemma agrees_at: "agrees a K p P \<Longrightarrow> a \<le> k \<Longrightarrow> k < pc_of p \<Longrightarrow> k \<notin> K \<Longrightarrow> ins_at P k = ins_at p k"
  by (simp add: agrees_def)

lemma agrees_class:
  "agrees a K p P \<Longrightarrow> 0 \<le> k \<Longrightarrow> k < int (length (pg_classes p)) \<Longrightarrow> program_inClass P k = program_inClass p k"
  by (auto simp: agrees_def program_inClass_def prefix_def nth_append fun_eq_iff nat_less_iff)

lemma pc_of_nonneg [simp]: "0 \<le> pc_of p"
  by (simp add: pc_of_def)

lemma pc_of_emit [simp]: "pc_of (emit oper x y p) = pc_of p + 1"
  by (simp add: pc_of_def emit_def)

lemma pc_of_patch [simp]: "pc_of (patch_x pc x p) = pc_of p" "pc_of (patch_y pc y p) = pc_of p"
  by (simp_all add: pc_of_def patch_x_def patch_y_def)

lemma classes_emit [simp]: "pg_classes (emit oper x y p) = pg_classes p"
    "pg_classes (patch_x pc x p) = pg_classes p" "pg_classes (patch_y pc y p) = pg_classes p"
  by (simp_all add: emit_def patch_x_def patch_y_def)

lemma ins_at_emit: "0 \<le> k \<Longrightarrow> k \<le> pc_of p \<Longrightarrow>
    ins_at (emit oper x y p) k = (if k = pc_of p then \<lparr>i_op = oper, i_x = x, i_y = y\<rparr> else ins_at p k)"
  by (auto simp: ins_at_def emit_def pc_of_def nth_append nat_less_iff)

lemma ins_at_patch_x: "0 \<le> pc \<Longrightarrow> pc < pc_of p \<Longrightarrow> 0 \<le> k \<Longrightarrow>
    ins_at (patch_x pc x p) k = (if k = pc then (ins_at p k)\<lparr>i_x := x\<rparr> else ins_at p k)"
  by (auto simp: ins_at_def patch_x_def pc_of_def nth_list_update nat_eq_iff)

lemma ins_at_patch_y: "0 \<le> pc \<Longrightarrow> pc < pc_of p \<Longrightarrow> 0 \<le> k \<Longrightarrow>
    ins_at (patch_y pc x p) k = (if k = pc then (ins_at p k)\<lparr>i_y := x\<rparr> else ins_at p k)"
  by (auto simp: ins_at_def patch_y_def pc_of_def nth_list_update nat_eq_iff)

lemma extends_emit: "extends p (emit oper x y p)"
  by (auto simp: agrees_def ins_at_emit)

lemma in_range_pc: "agrees a K p P \<Longrightarrow> 0 \<le> k \<Longrightarrow> k < pc_of p \<Longrightarrow> in_range k (pg_code P)"
  by (auto simp: agrees_def in_range_def pc_of_def)

definition patched :: "int list \<Rightarrow> (instruction \<Rightarrow> instruction) \<Rightarrow> program \<Rightarrow> program \<Rightarrow> bool" where
  "patched pcs f p q \<longleftrightarrow> pc_of q = pc_of p \<and> pg_classes q = pg_classes p \<and> pg_slotCapture q = pg_slotCapture p \<and>
     (\<forall>k. 0 \<le> k \<longrightarrow> ins_at q k = (if k \<in> set pcs then f (ins_at p k) else ins_at p k))"

lemma patch_all_x_patched:
  "distinct pcs \<Longrightarrow> \<forall>k \<in> set pcs. 0 \<le> k \<and> k < pc_of p \<Longrightarrow> patched pcs (\<lambda>i. i\<lparr>i_x := x\<rparr>) p (patch_all_x pcs x p)"
proof (induction pcs arbitrary: p)
  case (Cons k pcs)
  have "patched pcs (\<lambda>i. i\<lparr>i_x := x\<rparr>) (patch_x k x p) (patch_all_x pcs x (patch_x k x p))"
    using Cons by auto
  then show ?case using Cons.prems by (auto simp: patched_def patch_all_x_def ins_at_patch_x) (simp add: patch_x_def)
qed (simp add: patched_def patch_all_x_def)

lemma patch_all_y_patched:
  "distinct pcs \<Longrightarrow> \<forall>k \<in> set pcs. 0 \<le> k \<and> k < pc_of p \<Longrightarrow> patched pcs (\<lambda>i. i\<lparr>i_y := x\<rparr>) p (patch_all_y pcs x p)"
proof (induction pcs arbitrary: p)
  case (Cons k pcs)
  have "patched pcs (\<lambda>i. i\<lparr>i_y := x\<rparr>) (patch_y k x p) (patch_all_y pcs x (patch_y k x p))"
    using Cons by auto
  then show ?case using Cons.prems by (auto simp: patched_def patch_all_y_def ins_at_patch_y) (simp add: patch_y_def)
qed (simp add: patched_def patch_all_y_def)

lemma patched_agrees: "patched pcs f p q \<Longrightarrow> agrees 0 (set pcs) p q"
  by (simp add: patched_def agrees_def)

section \<open>Appended stretches\<close>

definition emits :: "program \<Rightarrow> program \<Rightarrow> (string \<Rightarrow> bool) \<Rightarrow> bool" where
  "emits p q L \<longleftrightarrow> extends p q \<and> (\<forall>P line. agrees (pc_of p) {} q P \<longrightarrow> seg P line (pc_of p) (pc_of q) L)"

lemma emits_extends: "emits p q L \<Longrightarrow> extends p q"
  by (simp add: emits_def)

lemma emits_le: "emits p q L \<Longrightarrow> pc_of p \<le> pc_of q"
  by (auto dest: emits_extends agrees_le)

lemma emits_seg: "emits p q L \<Longrightarrow> agrees (pc_of p) {} q P \<Longrightarrow> seg P line (pc_of p) (pc_of q) L"
  by (simp add: emits_def)

lemma emits_iff: "emits p q L \<Longrightarrow> (\<And>s. L s \<longleftrightarrow> M s) \<Longrightarrow> emits p q M"
  by (auto simp: emits_def intro: seg_iff)

lemma emits_nothing: "emits p p (\<lambda>s. s = [])"
  by (simp add: emits_def seg_empty)

lemma emits_seq:
  assumes "emits p q L" and "emits q r M"
  shows "emits p r (\<lambda>s. \<exists>s1 s2. s = s1 @ s2 \<and> L s1 \<and> M s2)"
  unfolding emits_def
proof (intro conjI allI impI)
  show "extends p r"
    by (rule agrees_trans [OF emits_extends [OF assms(1)] emits_extends [OF assms(2)]]) simp_all
  fix P line
  assume P: "agrees (pc_of p) {} r P"
  have "agrees (pc_of p) {} q P"
    by (rule agrees_trans [OF emits_extends [OF assms(2)] P]) simp_all
  moreover have "agrees (pc_of q) {} r P"
    by (rule agrees_trans [OF agrees_refl [of "pc_of q" "{}"] P]) (use emits_le [OF assms(1)] in auto)
  ultimately show "seg P line (pc_of p) (pc_of r) (\<lambda>s. \<exists>s1 s2. s = s1 @ s2 \<and> L s1 \<and> M s2)"
    using seg_seq emits_seg [OF assms(1)] emits_seg [OF assms(2)] by blast
qed

lemma addClass_spec:
  assumes "addClass bits p = (k, q)"
  shows "0 \<le> k" "k < int (length (pg_classes q))" "pg_classes q ! nat k = bits" "extends p q" "pg_code q = pg_code p"
    "pg_slotCapture q = pg_slotCapture p"
  using assms index_from_bounds [of 0 bits "pg_classes p"] index_from_nth [of 0 bits "pg_classes p"]
  by (auto simp: addClass_def agrees_def pc_of_def ins_at_def split: if_splits)

lemma emits_class: "emits p (emitClass bits p) (\<lambda>s. \<exists>c. s = [c] \<and> inClass bits c)"
proof -
  obtain k q where q: "addClass bits p = (k, q)" by (cases "addClass bits p")
  note A = addClass_spec [OF q]
  have r: "emitClass bits p = emit Class k 0 q" by (simp add: emitClass_def q)
  have pc: "pc_of q = pc_of p" using A(5) by (simp add: pc_of_def)
  show ?thesis
    unfolding emits_def
  proof (intro conjI allI impI)
    show "extends p (emitClass bits p)"
      unfolding r by (rule agrees_trans [OF A(4) extends_emit]) simp_all
    fix P line
    assume P: "agrees (pc_of p) {} (emitClass bits p) P"
    then have i: "ins_at P (pc_of p) = \<lparr>i_op = Class, i_x = k, i_y = 0\<rparr>"
      using agrees_at [OF P, of "pc_of p"] pc by (simp add: r ins_at_emit)
    have "program_inClass P k = program_inClass q k"
      using agrees_class [OF P, of k] A(1,2) by (simp add: r program_inClass_def fun_eq_iff)
    then have c: "program_inClass P k c = inClass bits c" for c using A(3) by (simp add: program_inClass_def)
    have "in_range (pc_of p) (pg_code P)" by (rule in_range_pc [OF P]) (simp_all add: r pc)
    from seg_class [OF this, of line] show "seg P line (pc_of p) (pc_of (emitClass bits p)) (\<lambda>s. \<exists>c. s = [c] \<and> inClass bits c)"
      by (simp add: i c r pc)
  qed
qed

lemma emits_save: "emits p (emit Save x 0 (p\<lparr>pg_slotCapture := xs\<rparr>)) (\<lambda>s. s = [])"
proof -
  let ?p = "p\<lparr>pg_slotCapture := xs\<rparr>"
  have pc: "pc_of ?p = pc_of p" by (simp add: pc_of_def)
  have e: "extends p ?p" by (simp add: agrees_def pc_of_def ins_at_def)
  show ?thesis
    unfolding emits_def
  proof (intro conjI allI impI)
    show "extends p (emit Save x 0 ?p)" by (rule agrees_trans [OF e extends_emit]) simp_all
    fix P line
    assume P: "agrees (pc_of p) {} (emit Save x 0 ?p) P"
    have "i_op (ins_at P (pc_of p)) = Save"
      using agrees_at [OF P, of "pc_of p"] pc by (simp add: ins_at_emit)
    moreover have "in_range (pc_of p) (pg_code P)" by (rule in_range_pc [OF P]) (simp_all add: pc)
    ultimately show "seg P line (pc_of p) (pc_of (emit Save x 0 ?p)) (\<lambda>s. s = [])"
      using seg_save pc by simp
  qed
qed

lemma emits_octets:
  assumes "emitOctets cs p = Emitted q"
  shows "emits p q (\<lambda>s. \<exists>c. s = [c] \<and> octet c \<in> set cs)"
proof -
  obtain bits where b: "setBits cs no_octets = Some bits" "q = emitClass bits p"
    using assms by (auto simp: emitOctets_def split: option.splits)
  have "inClass bits c \<longleftrightarrow> octet c \<in> set cs" for c using setBits_lookup [OF _ b(1)] by simp
  then show ?thesis using emits_class [of p bits] b(2) by simp
qed

lemma emits_literal:
  "emitLiteral x p = Emitted q \<Longrightarrow> emits p q (\<lambda>s. map fold_char s = map fold_char x)"
proof (induction x arbitrary: p)
  case Nil
  then show ?case using emits_nothing by simp
next
  case (Cons d x)
  obtain p1 where p1: "emitOctets [octet (fold_char d), octet (upper_of (fold_char d))] p = Emitted p1" "emitLiteral x p1 = Emitted q"
    using Cons.prems by (auto simp: and_then_Emitted)
  have "emits p p1 (\<lambda>s. \<exists>c. s = [c] \<and> fold_char c = fold_char d)"
    using emits_octets [OF p1(1)] fold_char_upper by simp
  from emits_seq [OF this Cons.IH [OF p1(2)]] show ?case
  proof (rule emits_iff)
    fix s :: string
    show "(\<exists>s1 s2. s = s1 @ s2 \<and> (\<exists>c. s1 = [c] \<and> fold_char c = fold_char d) \<and> map fold_char s2 = map fold_char x) \<longleftrightarrow>
        map fold_char s = map fold_char (d # x)"
      (is "?L \<longleftrightarrow> ?R")
    proof
      assume ?R
      then obtain c t where "s = [c] @ t" "fold_char c = fold_char d" "map fold_char t = map fold_char x" by auto
      then show ?L by blast
    qed auto
  qed
qed

text \<open>Stretches that still have addresses \<open>K\<close> to patch; \<open>F\<close> says what must be put there.\<close>

definition emits_open ::
  "(int \<Rightarrow> instruction \<Rightarrow> bool) \<Rightarrow> int list \<Rightarrow> program \<Rightarrow> program \<Rightarrow> (string \<Rightarrow> bool) \<Rightarrow> bool" where
  "emits_open F K p q L \<longleftrightarrow> extends p q \<and> distinct K \<and> (\<forall>k \<in> set K. pc_of p \<le> k \<and> k < pc_of q) \<and>
     (\<forall>P line. agrees (pc_of p) (set K) q P \<longrightarrow> (\<forall>k \<in> set K. F k (ins_at P k)) \<longrightarrow>
        seg P line (pc_of p) (pc_of q) L)"

definition jump_to :: "int \<Rightarrow> int \<Rightarrow> instruction \<Rightarrow> bool" where
  "jump_to b k i \<longleftrightarrow> i_op i = Jump \<and> i_x i = b"

definition exit_to :: "int \<Rightarrow> int \<Rightarrow> instruction \<Rightarrow> bool" where
  "exit_to b k i \<longleftrightarrow> i_op i = Split \<and> i_x i = k + 1 \<and> i_y i = b"

abbreviation split_at :: "program \<Rightarrow> program" where
  "split_at p \<equiv> patch_x (pc_of p) (pc_of p + 1) (emit Split 0 0 p)"

lemma split_at_facts:
  "extends p (split_at p)" "pc_of (split_at p) = pc_of p + 1"
  "ins_at (split_at p) (pc_of p) = \<lparr>i_op = Split, i_x = pc_of p + 1, i_y = 0\<rparr>"
  by (auto simp: agrees_def ins_at_patch_x ins_at_emit)

lemma emits_open_one: "emits p q L \<Longrightarrow> emits_open F [] p q L"
  by (simp add: emits_def emits_open_def)

lemma alternatives_more:
  assumes "emits (split_at p) p1 L" and "p3 = patch_y (pc_of p) (pc_of p1 + 1) (emit Jump 0 0 p1)"
    and "emits_open (jump_to (pc_of p4)) js p3 p4 M"
  shows "emits_open (jump_to (pc_of p4)) (pc_of p1 # js) p p4 (\<lambda>s. L s \<or> M s)"
proof -
  let ?a = "pc_of p" and ?m = "pc_of p1"
  note S = split_at_facts [of p]
  have le: "?a + 1 \<le> ?m" using emits_le [OF assms(1)] S(2) by simp
  have pc3: "pc_of p3 = ?m + 1" by (simp add: assms(2))
  have i3: "0 \<le> k \<Longrightarrow> k < ?m + 1 \<Longrightarrow> ins_at p3 k =
      (if k = ?a then (ins_at p1 k)\<lparr>i_y := ?m + 1\<rparr> else if k = ?m then \<lparr>i_op = Jump, i_x = 0, i_y = 0\<rparr> else ins_at p1 k)" for k
    using le by (auto simp: assms(2) ins_at_patch_y ins_at_emit)
  have e1: "extends p p1" by (rule agrees_trans [OF S(1) emits_extends [OF assms(1)]]) simp_all
  have e13: "agrees 0 {?a} p1 p3" using le i3 by (auto simp: agrees_def pc3 assms(2))
  have e34: "extends p3 p4" using assms(3) by (simp add: emits_open_def)
  have "extends p p3" by (rule agrees_trans [OF e1 e13]) auto
  then have e4: "extends p p4" by (rule agrees_trans [OF _ e34]) auto
  have e14: "agrees 0 {?a} p1 p4" by (rule agrees_trans [OF e13 e34]) auto
  have J: "distinct js" "\<And>k. k \<in> set js \<Longrightarrow> ?m + 1 \<le> k \<and> k < pc_of p4" using assms(3) by (auto simp: emits_open_def pc3)
  have le4: "?m + 1 \<le> pc_of p4" using agrees_le [OF e34] pc3 by simp
  show ?thesis
    unfolding emits_open_def
  proof (intro conjI allI impI)
    show "extends p p4" by (rule e4)
    show "distinct (?m # js)" using J by force
    show "\<forall>k \<in> set (?m # js). ?a \<le> k \<and> k < pc_of p4" using J le le4 by force
    fix P line
    assume P: "agrees ?a (set (?m # js)) p4 P" and F: "\<forall>k \<in> set (?m # js). jump_to (pc_of p4) k (ins_at P k)"
    have P1: "agrees (?a + 1) {} p1 P"
    proof (rule agrees_trans [OF e14 P])
      show "k \<notin> {?a} \<and> k \<notin> set (?m # js)" if "?a + 1 \<le> k" "k < ?m" "k \<notin> {}" for k using that J(2) [of k] by auto
    qed auto
    have a: "ins_at P ?a = \<lparr>i_op = Split, i_x = ?a + 1, i_y = ?m + 1\<rparr>"
    proof -
      have "?a \<notin> set (?m # js)" using J(2) [of ?a] le by auto
      then have "ins_at P ?a = ins_at p4 ?a" using agrees_at [OF P, of ?a] le le4 by simp
      also have "\<dots> = ins_at p3 ?a" using agrees_at [OF e34, of ?a] le pc3 by simp
      also have "\<dots> = (ins_at p1 ?a)\<lparr>i_y := ?m + 1\<rparr>" using i3 [of ?a] le by simp
      also have "ins_at p1 ?a = ins_at (split_at p) ?a" using agrees_at [OF emits_extends [OF assms(1)], of ?a] S(2) by simp
      finally show ?thesis using S(3) by simp
    qed
    have body: "seg P line (?a + 1) ?m L" using emits_seg [OF assms(1)] P1 S(2) by simp
    have rest: "seg P line (?m + 1) (pc_of p4) M"
    proof -
      have "agrees (?m + 1) (set js) p4 P"
        by (rule agrees_trans [OF agrees_refl [of "?m + 1" "{}"] P]) (use le in auto)
      then show ?thesis using assms(3) F by (simp add: emits_open_def pc3)
    qed
    have "in_range ?a (pg_code P)" "in_range ?m (pg_code P)" using le le4 by (auto intro: in_range_pc [OF P])
    then show "seg P line ?a (pc_of p4) (\<lambda>s. L s \<or> M s)"
      using seg_alt [OF _ _ _ _ body _ _ _ rest] a F by (simp add: jump_to_def)
  qed
qed


lemma emits_patched:
  assumes "emits_open F K p q L" and "patched K f q r"
    and "\<And>k. k \<in> set K \<Longrightarrow> F k (f (ins_at q k))"
  shows "emits p r L"
  unfolding emits_def
proof (intro conjI allI impI)
  have q: "extends p q" "\<And>k. k \<in> set K \<Longrightarrow> pc_of p \<le> k \<and> k < pc_of q" using assms(1) by (auto simp: emits_open_def)
  have r: "pc_of r = pc_of q" "\<And>k. 0 \<le> k \<Longrightarrow> ins_at r k = (if k \<in> set K then f (ins_at q k) else ins_at q k)"
    using assms(2) by (simp_all add: patched_def)
  note qr = patched_agrees [OF assms(2)]
  show "extends p r" by (rule agrees_trans [OF q(1) qr]) (use q(2) in force)+
  fix P line
  assume P: "agrees (pc_of p) {} r P"
  have "agrees (pc_of p) (set K) q P" by (rule agrees_trans [OF qr P]) auto
  moreover have "\<forall>k \<in> set K. F k (ins_at P k)"
  proof
    fix k
    assume k: "k \<in> set K"
    then have b: "pc_of p \<le> k" "k < pc_of r" using q(2) r(1) by auto
    then have "ins_at P k = f (ins_at q k)"
      using agrees_at [OF P b] r(2) [of k] k order_trans [OF pc_of_nonneg b(1)] by simp
    then show "F k (ins_at P k)" using assms(3) [OF k] by simp
  qed
  ultimately show "seg P line (pc_of p) (pc_of r) L" using assms(1) r(1) by (simp add: emits_open_def)
qed

lemma option_more:
  assumes "emits (split_at p) p1 L" and "emits_open (exit_to (pc_of p2)) es p1 p2 (\<lambda>s. \<exists>k \<le> m. times_of L k s)"
  shows "emits_open (exit_to (pc_of p2)) (pc_of p # es) p p2 (\<lambda>s. \<exists>k \<le> Suc m. times_of L k s)"
proof -
  let ?a = "pc_of p" and ?m = "pc_of p1"
  note S = split_at_facts [of p]
  have le: "?a + 1 \<le> ?m" using emits_le [OF assms(1)] S(2) by simp
  have e1: "extends p p1" by (rule agrees_trans [OF S(1) emits_extends [OF assms(1)]]) simp_all
  have e12: "extends p1 p2" using assms(2) by (simp add: emits_open_def)
  have J: "distinct es" "\<And>k. k \<in> set es \<Longrightarrow> ?m \<le> k \<and> k < pc_of p2" using assms(2) by (auto simp: emits_open_def)
  have le2: "?m \<le> pc_of p2" using agrees_le [OF e12] by simp
  show ?thesis
    unfolding emits_open_def
  proof (intro conjI allI impI)
    show "extends p p2" by (rule agrees_trans [OF e1 e12]) simp_all
    show "distinct (?a # es)" using J le by force
    show "\<forall>k \<in> set (?a # es). ?a \<le> k \<and> k < pc_of p2" using J le le2 by force
    fix P line
    assume P: "agrees ?a (set (?a # es)) p2 P" and F: "\<forall>k \<in> set (?a # es). exit_to (pc_of p2) k (ins_at P k)"
    have "agrees (?a + 1) {} p1 P"
    proof (rule agrees_trans [OF e12 P])
      show "k \<notin> {} \<and> k \<notin> set (?a # es)" if "?a + 1 \<le> k" "k < ?m" "k \<notin> {}" for k using that J(2) [of k] by auto
    qed auto
    then have body: "seg P line (?a + 1) ?m L" using emits_seg [OF assms(1)] S(2) by simp
    have "agrees ?m (set es) p2 P"
      by (rule agrees_trans [OF agrees_refl [of "?m" "{}"] P]) (use le in auto)
    then have rest: "seg P line ?m (pc_of p2) (\<lambda>s. \<exists>k \<le> m. times_of L k s)"
      using assms(2) F by (simp add: emits_open_def)
    have "in_range ?a (pg_code P)" using le le2 by (auto intro: in_range_pc [OF P])
    then show "seg P line ?a (pc_of p2) (\<lambda>s. \<exists>k \<le> Suc m. times_of L k s)"
      using seg_option [OF _ _ _ _ body rest] F by (simp add: exit_to_def)
  qed
qed

lemma option_none: "emits_open F [] p p (\<lambda>s. \<exists>k \<le> 0. times_of L k s)"
  using emits_open_one [OF emits_nothing] by simp

lemma emits_loop:
  assumes "emits (split_at p) p3 L" and "p4 = emit Jump (pc_of p) 0 p3"
  shows "emits p (patch_y (pc_of p) (pc_of p4) p4) (\<lambda>s. \<exists>k. times_of L k s)"
proof -
  let ?a = "pc_of p" and ?m = "pc_of p3" and ?q = "patch_y (pc_of p) (pc_of p4) p4"
  note S = split_at_facts [of p]
  have le: "?a + 1 \<le> ?m" using emits_le [OF assms(1)] S(2) by simp
  have pc: "pc_of ?q = ?m + 1" by (simp add: assms(2))
  have iq: "0 \<le> k \<Longrightarrow> k < ?m + 1 \<Longrightarrow> ins_at ?q k =
      (if k = ?a then (ins_at p3 k)\<lparr>i_y := ?m + 1\<rparr> else if k = ?m then \<lparr>i_op = Jump, i_x = ?a, i_y = 0\<rparr> else ins_at p3 k)" for k
    using le by (auto simp: assms(2) ins_at_patch_y ins_at_emit)
  have e1: "extends p p3" by (rule agrees_trans [OF S(1) emits_extends [OF assms(1)]]) simp_all
  have e3: "agrees 0 {?a} p3 ?q" using le iq by (auto simp: agrees_def pc assms(2))
  show ?thesis
    unfolding emits_def
  proof (intro conjI allI impI)
    show "extends p ?q" by (rule agrees_trans [OF e1 e3]) auto
    fix P line
    assume P: "agrees ?a {} ?q P"
    have "agrees (?a + 1) {} p3 P" by (rule agrees_trans [OF e3 P]) auto
    then have body: "seg P line (?a + 1) ?m L" using emits_seg [OF assms(1)] S(2) by simp
    have "ins_at p3 ?a = ins_at (split_at p) ?a" using agrees_at [OF emits_extends [OF assms(1)], of ?a] S(2) by simp
    then have a: "ins_at P ?a = \<lparr>i_op = Split, i_x = ?a + 1, i_y = ?m + 1\<rparr>"
      using agrees_at [OF P, of ?a] iq [of ?a] le pc S(3) by simp
    have m: "ins_at P ?m = \<lparr>i_op = Jump, i_x = ?a, i_y = 0\<rparr>"
      using agrees_at [OF P, of ?m] iq [of ?m] le pc by simp
    have "in_range ?a (pg_code P)" "in_range ?m (pg_code P)" using le pc by (auto intro: in_range_pc [OF P])
    then show "seg P line ?a (pc_of ?q) (\<lambda>s. \<exists>k. times_of L k s)"
      using seg_loop [OF _ _ _ _ body] a m pc by simp
  qed
qed

section \<open>The compiler\<close>

definition lang :: "grammar \<Rightarrow> int \<Rightarrow> string \<Rightarrow> bool" where
  "lang g i s \<longleftrightarrow> (\<exists>cs. yields g i s cs)"

definition lang_seq :: "grammar \<Rightarrow> int list \<Rightarrow> string \<Rightarrow> bool" where
  "lang_seq g js s \<longleftrightarrow> (\<exists>cs. yields_seq g js s cs)"

lemma lang_seq_simps:
  "lang_seq g [] s \<longleftrightarrow> s = []"
  "lang_seq g (j # js) s \<longleftrightarrow> (\<exists>s1 s2. s = s1 @ s2 \<and> lang g j s1 \<and> lang_seq g js s2)"
  by (auto simp: lang_seq_def lang_def yields_seq_Cons) blast

lemma times_of_lang: "times_of (lang g j) m s \<longleftrightarrow> (\<exists>cs. yields_times g j m s cs)"
proof (induction m arbitrary: s)
  case (Suc m)
  have "times_of (lang g j) (Suc m) s \<longleftrightarrow>
      (\<exists>s1 s2. s = s1 @ s2 \<and> (\<exists>c1. yields g j s1 c1) \<and> (\<exists>c2. yields_times g j m s2 c2))"
    by (simp only: times_of.simps Suc lang_def)
  also have "\<dots> \<longleftrightarrow> (\<exists>cs. yields_times g j (Suc m) s cs)"
    by (metis yields_times_Suc)
  finally show ?case .
qed (auto intro: times_zero)

lemma times_of_add:
  "times_of L (a + b) s \<longleftrightarrow> (\<exists>s1 s2. s = s1 @ s2 \<and> times_of L a s1 \<and> times_of L b s2)"
proof (induction a arbitrary: s)
  case (Suc a)
  show ?case
  proof
    assume "times_of L (Suc a + b) s"
    then obtain s1 s2 s3 where "s = s1 @ s2 @ s3" "L s1" "times_of L a s2" "times_of L b s3" by (auto simp: Suc)
    then have "s = (s1 @ s2) @ s3" "times_of L (Suc a) (s1 @ s2)" "times_of L b s3" by auto
    then show "\<exists>s1 s2. s = s1 @ s2 \<and> times_of L (Suc a) s1 \<and> times_of L b s2" by blast
  next
    assume "\<exists>s1 s2. s = s1 @ s2 \<and> times_of L (Suc a) s1 \<and> times_of L b s2"
    then obtain s1 s2 s3 where "s = s1 @ s2 @ s3" "L s1" "times_of L a s2" "times_of L b s3" by auto
    then show "times_of L (Suc a + b) s" by (auto simp: Suc)
  qed
qed simp

lemma lang_repetition:
  "n_kind (node g i) = Repetition \<Longrightarrow>
   lang g i s \<longleftrightarrow> (\<exists>m. times_ok (node g i) m \<and> times_of (lang g (child g (n_first (node g i)))) m s)"
  by (auto simp: lang_def yields_repetition iterates_def times_of_lang)

lemma emitted_stretch:
  "grammar_wf g \<Longrightarrow> emitNode g compiling i p = Emitted q \<Longrightarrow> emits p q (lang g i)"
  "grammar_wf g \<Longrightarrow> n_kind (node g i) = Repetition \<Longrightarrow> emitRepetition g compiling i p = Emitted q \<Longrightarrow> emits p q (lang g i)"
  "grammar_wf g \<Longrightarrow> emitBody g compiling i j m p = Emitted q \<Longrightarrow> emits p q (times_of (lang g j) m)"
  "grammar_wf g \<Longrightarrow> emitOptional g compiling i j m p = Emitted (es, q) \<Longrightarrow>
     emits_open (exit_to (pc_of q)) es p q (\<lambda>s. \<exists>k \<le> m. times_of (lang g j) k s) \<and>
     (\<forall>e \<in> set es. i_op (ins_at q e) = Split \<and> i_x (ins_at q e) = e + 1)"
  "grammar_wf g \<Longrightarrow> emitSequence g compiling i js p = Emitted q \<Longrightarrow> emits p q (lang_seq g js)"
  "grammar_wf g \<Longrightarrow> js \<noteq> [] \<Longrightarrow> emitAlternatives g compiling i js p = Emitted (es, q) \<Longrightarrow>
     emits_open (jump_to (pc_of q)) es p q (\<lambda>s. \<exists>j \<in> set js. lang g j s) \<and>
     (\<forall>e \<in> set es. i_op (ins_at q e) = Jump)"
  "grammar_wf g \<Longrightarrow> emitInline g compiling i j p = Emitted q \<Longrightarrow> emits p q (lang g j)"
proof (induction g compiling i p and g compiling i p and g compiling i j m p and g compiling i j m p
    and g compiling i js p and g compiling i js p and g compiling i j p
    arbitrary: q and q and q and es q and q and es q and q
    rule: emitNode_emitRepetition_emitBody_emitOptional_emitSequence_emitAlternatives_emitInline.induct)
  case (1 g compiling i p)
  let ?n = "node g i"
  have r: "\<not> \<not> in_range i (g_nodes g)"
  proof
    assume "\<not> in_range i (g_nodes g)"
    then show False using "1.prems"(2) unfolding emitNode.simps [of g compiling i p] by simp
  qed
  note em = "1.prems"(2) [unfolded emitNode.simps [of g compiling i p] if_not_P [OF r]]
  show ?case
  proof (cases "isSingleOctet g [] i")
    case True
    then obtain ok bits where b: "buildClass g [] i no_octets = Some (ok, bits)" using em by (auto split: option.splits)
    have "ok \<and> length bits = 32 \<and> (\<forall>c. inClass bits c \<longleftrightarrow> octetMatches g [] i c \<or> inClass no_octets c)"
      by (rule buildClass_bits(1) [OF True _ b]) simp
    then have "q = emitClass bits p" "\<And>c. inClass bits c \<longleftrightarrow> octetMatches g [] i c" using em True b by auto
    then show ?thesis using emits_class [of p bits] single_octet_yields [OF True]
      by (auto simp: lang_def elim!: emits_iff)
  next
    case False
    then have sel: "(if isSingleOctet g [] i then buildClass g [] i no_octets else Some (False, no_octets)) = Some (False, no_octets)"
      by simp
    note em = em [unfolded sel option.case prod.case if_False Let_def]
    note IH = "1.IH" [OF r sel refl _ refl]
    show ?thesis
    proof (cases "n_kind ?n")
      case Reference
      have no: "\<not> ruleRoot g (n_lo ?n) = kNoRule" "\<not> n_lo ?n \<in> set compiling"
        using em Reference by (auto simp: compile_fail_def split: if_splits)
      have L: "lang g i s \<longleftrightarrow> lang g (ruleRoot g (n_lo ?n)) s" for s
        using no(1) by (auto simp: lang_def yields_reference [OF Reference])
      show ?thesis
      proof (cases "n_capture ?n = kNoCapture")
        case True
        then have "emits p q (lang g (ruleRoot g (n_lo ?n)))"
          using em Reference no IH(1) [OF _ Reference no True "1.prems"(1)] by simp
        then show ?thesis by (rule emits_iff) (simp add: L)
      next
        case cap: False
        let ?slot = "int (length (pg_slotCapture p))"
        let ?p1 = "emit Save (?slot * 2) 0 (p\<lparr>pg_slotCapture := pg_slotCapture p @ [n_capture ?n]\<rparr>)"
        obtain p2 where p2: "emitNode g (n_lo ?n # compiling) (ruleRoot g (n_lo ?n)) ?p1 = Emitted p2"
            "q = emit Save (?slot * 2 + 1) 0 p2"
          using em Reference no cap by (auto simp: and_then_Emitted)
        have "emits ?p1 p2 (lang g (ruleRoot g (n_lo ?n)))"
          using IH(2) [OF _ Reference no cap refl refl "1.prems"(1) p2(1)] by simp
        moreover have "emits p2 q (\<lambda>s. s = [])" using emits_save [of p2 _ "pg_slotCapture p2"] p2(2) by simp
        ultimately have "emits p q (\<lambda>s. \<exists>s1 s2. s = s1 @ s2 \<and> s1 = [] \<and> (\<exists>s3 s4. s2 = s3 @ s4 \<and> lang g (ruleRoot g (n_lo ?n)) s3 \<and> s4 = []))"
          by (intro emits_seq [OF emits_save emits_seq])
        then show ?thesis by (rule emits_iff) (simp add: L)
      qed
    next
      case Literal
      then have "emitLiteral (literal g (n_literal ?n)) p = Emitted q" using em by simp
      then show ?thesis using emits_literal by (auto simp: lang_def yields_literal [OF Literal] elim!: emits_iff)
    next
      case OctetRange
      then have "isSingleOctet g [] i" using r by (simp add: isSingleOctet.simps [of g "[]" i])
      then show ?thesis using False by simp
    next
      case Sequence
      then have "emits p q (lang_seq g (kids g ?n))" using em IH(3) [OF _ Sequence "1.prems"(1)] by simp
      then show ?thesis by (rule emits_iff) (simp add: lang_def lang_seq_def yields_sequence [OF Sequence])
    next
      case Alternation
      then obtain js q1 where q1: "emitAlternatives g compiling i (kids g ?n) p = Emitted (js, q1)"
          "q = patch_all_x js (pc_of q1) q1"
        using em by (auto simp: and_then_Emitted)
      have "kids g ?n \<noteq> []" using wf_node [OF "1.prems"(1), of i] r Alternation by (auto simp: node_wf_def kids_def)
      then have o: "emits_open (jump_to (pc_of q1)) js p q1 (\<lambda>s. \<exists>j \<in> set (kids g ?n). lang g j s)"
          "\<forall>e \<in> set js. i_op (ins_at q1 e) = Jump"
        using IH(4) [OF _ Alternation "1.prems"(1) _ q1(1)] by simp_all
      have "distinct js" "\<forall>k \<in> set js. 0 \<le> k \<and> k < pc_of q1"
        using o(1) order_trans [OF pc_of_nonneg] by (auto simp: emits_open_def)
      then have "patched js (\<lambda>i. i\<lparr>i_x := pc_of q1\<rparr>) q1 q" unfolding q1(2) by (rule patch_all_x_patched)
      from emits_patched [OF o(1) this] have "emits p q (\<lambda>s. \<exists>j \<in> set (kids g ?n). lang g j s)"
        using o(2) by (simp add: jump_to_def)
      then show ?thesis by (rule emits_iff) (auto simp: lang_def yields_alternation [OF Alternation])
    next
      case Repetition
      then show ?thesis using em IH(5) [OF _ Repetition "1.prems"(1) Repetition] by simp
    qed
  qed
next
  case (2 g compiling i p)
  let ?n = "node g i" and ?j = "child g (n_first (node g i))"
  let ?least = "max 0 (n_lo ?n)"
  obtain p1 where p1: "emitBody g compiling i ?j (nat ?least) p = Emitted p1"
    using "2.prems"(3) by (auto simp: emitRepetition.simps [of g compiling i p] Let_def and_then_Emitted)
  note em = "2.prems"(3) [unfolded emitRepetition.simps [of g compiling i p] Let_def p1 and_then_simps]
  have body: "emits p p1 (times_of (lang g ?j) (nat ?least))" by (rule "2.IH"(1) [OF refl refl refl "2.prems"(1) p1])
  note IH = "2.IH"(2-) [OF refl refl refl p1]
  show ?case
  proof (cases "n_hi ?n = kUnbounded")
    case True
    then obtain h where h: "hasCapture g [] ?j = Some h" "\<not> h"
      using em by (auto simp: compile_fail_def split: option.splits if_splits)
    obtain p3 where p3: "emitInline g compiling i ?j (split_at p1) = Emitted p3"
        "q = patch_y (pc_of p1) (pc_of (emit Jump (pc_of p1) 0 p3)) (emit Jump (pc_of p1) 0 p3)"
      using em True h by (auto simp: and_then_Emitted)
    have "emits (split_at p1) p3 (lang g ?j)"
      using IH(1) [OF True h refl refl "2.prems"(1) p3(1)] .
    from emits_seq [OF body emits_loop [OF this refl]] show ?thesis
      unfolding p3(2)
    proof (rule emits_iff)
      fix s
      have "(\<exists>m. times_ok ?n m \<and> times_of (lang g ?j) m s) \<longleftrightarrow> (\<exists>k. times_of (lang g ?j) (nat ?least + k) s)"
        using True unfolding times_ok_def
        by (metis le_add1 le_add_diff_inverse max.bounded_iff nat_le_iff of_nat_0_le_iff)
      then show "(\<exists>s1 s2. s = s1 @ s2 \<and> times_of (lang g ?j) (nat ?least) s1 \<and> (\<exists>k. times_of (lang g ?j) k s2)) \<longleftrightarrow> lang g i s"
        unfolding lang_repetition [OF "2.prems"(2)] times_of_add by blast
    qed
  next
    case False
    then have b: "\<not> n_hi ?n - ?least < 0" "\<not> kUnrollLimit < n_hi ?n - ?least"
      using em by (auto simp: compile_fail_def split: if_splits)
    obtain es p2 where p2: "emitOptional g compiling i ?j (nat (n_hi ?n - ?least)) p1 = Emitted (es, p2)"
        "q = patch_all_y es (pc_of p2) p2"
      using em False b by (auto simp: and_then_Emitted)
    have o: "emits_open (exit_to (pc_of p2)) es p1 p2 (\<lambda>s. \<exists>k \<le> nat (n_hi ?n - ?least). times_of (lang g ?j) k s)"
        "\<forall>e \<in> set es. i_op (ins_at p2 e) = Split \<and> i_x (ins_at p2 e) = e + 1"
      using IH(2) [OF False b "2.prems"(1) p2(1)] by simp_all
    have "distinct es" "\<forall>k \<in> set es. 0 \<le> k \<and> k < pc_of p2"
      using o(1) order_trans [OF pc_of_nonneg] by (auto simp: emits_open_def)
    then have "patched es (\<lambda>i. i\<lparr>i_y := pc_of p2\<rparr>) p2 q" unfolding p2(2) by (rule patch_all_y_patched)
    from emits_patched [OF o(1) this] have "emits p1 q (\<lambda>s. \<exists>k \<le> nat (n_hi ?n - ?least). times_of (lang g ?j) k s)"
      using o(2) by (simp add: exit_to_def)
    from emits_seq [OF body this] show ?thesis
    proof (rule emits_iff)
      fix s
      have "times_ok ?n m \<longleftrightarrow> (\<exists>k \<le> nat (n_hi ?n - ?least). m = nat ?least + k)" for m
        using False b(1) by (auto simp: times_ok_def intro!: exI [of _ "m - nat ?least"])
      then have "(\<exists>m. times_ok ?n m \<and> times_of (lang g ?j) m s) \<longleftrightarrow>
          (\<exists>k \<le> nat (n_hi ?n - ?least). times_of (lang g ?j) (nat ?least + k) s)" by auto
      then show "(\<exists>s1 s2. s = s1 @ s2 \<and> times_of (lang g ?j) (nat ?least) s1 \<and>
          (\<exists>k \<le> nat (n_hi ?n - ?least). times_of (lang g ?j) k s2)) \<longleftrightarrow> lang g i s"
        unfolding lang_repetition [OF "2.prems"(2)] times_of_add by blast
    qed
  qed
next
  case (3 g compiling i j p)
  then show ?case using emits_nothing by simp
next
  case (4 g compiling i j m p)
  then obtain p1 where "emitInline g compiling i j p = Emitted p1" "emitBody g compiling i j m p1 = Emitted q"
    by (auto simp: and_then_Emitted)
  from emits_seq [OF "4.IH"(1) [OF "4.prems"(1) this(1)] "4.IH"(2) [OF this(1) "4.prems"(1) this(2)]]
  show ?case by simp
next
  case (5 g compiling i j p)
  then show ?case using option_none by simp
next
  case (6 g compiling i j m p)
  obtain p1 es' where p1: "emitInline g compiling i j (split_at p) = Emitted p1"
      "emitOptional g compiling i j m p1 = Emitted (es', q)" "es = pc_of p # es'"
    using "6.prems"(2) by (auto simp: Let_def and_then_Emitted)
  have e: "emits (split_at p) p1 (lang g j)" by (rule "6.IH"(1) [OF refl "6.prems"(1) p1(1)])
  have o: "emits_open (exit_to (pc_of q)) es' p1 q (\<lambda>s. \<exists>k \<le> m. times_of (lang g j) k s)"
      "\<forall>e \<in> set es'. i_op (ins_at q e) = Split \<and> i_x (ins_at q e) = e + 1"
    using "6.IH"(2) [OF refl p1(1) "6.prems"(1) p1(2)] by simp_all
  have "extends p1 q" using o(1) by (simp add: emits_open_def)
  then have "ins_at q (pc_of p) = ins_at (split_at p) (pc_of p)"
    using agrees_at [of 0 "{}" p1 q "pc_of p"] agrees_at [OF emits_extends [OF e], of "pc_of p"] emits_le [OF e]
    by (simp add: split_at_facts(2))
  then show ?case using option_more [OF e o(1)] o(2) p1(3) by (simp add: split_at_facts(3))
next
  case (7 g compiling i p)
  then show ?case using emits_nothing by (simp add: lang_seq_simps)
next
  case (8 g compiling i j js p)
  then obtain p1 where "emitInline g compiling i j p = Emitted p1" "emitSequence g compiling i js p1 = Emitted q"
    by (auto simp: and_then_Emitted)
  from emits_seq [OF "8.IH"(1) [OF "8.prems"(1) this(1)] "8.IH"(2) [OF this(1) "8.prems"(1) this(2)]]
  show ?case by (rule emits_iff) (simp add: lang_seq_simps)
next
  case (9 g compiling i p)
  then show ?case by simp
next
  case (10 g compiling i j js p)
  show ?case
  proof (cases "js = []")
    case True
    then have "emitInline g compiling i j p = Emitted q" "es = []" using "10.prems"(3) by (auto simp: and_then_Emitted)
    then show ?thesis using "10.IH"(1) [OF True "10.prems"(1)] True emits_open_one by simp
  next
    case False
    then obtain p1 js' where p1: "emitInline g compiling i j (split_at p) = Emitted p1"
        "emitAlternatives g compiling i js (patch_y (pc_of p) (pc_of p1 + 1) (emit Jump 0 0 p1)) = Emitted (js', q)"
        "es = pc_of p1 # js'"
      using "10.prems"(3) by (auto simp: Let_def and_then_Emitted)
    let ?p3 = "patch_y (pc_of p) (pc_of p1 + 1) (emit Jump 0 0 p1)"
    have e: "emits (split_at p) p1 (lang g j)" by (rule "10.IH"(2) [OF False refl "10.prems"(1) p1(1)])
    have o: "emits_open (jump_to (pc_of q)) js' ?p3 q (\<lambda>s. \<exists>j \<in> set js. lang g j s)"
        "\<forall>e \<in> set js'. i_op (ins_at q e) = Jump"
      using "10.IH"(3) [OF False refl p1(1) refl refl refl "10.prems"(1) False] p1(2) by simp_all
    have "extends ?p3 q" using o(1) by (simp add: emits_open_def)
    moreover have "pc_of p < pc_of p1" using emits_le [OF e] by simp
    ultimately have "i_op (ins_at q (pc_of p1)) = Jump"
      using agrees_at [of 0 "{}" ?p3 q "pc_of p1"] by (simp add: ins_at_patch_y ins_at_emit)
    then show ?thesis using alternatives_more [OF e refl o(1)] o(2) p1(3) by simp
  qed
next
  case (11 g compiling i j p)
  then show ?case by (auto simp: emitInline.simps [of g compiling i j p] split: if_splits)
qed

end
