(* ===== verification/Compiler_Ranges.thy ===== *)
theory Compiler_Ranges
  imports Compiler_Correct
begin

text \<open>
  The addresses, classes and slots of a compiled program are in range, the one \<open>Match\<close> is its
  last instruction, and the machine that runs it never leaves it.
\<close>

section \<open>Operands in range\<close>

definition ins_ok :: "program \<Rightarrow> instruction \<Rightarrow> bool" where
  "ins_ok p i \<longleftrightarrow>
     (case i_op i of
        Class \<Rightarrow> 0 \<le> i_x i \<and> i_x i < int (length (pg_classes p))
      | Split \<Rightarrow> 0 \<le> i_x i \<and> i_x i \<le> pc_of p \<and> 0 \<le> i_y i \<and> i_y i \<le> pc_of p
      | Jump \<Rightarrow> 0 \<le> i_x i \<and> i_x i \<le> pc_of p
      | Save \<Rightarrow> 0 \<le> i_x i \<and> i_x i < 2 * int (length (pg_slotCapture p))
      | Match \<Rightarrow> False)"

definition code_ok :: "grammar \<Rightarrow> program \<Rightarrow> bool" where
  "code_ok g p \<longleftrightarrow> (\<forall>i \<in> set (pg_code p). ins_ok p i) \<and> (\<forall>b \<in> set (pg_classes p). length b = 32) \<and>
     (\<forall>c \<in> set (pg_slotCapture p). in_range c (g_captureNames g))"

definition grows :: "program \<Rightarrow> program \<Rightarrow> bool" where
  "grows p q \<longleftrightarrow> pc_of p \<le> pc_of q \<and> length (pg_classes p) \<le> length (pg_classes q) \<and>
     length (pg_slotCapture p) \<le> length (pg_slotCapture q)"

lemma grows_refl [simp]: "grows p p"
  by (simp add: grows_def)

lemma grows_trans: "grows p q \<Longrightarrow> grows q r \<Longrightarrow> grows p r"
  by (simp add: grows_def)

lemma ins_ok_grows: "ins_ok p i \<Longrightarrow> grows p q \<Longrightarrow> ins_ok q i"
  by (auto simp: ins_ok_def grows_def split: op.splits)

lemma code_ok_emit:
  assumes "code_ok g p" and "ins_ok (emit oper x y p) \<lparr>i_op = oper, i_x = x, i_y = y\<rparr>"
  shows "code_ok g (emit oper x y p)" "grows p (emit oper x y p)"
proof -
  show g: "grows p (emit oper x y p)" by (simp add: grows_def emit_def pc_of_def)
  show "code_ok g (emit oper x y p)"
    using assms ins_ok_grows [OF _ g] by (auto simp: code_ok_def emit_def)
qed

lemma code_ok_patch:
  assumes "code_ok g p" and "0 \<le> x" and "x \<le> pc_of p" and "0 \<le> pc" and "pc < pc_of p"
    and "i_op (ins_at p pc) = Split \<or> i_op (ins_at p pc) = Jump"
  shows "code_ok g (patch_x pc x p)" "code_ok g (patch_y pc x p)" "grows p (patch_x pc x p)" "grows p (patch_y pc x p)"
proof -
  show gx: "grows p (patch_x pc x p)" "grows p (patch_y pc x p)" by (simp_all add: grows_def patch_x_def patch_y_def pc_of_def)
  have i: "ins_ok p (pg_code p ! nat pc)" using assms(1,4,5) by (auto simp: code_ok_def pc_of_def)
  have "ins_ok p ((pg_code p ! nat pc)\<lparr>i_x := x\<rparr>)" "ins_ok p ((pg_code p ! nat pc)\<lparr>i_y := x\<rparr>)"
    using i assms(2,3,6) by (auto simp: ins_ok_def ins_at_def split: op.splits)
  then show "code_ok g (patch_x pc x p)" "code_ok g (patch_y pc x p)"
    using assms(1) ins_ok_grows [OF _ gx(1)] ins_ok_grows [OF _ gx(2)]
    by (auto simp: code_ok_def patch_x_def patch_y_def dest!: set_update_subset_insert [THEN subsetD])
qed

lemma code_ok_class:
  assumes "code_ok g p" and "length bits = 32"
  shows "code_ok g (emitClass bits p) \<and> grows p (emitClass bits p)"
proof -
  obtain k q where q: "addClass bits p = (k, q)" by (cases "addClass bits p")
  note A = addClass_spec [OF q]
  have g: "grows p q" using q by (auto simp: grows_def addClass_def pc_of_def split: if_splits)
  have "code_ok g q"
    using assms q A(5) ins_ok_grows [OF _ g] by (auto simp: code_ok_def addClass_def split: if_splits)
  moreover have "ins_ok (emit Class k 0 q) \<lparr>i_op = Class, i_x = k, i_y = 0\<rparr>"
    using A(1,2) by (simp add: ins_ok_def)
  ultimately have "code_ok g (emit Class k 0 q) \<and> grows q (emit Class k 0 q)" using code_ok_emit by blast
  then show ?thesis using g grows_trans [OF g] by (simp add: emitClass_def q)
qed

lemma code_ok_octets:
  "code_ok g p \<Longrightarrow> emitOctets cs p = Emitted q \<Longrightarrow> code_ok g q \<and> grows p q"
  using code_ok_class setBits_lookup [of no_octets cs] by (auto simp: emitOctets_def split: option.splits)

lemma code_ok_literal:
  "code_ok g p \<Longrightarrow> emitLiteral x p = Emitted q \<Longrightarrow> code_ok g q \<and> grows p q"
proof (induction x arbitrary: p)
  case (Cons c x)
  then obtain p1 where "emitOctets [octet (fold_char c), octet (upper_of (fold_char c))] p = Emitted p1" "emitLiteral x p1 = Emitted q"
    by (auto simp: and_then_Emitted)
  then show ?case using Cons code_ok_octets [OF Cons.prems(1)] grows_trans by blast
qed simp

lemma code_ok_split:
  "code_ok g p \<Longrightarrow> code_ok g (split_at p) \<and> grows p (split_at p)"
proof -
  assume p: "code_ok g p"
  have "ins_ok (emit Split 0 0 p) \<lparr>i_op = Split, i_x = 0, i_y = 0\<rparr>" by (simp add: ins_ok_def)
  from code_ok_emit [OF p this] have e: "code_ok g (emit Split 0 0 p)" "grows p (emit Split 0 0 p)" .
  have "code_ok g (split_at p)" "grows (emit Split 0 0 p) (split_at p)"
    using code_ok_patch [OF e(1), of "pc_of p + 1" "pc_of p"] by (simp_all add: ins_at_emit)
  then show ?thesis using e grows_trans by blast
qed

lemma code_ok_jump:
  "code_ok g p \<Longrightarrow> 0 \<le> x \<Longrightarrow> x \<le> pc_of p \<Longrightarrow> code_ok g (emit Jump x 0 p) \<and> grows p (emit Jump x 0 p)"
  using code_ok_emit [of g p Jump x 0] by (simp add: ins_ok_def)

lemma code_ok_save:
  assumes "code_ok g p" and "0 \<le> x" and "x < 2 * int (length xs)" and "length (pg_slotCapture p) \<le> length xs"
    and "\<forall>c \<in> set xs. in_range c (g_captureNames g)"
  shows "code_ok g (emit Save x 0 (p\<lparr>pg_slotCapture := xs\<rparr>)) \<and> grows p (emit Save x 0 (p\<lparr>pg_slotCapture := xs\<rparr>))"
proof -
  let ?p = "p\<lparr>pg_slotCapture := xs\<rparr>"
  have g: "grows p ?p" using assms(4) by (simp add: grows_def pc_of_def)
  have "code_ok g ?p" using assms ins_ok_grows [OF _ g] by (auto simp: code_ok_def)
  moreover have "ins_ok (emit Save x 0 ?p) \<lparr>i_op = Save, i_x = x, i_y = 0\<rparr>" using assms by (simp add: ins_ok_def emit_def)
  ultimately have "code_ok g (emit Save x 0 ?p) \<and> grows ?p (emit Save x 0 ?p)" using code_ok_emit by blast
  then show ?thesis using g grows_trans by blast
qed

lemma code_ok_patched:
  assumes "code_ok g p" and "0 \<le> x" and "x \<le> pc_of p"
    and "\<forall>k \<in> set pcs. 0 \<le> k \<and> k < pc_of p \<and> (i_op (ins_at p k) = Split \<or> i_op (ins_at p k) = Jump)"
  shows "code_ok g (patch_all_x pcs x p) \<and> grows p (patch_all_x pcs x p)"
    "code_ok g (patch_all_y pcs x p) \<and> grows p (patch_all_y pcs x p)"
proof -
  have "code_ok g (patch_all_x pcs x p) \<and> grows p (patch_all_x pcs x p) \<and> code_ok g (patch_all_y pcs x p) \<and> grows p (patch_all_y pcs x p)"
    if "code_ok g p" "x \<le> pc_of p" "\<forall>k \<in> set pcs. 0 \<le> k \<and> k < pc_of p \<and> (i_op (ins_at p k) = Split \<or> i_op (ins_at p k) = Jump)" for p
    using that
  proof (induction pcs arbitrary: p)
    case (Cons k pcs)
    then have k: "0 \<le> k" "k < pc_of p" "i_op (ins_at p k) = Split \<or> i_op (ins_at p k) = Jump" by simp_all
    note K = code_ok_patch [OF Cons.prems(1) assms(2) Cons.prems(2) k]
    have X: "i_op (ins_at (patch_x k x p) j) = i_op (ins_at p j)" "i_op (ins_at (patch_y k x p) j) = i_op (ins_at p j)" if "0 \<le> j" for j
      using that k by (simp_all add: ins_at_patch_x ins_at_patch_y)
    have "code_ok g (patch_all_x pcs x (patch_x k x p)) \<and> grows (patch_x k x p) (patch_all_x pcs x (patch_x k x p))"
      using Cons.IH [of "patch_x k x p"] K(1) Cons.prems X by simp
    moreover have "code_ok g (patch_all_y pcs x (patch_y k x p)) \<and> grows (patch_y k x p) (patch_all_y pcs x (patch_y k x p))"
      using Cons.IH [of "patch_y k x p"] K(2) Cons.prems X by simp
    ultimately show ?case using K(3,4) grows_trans by (auto simp: patch_all_x_def patch_all_y_def)
  qed (simp add: patch_all_x_def patch_all_y_def)
  from this [OF assms(1,3,4)] show "code_ok g (patch_all_x pcs x p) \<and> grows p (patch_all_x pcs x p)"
      "code_ok g (patch_all_y pcs x p) \<and> grows p (patch_all_y pcs x p)" by simp_all
qed

lemma open_addresses:
  assumes "emits_open F K p q L"
  shows "\<forall>k \<in> set K. 0 \<le> k \<and> k < pc_of q"
  using assms order_trans [OF pc_of_nonneg] by (auto simp: emits_open_def)

lemma emitted_ok:
  "grammar_wf g \<Longrightarrow> code_ok g p \<Longrightarrow> emitNode g compiling i p = Emitted q \<Longrightarrow> code_ok g q \<and> grows p q"
  "grammar_wf g \<Longrightarrow> code_ok g p \<Longrightarrow> emitRepetition g compiling i p = Emitted q \<Longrightarrow> code_ok g q \<and> grows p q"
  "grammar_wf g \<Longrightarrow> code_ok g p \<Longrightarrow> emitBody g compiling i j m p = Emitted q \<Longrightarrow> code_ok g q \<and> grows p q"
  "grammar_wf g \<Longrightarrow> code_ok g p \<Longrightarrow> emitOptional g compiling i j m p = Emitted (es, q) \<Longrightarrow> code_ok g q \<and> grows p q"
  "grammar_wf g \<Longrightarrow> code_ok g p \<Longrightarrow> emitSequence g compiling i js p = Emitted q \<Longrightarrow> code_ok g q \<and> grows p q"
  "grammar_wf g \<Longrightarrow> code_ok g p \<Longrightarrow> emitAlternatives g compiling i js p = Emitted (es, q) \<Longrightarrow> code_ok g q \<and> grows p q"
  "grammar_wf g \<Longrightarrow> code_ok g p \<Longrightarrow> emitInline g compiling i j p = Emitted q \<Longrightarrow> code_ok g q \<and> grows p q"
proof (induction g compiling i p and g compiling i p and g compiling i j m p and g compiling i j m p
    and g compiling i js p and g compiling i js p and g compiling i j p
    arbitrary: q and q and q and es q and q and es q and q
    rule: emitNode_emitRepetition_emitBody_emitOptional_emitSequence_emitAlternatives_emitInline.induct)
  case (1 g compiling i p)
  let ?n = "node g i"
  have r: "\<not> \<not> in_range i (g_nodes g)"
  proof
    assume "\<not> in_range i (g_nodes g)"
    then show False using "1.prems"(3) unfolding emitNode.simps [of g compiling i p] by simp
  qed
  note em = "1.prems"(3) [unfolded emitNode.simps [of g compiling i p] if_not_P [OF r]]
  show ?case
  proof (cases "isSingleOctet g [] i")
    case True
    then obtain ok bits where b: "buildClass g [] i no_octets = Some (ok, bits)" using em by (auto split: option.splits)
    have "ok \<and> length bits = 32 \<and> (\<forall>c. inClass bits c \<longleftrightarrow> octetMatches g [] i c \<or> inClass no_octets c)"
      by (rule buildClass_bits(1) [OF True _ b]) simp
    then show ?thesis using em True b code_ok_class [OF "1.prems"(2)] by auto
  next
    case False
    then have sel: "(if isSingleOctet g [] i then buildClass g [] i no_octets else Some (False, no_octets)) = Some (False, no_octets)"
      by simp
    note em = em [unfolded sel option.case prod.case if_False Let_def]
    note IH = "1.IH" [OF r sel refl _ refl]
    show ?thesis
    proof (cases "n_kind ?n")
      case Reference
      have no: "\<not> ruleRoot g (n_lo ?n) = kNoRule" "\<not> n_lo ?n \<in> set compiling"
        using em Reference by (auto simp: compile_fail_def split: if_splits)
      show ?thesis
      proof (cases "n_capture ?n = kNoCapture")
        case True
        then show ?thesis using em Reference no IH(1) [OF _ Reference no True "1.prems"(1,2)] by simp
      next
        case cap: False
        let ?slot = "int (length (pg_slotCapture p))"
        let ?p1 = "emit Save (?slot * 2) 0 (p\<lparr>pg_slotCapture := pg_slotCapture p @ [n_capture ?n]\<rparr>)"
        obtain p2 where p2: "emitNode g (n_lo ?n # compiling) (ruleRoot g (n_lo ?n)) ?p1 = Emitted p2"
            "q = emit Save (?slot * 2 + 1) 0 p2"
          using em Reference no cap by (auto simp: and_then_Emitted)
        have "in_range (n_capture ?n) (g_captureNames g)"
          using wf_node [OF "1.prems"(1), of i] r Reference cap by (simp add: node_wf_def)
        then have p1: "code_ok g ?p1 \<and> grows p ?p1"
          using "1.prems"(2) by (intro code_ok_save) (auto simp: code_ok_def)
        then have 2: "code_ok g p2 \<and> grows ?p1 p2" using IH(2) [OF _ Reference no cap refl refl "1.prems"(1) _ p2(1)] by simp
        have "length (pg_slotCapture ?p1) = length (pg_slotCapture p) + 1" by (simp add: emit_def)
        then have l: "length (pg_slotCapture p) + 1 \<le> length (pg_slotCapture p2)" using 2 by (simp add: grows_def)
        have "code_ok g (emit Save (?slot * 2 + 1) 0 (p2\<lparr>pg_slotCapture := pg_slotCapture p2\<rparr>)) \<and>
            grows p2 (emit Save (?slot * 2 + 1) 0 (p2\<lparr>pg_slotCapture := pg_slotCapture p2\<rparr>))"
          using 2 l by (intro code_ok_save) (auto simp: code_ok_def)
        then have "code_ok g q \<and> grows p2 q" using p2(2) by simp
        then show ?thesis using p1 2 grows_trans by blast
      qed
    next
      case Literal
      then have "emitLiteral (literal g (n_literal ?n)) p = Emitted q" using em by simp
      then show ?thesis by (rule code_ok_literal [OF "1.prems"(2)])
    next
      case OctetRange
      then have "emitOctets [n_lo ?n..n_hi ?n] p = Emitted q" using em by simp
      then show ?thesis by (rule code_ok_octets [OF "1.prems"(2)])
    next
      case Sequence
      then show ?thesis using em IH(3) [OF _ Sequence "1.prems"(1,2)] by simp
    next
      case Alternation
      then obtain js q1 where q1: "emitAlternatives g compiling i (kids g ?n) p = Emitted (js, q1)"
          "q = patch_all_x js (pc_of q1) q1"
        using em by (auto simp: and_then_Emitted)
      have "kids g ?n \<noteq> []" using wf_node [OF "1.prems"(1), of i] r Alternation by (auto simp: node_wf_def kids_def)
      from emitted_stretch(6) [OF "1.prems"(1) this q1(1)]
      have a: "\<forall>k \<in> set js. 0 \<le> k \<and> k < pc_of q1 \<and> (i_op (ins_at q1 k) = Split \<or> i_op (ins_at q1 k) = Jump)"
        using open_addresses by blast
      have b: "code_ok g q1 \<and> grows p q1" using IH(4) [OF _ Alternation "1.prems"(1,2) q1(1)] by simp
      have "code_ok g q \<and> grows q1 q" unfolding q1(2) by (rule code_ok_patched(1)) (use a b in auto)
      then show ?thesis using b grows_trans by blast
    next
      case Repetition
      then show ?thesis using em IH(5) [OF _ Repetition "1.prems"(1,2)] by simp
    qed
  qed
next
  case (2 g compiling i p)
  let ?n = "node g i" and ?j = "child g (n_first (node g i))"
  let ?least = "max 0 (n_lo ?n)"
  obtain p1 where p1: "emitBody g compiling i ?j (nat ?least) p = Emitted p1"
    using "2.prems"(3) by (auto simp: emitRepetition.simps [of g compiling i p] Let_def and_then_Emitted)
  note em = "2.prems"(3) [unfolded emitRepetition.simps [of g compiling i p] Let_def p1 and_then_simps]
  have body: "code_ok g p1 \<and> grows p p1" by (rule "2.IH"(1) [OF refl refl refl "2.prems"(1,2) p1])
  note IH = "2.IH"(2-) [OF refl refl refl p1]
  show ?case
  proof (cases "n_hi ?n = kUnbounded")
    case True
    then obtain h where h: "hasCapture g [] ?j = Some h" "\<not> h"
      using em by (auto simp: compile_fail_def split: option.splits if_splits)
    let ?p4 = "\<lambda>p3. emit Jump (pc_of p1) 0 p3"
    obtain p3 where p3: "emitInline g compiling i ?j (split_at p1) = Emitted p3" "q = patch_y (pc_of p1) (pc_of (?p4 p3)) (?p4 p3)"
      using em True h by (auto simp: and_then_Emitted)
    have s: "code_ok g (split_at p1) \<and> grows p1 (split_at p1)" using body by (intro code_ok_split) simp
    have 3: "code_ok g p3 \<and> grows (split_at p1) p3" using IH(1) [OF True h refl refl "2.prems"(1) _ p3(1)] s by simp
    have st: "emits (split_at p1) p3 (lang g ?j)" by (rule emitted_stretch(7) [OF "2.prems"(1) p3(1)])
    have lt: "pc_of p1 < pc_of p3" using emits_le [OF st] by simp
    have "ins_at p3 (pc_of p1) = ins_at (split_at p1) (pc_of p1)"
      using agrees_at [OF emits_extends [OF st], of "pc_of p1"] by simp
    then have op: "i_op (ins_at (?p4 p3) (pc_of p1)) = Split"
      using lt by (simp add: ins_at_emit split_at_facts(3))
    have 4: "code_ok g (?p4 p3) \<and> grows p3 (?p4 p3)" using 3 lt by (intro code_ok_jump) auto
    then have "code_ok g q \<and> grows (?p4 p3) q"
      using code_ok_patch [of g "?p4 p3" "pc_of (?p4 p3)" "pc_of p1"] op lt p3(2) by simp
    then show ?thesis using body s 3 4 grows_trans by blast
  next
    case False
    then have b: "\<not> n_hi ?n - ?least < 0" "\<not> kUnrollLimit < n_hi ?n - ?least"
      using em by (auto simp: compile_fail_def split: if_splits)
    obtain es p2 where p2: "emitOptional g compiling i ?j (nat (n_hi ?n - ?least)) p1 = Emitted (es, p2)"
        "q = patch_all_y es (pc_of p2) p2"
      using em False b by (auto simp: and_then_Emitted)
    from emitted_stretch(4) [OF "2.prems"(1) p2(1)]
    have a: "\<forall>k \<in> set es. 0 \<le> k \<and> k < pc_of p2 \<and> (i_op (ins_at p2 k) = Split \<or> i_op (ins_at p2 k) = Jump)"
      using open_addresses by blast
    have c: "code_ok g p2 \<and> grows p1 p2" using IH(2) [OF False b "2.prems"(1) _ p2(1)] body by simp
    have "code_ok g q \<and> grows p2 q" unfolding p2(2) by (rule code_ok_patched(2)) (use a c in auto)
    then show ?thesis using body c grows_trans by blast
  qed
next
  case (4 g compiling i j m p)
  obtain p1 where p1: "emitInline g compiling i j p = Emitted p1" "emitBody g compiling i j m p1 = Emitted q"
    using "4.prems"(3) by (auto simp: and_then_Emitted)
  show ?case using "4.IH"(1) [OF "4.prems"(1,2) p1(1)] "4.IH"(2) [OF p1(1) "4.prems"(1) _ p1(2)] grows_trans by blast
next
  case (6 g compiling i j m p)
  obtain p1 es' where p1: "emitInline g compiling i j (split_at p) = Emitted p1"
      "emitOptional g compiling i j m p1 = Emitted (es', q)"
    using "6.prems"(3) by (auto simp: Let_def and_then_Emitted)
  have s: "code_ok g (split_at p) \<and> grows p (split_at p)" by (rule code_ok_split [OF "6.prems"(2)])
  show ?case
    using s "6.IH"(1) [OF refl "6.prems"(1) _ p1(1)] "6.IH"(2) [OF refl p1(1) "6.prems"(1) _ p1(2)] grows_trans by blast
next
  case (8 g compiling i j js p)
  obtain p1 where p1: "emitInline g compiling i j p = Emitted p1" "emitSequence g compiling i js p1 = Emitted q"
    using "8.prems"(3) by (auto simp: and_then_Emitted)
  show ?case using "8.IH"(1) [OF "8.prems"(1,2) p1(1)] "8.IH"(2) [OF p1(1) "8.prems"(1) _ p1(2)] grows_trans by blast
next
  case (10 g compiling i j js p)
  show ?case
  proof (cases "js = []")
    case True
    then have "emitInline g compiling i j p = Emitted q" using "10.prems"(3) by (auto simp: and_then_Emitted)
    then show ?thesis using "10.IH"(1) [OF True "10.prems"(1,2)] by simp
  next
    case False
    let ?p2 = "\<lambda>p1. emit Jump 0 0 p1"
    let ?p3 = "\<lambda>p1. patch_y (pc_of p) (pc_of (?p2 p1)) (?p2 p1)"
    obtain p1 js' where p1: "emitInline g compiling i j (split_at p) = Emitted p1"
        "emitAlternatives g compiling i js (?p3 p1) = Emitted (js', q)"
      using False "10.prems"(3) by (auto simp: Let_def and_then_Emitted)
    have s: "code_ok g (split_at p) \<and> grows p (split_at p)" by (rule code_ok_split [OF "10.prems"(2)])
    have 1: "code_ok g p1 \<and> grows (split_at p) p1" using "10.IH"(2) [OF False refl "10.prems"(1) _ p1(1)] s by simp
    have st: "emits (split_at p) p1 (lang g j)" by (rule emitted_stretch(7) [OF "10.prems"(1) p1(1)])
    have lt: "pc_of p < pc_of p1" using emits_le [OF st] by simp
    have "ins_at p1 (pc_of p) = ins_at (split_at p) (pc_of p)"
      using agrees_at [OF emits_extends [OF st], of "pc_of p"] by simp
    then have op: "i_op (ins_at (?p2 p1) (pc_of p)) = Split"
      using lt by (simp add: ins_at_emit split_at_facts(3))
    have 2: "code_ok g (?p2 p1) \<and> grows p1 (?p2 p1)" using 1 by (intro code_ok_jump) auto
    then have 3: "code_ok g (?p3 p1) \<and> grows (?p2 p1) (?p3 p1)"
      using code_ok_patch [of g "?p2 p1" "pc_of (?p2 p1)" "pc_of p"] op lt by simp
    then have "code_ok g q \<and> grows (?p3 p1) q"
      using "10.IH"(3) [OF False refl p1(1) refl refl refl "10.prems"(1) _ p1(2)] by simp
    then show ?thesis using s 1 2 3 grows_trans by blast
  qed
next
  case (11 g compiling i j p)
  then show ?case by (auto simp: emitInline.simps [of g compiling i j p] split: if_splits)
qed simp_all

section \<open>Compiled rules\<close>

definition prog_ok :: "grammar \<Rightarrow> program \<Rightarrow> bool" where
  "prog_ok g P \<longleftrightarrow> pg_code P \<noteq> [] \<and> (\<forall>c \<in> set (pg_slotCapture P). in_range c (g_captureNames g)) \<and>
     (\<forall>k. in_range k (pg_code P) \<longrightarrow>
        (case i_op (ins_at P k) of
           Class \<Rightarrow> in_range (k + 1) (pg_code P) \<and> in_range (i_x (ins_at P k)) (pg_classes P)
         | Split \<Rightarrow> in_range (i_x (ins_at P k)) (pg_code P) \<and> in_range (i_y (ins_at P k)) (pg_code P)
         | Jump \<Rightarrow> in_range (i_x (ins_at P k)) (pg_code P)
         | Save \<Rightarrow> in_range (k + 1) (pg_code P) \<and> 0 \<le> i_x (ins_at P k) \<and>
             i_x (ins_at P k) < 2 * int (length (pg_slotCapture P))
         | Match \<Rightarrow> k + 1 = pc_of P))"

definition accepting :: "program \<Rightarrow> string \<Rightarrow> bool" where
  "accepting P line \<longleftrightarrow> (\<exists>q. in_range q (pg_code P) \<and> i_op (ins_at P q) = Match \<and> reach P line 0 0 q (length line))"

lemma in_range_iff: "in_range k (pg_code P) \<longleftrightarrow> 0 \<le> k \<and> k < pc_of P"
  by (auto simp: in_range_def pc_of_def)

lemma compiled_code:
  assumes "grammar_wf g" and "compileRule g rule = Emitted P"
  obtains p where "emitNode g [] (ruleRoot g rule) empty_program = Emitted p" "P = emit Match 0 0 p"
    "code_ok g p" "emits empty_program p (lang g (ruleRoot g rule))"
proof -
  obtain p where p: "emitNode g [] (ruleRoot g rule) empty_program = Emitted p" "P = emit Match 0 0 p"
    using assms(2) by (auto simp: compileRule_def compile_fail_def and_then_Emitted split: if_splits)
  have "code_ok g empty_program" by (simp add: code_ok_def empty_program_def)
  then have "code_ok g p" using emitted_ok(1) [OF assms(1) _ p(1)] by simp
  then show thesis using that p emitted_stretch(1) [OF assms(1) p(1)] by blast
qed

lemma compiled_ok:
  assumes "grammar_wf g" and "compileRule g rule = Emitted P"
  shows "prog_ok g P"
proof -
  obtain p where p: "P = emit Match 0 0 p" "code_ok g p" by (rule compiled_code [OF assms])
  have k: "ins_ok p (ins_at p k)" if "0 \<le> k" "k < pc_of p" for k
    using p(2) that by (auto simp: code_ok_def ins_at_def pc_of_def)
  show ?thesis
    unfolding prog_ok_def
  proof (intro conjI allI impI)
    show "pg_code P \<noteq> []" "\<forall>c \<in> set (pg_slotCapture P). in_range c (g_captureNames g)"
      using p by (simp_all add: emit_def code_ok_def)
    fix k
    assume "in_range k (pg_code P)"
    then have "0 \<le> k" "k \<le> pc_of p" by (simp_all add: in_range_iff p(1))
    then consider "k = pc_of p" | "0 \<le> k" "k < pc_of p" by linarith
    then show "case i_op (ins_at P k) of
           Class \<Rightarrow> in_range (k + 1) (pg_code P) \<and> in_range (i_x (ins_at P k)) (pg_classes P)
         | Split \<Rightarrow> in_range (i_x (ins_at P k)) (pg_code P) \<and> in_range (i_y (ins_at P k)) (pg_code P)
         | Jump \<Rightarrow> in_range (i_x (ins_at P k)) (pg_code P)
         | Save \<Rightarrow> in_range (k + 1) (pg_code P) \<and> 0 \<le> i_x (ins_at P k) \<and>
             i_x (ins_at P k) < 2 * int (length (pg_slotCapture P))
         | Match \<Rightarrow> k + 1 = pc_of P"
    proof cases
      case 2
      have s: "pg_slotCapture P = pg_slotCapture p" by (simp add: p(1) emit_def)
      show ?thesis using k [OF 2] 2 by (auto simp: p(1) ins_at_emit ins_ok_def in_range_iff in_range_def [of _ "pg_classes _"] emit_def
          [THEN arg_cong, of pg_slotCapture] split: op.splits)
    qed (simp add: p(1) ins_at_emit)
  qed
qed

lemma compiled_language:
  assumes "grammar_wf g" and "compileRule g rule = Emitted P"
  shows "accepting P line \<longleftrightarrow> lang g (ruleRoot g rule) line"
proof -
  obtain p where p: "P = emit Match 0 0 p" "code_ok g p" "emits empty_program p (lang g (ruleRoot g rule))"
    by (rule compiled_code [OF assms])
  have pc0: "pc_of empty_program = 0" by (simp add: empty_program_def pc_of_def)
  have "agrees 0 {} p P" unfolding p(1) by (rule extends_emit)
  then have seg: "seg P line 0 (pc_of p) (lang g (ruleRoot g rule))"
    using emits_seg [OF p(3), of P line] by (simp add: pc0)
  have m: "i_op (ins_at P (pc_of p)) = Match" by (simp add: p(1) ins_at_emit)
  have notm: "\<not> (0 \<le> q \<and> q < pc_of p)" if "in_range q (pg_code P)" "i_op (ins_at P q) = Match" for q
  proof
    assume q: "0 \<le> q \<and> q < pc_of p"
    then have "ins_ok p (ins_at p q)" using p(2) by (auto simp: code_ok_def ins_at_def pc_of_def)
    then show False using that(2) q by (simp add: p(1) ins_at_emit ins_ok_def)
  qed
  show ?thesis
  proof
    assume "accepting P line"
    then obtain q n where q: "in_range q (pg_code P)" "i_op (ins_at P q) = Match" "path P line n 0 0 q (length line)"
      by (auto simp: accepting_def)
    from segD [OF seg q(3) notm [OF q(1,2)]] obtain s m where s: "piece line 0 s" "lang g (ruleRoot g rule) s"
        "path P line m (pc_of p) (0 + length s) q (length line)" by blast
    have "length s = length line" using s(3) m by (cases rule: path.cases) auto
    then have "s = line" using s(1) by (auto simp: piece_def)
    then show "lang g (ruleRoot g rule) line" using s(2) by simp
  next
    assume "lang g (ruleRoot g rule) line"
    then have "reach P line 0 0 (pc_of p) (length line)" using segR [OF seg, of 0 line] by (simp add: piece_def)
    moreover have "in_range (pc_of p) (pg_code P)" by (simp add: in_range_iff p(1))
    ultimately show "accepting P line" unfolding accepting_def using m by blast
  qed
qed

end
