(* ===== verification/Machine_Correct.thy ===== *)
theory Machine_Correct
  imports Compiler_Ranges
begin

text \<open>
  The machine accepts exactly the lines that have a path through the program, it never
  leaves the program, and its recursion stays within the fuel: the threads of a position
  are the instructions a path reaches there.
\<close>

section \<open>Steps that read nothing\<close>

definition succs :: "program \<Rightarrow> int \<Rightarrow> int list" where
  "succs P k = (case i_op (ins_at P k) of
     Jump \<Rightarrow> [i_x (ins_at P k)] | Split \<Rightarrow> [i_x (ins_at P k), i_y (ins_at P k)] | Save \<Rightarrow> [k + 1] | _ \<Rightarrow> [])"

definition stops :: "program \<Rightarrow> int \<Rightarrow> bool" where
  "stops P k \<longleftrightarrow> i_op (ins_at P k) = Class \<or> i_op (ins_at P k) = Match"

definition eps :: "program \<Rightarrow> int \<Rightarrow> int \<Rightarrow> bool" where
  "eps P = (\<lambda>a b. in_range a (pg_code P) \<and> b \<in> set (succs P a))\<^sup>*\<^sup>*"

lemma eps_refl [simp]: "eps P a a"
  by (simp add: eps_def)

lemma eps_step: "in_range a (pg_code P) \<Longrightarrow> b \<in> set (succs P a) \<Longrightarrow> eps P b c \<Longrightarrow> eps P a c"
  unfolding eps_def by (simp add: converse_rtranclp_into_rtranclp)

lemma eps_trans: "eps P a b \<Longrightarrow> eps P b c \<Longrightarrow> eps P a c"
  unfolding eps_def by (rule rtranclp_trans)

lemma succs_cases:
  assumes "b \<in> set (succs P a)"
  shows "i_op (ins_at P a) = Jump \<and> b = i_x (ins_at P a) \<or>
    i_op (ins_at P a) = Split \<and> (b = i_x (ins_at P a) \<or> b = i_y (ins_at P a)) \<or> i_op (ins_at P a) = Save \<and> b = a + 1"
  using assms by (auto simp: succs_def split: op.splits)

lemma eps_reach: "eps P a b \<Longrightarrow> reach P line a pos b pos"
  unfolding eps_def
proof (induction rule: converse_rtranclp_induct)
  case (step a c)
  then show ?case using succs_cases [of c P a]
    by (auto intro: path_jump path_split_x path_split_y path_save)
qed (auto intro: path_here)

lemma succs_range: "prog_ok g P \<Longrightarrow> in_range a (pg_code P) \<Longrightarrow> b \<in> set (succs P a) \<Longrightarrow> in_range b (pg_code P)"
  by (auto simp: prog_ok_def dest!: succs_cases split: op.splits)

text \<open>The last character of a path, and the first instruction at a position it passes.\<close>

definition reads :: "program \<Rightarrow> string \<Rightarrow> nat \<Rightarrow> int \<Rightarrow> bool" where
  "reads P line pos t \<longleftrightarrow> in_range t (pg_code P) \<and> i_op (ins_at P t) = Class \<and> pos < length line \<and>
     program_inClass P (i_x (ins_at P t)) (line ! pos)"

lemma reads_path: "reads P line pos t \<Longrightarrow> path P line (Suc 0) t pos (t + 1) (pos + 1)"
  unfolding reads_def using path_class [OF _ _ _ _ path_here] by blast

lemma path_last:
  assumes "path P line n pc pos q r"
  shows "r = pos \<and> eps P pc q \<or>
    (\<exists>t. pos < r \<and> reach P line pc pos t (r - 1) \<and> reads P line (r - 1) t \<and> eps P (t + 1) q)"
  using assms
proof (induction rule: path.induct)
  case (path_class pc pos n q r)
  have c: "path P line (Suc 0) pc pos (pc + 1) (pos + 1)"
    using path_class.hyps by (intro reads_path) (simp add: reads_def)
  from path_class.IH consider "r = pos + 1" "eps P (pc + 1) q"
    | t where "pos + 1 < r" "reach P line (pc + 1) (pos + 1) t (r - 1)" "reads P line (r - 1) t" "eps P (t + 1) q"
    by blast
  then show ?case
  proof cases
    case 1
    then show ?thesis using path_class.hyps by (auto simp: reads_def intro!: exI [of _ pc] path_here)
  next
    case (2 t)
    then have "reach P line pc pos t (r - 1)" using path_trans [OF c] by blast
    then show ?thesis using 2 by auto
  qed
next
  case (path_jump pc n pos q r)
  then have s: "i_x (ins_at P pc) \<in> set (succs P pc)" by (simp add: succs_def)
  show ?case
    using path_jump eps_step [OF path_jump(1) s] path.path_jump [OF path_jump(1,2)] by blast
next
  case (path_split_x pc n pos q r)
  then have s: "i_x (ins_at P pc) \<in> set (succs P pc)" by (simp add: succs_def)
  show ?case
    using path_split_x eps_step [OF path_split_x(1) s] path.path_split_x [OF path_split_x(1,2)] by blast
next
  case (path_split_y pc n pos q r)
  then have s: "i_y (ins_at P pc) \<in> set (succs P pc)" by (simp add: succs_def)
  show ?case
    using path_split_y eps_step [OF path_split_y(1) s] path.path_split_y [OF path_split_y(1,2)] by blast
next
  case (path_save pc n pos q r)
  then have s: "pc + 1 \<in> set (succs P pc)" by (simp add: succs_def)
  show ?case
    using path_save eps_step [OF path_save(1) s] path.path_save [OF path_save(1,2)] by blast
qed simp

lemma reach_here: "reach P line 0 0 q 0 \<longleftrightarrow> eps P 0 q"
  using path_last [of P line _ 0 0 q 0] eps_reach by blast

lemma reach_next:
  "reach P line 0 0 q (Suc pos) \<longleftrightarrow> (\<exists>t. reach P line 0 0 t pos \<and> reads P line pos t \<and> eps P (t + 1) q)"
    (is "?L \<longleftrightarrow> ?R")
proof
  assume ?L
  then show ?R using path_last [of P line _ 0 0 q "Suc pos"] by auto
next
  assume ?R
  then obtain t n where t: "path P line n 0 0 t pos" "reads P line pos t" "eps P (t + 1) q" by blast
  note reads_path [OF t(2)]
  then have "reach P line 0 0 (t + 1) (Suc pos)" using path_trans [OF t(1)] by auto
  then show ?L by (rule reach_trans) (rule eps_reach [OF t(3)])
qed

lemma reach_none:
  assumes "\<And>t. reach P line 0 0 t pos \<Longrightarrow> \<not> (in_range t (pg_code P) \<and> i_op (ins_at P t) = Class)" and "pos < r"
  shows "\<not> reach P line 0 0 q r"
  using assms(2)
proof (induction r arbitrary: q)
  case (Suc r)
  show ?case
  proof (cases "r = pos")
    case True
    then show ?thesis using assms(1) by (auto simp: reach_next reads_def)
  next
    case False
    then have "\<not> reach P line 0 0 t r" for t using Suc by simp
    then show ?thesis by (simp only: reach_next) blast
  qed
qed simp

section \<open>Adding a thread\<close>

definition marked :: "program \<Rightarrow> int \<Rightarrow> closure \<Rightarrow> int set" where
  "marked P gen c = {k. in_range k (pg_code P) \<and> c_seen c ! nat k = gen}"

definition arena_ok :: "program \<Rightarrow> closure \<Rightarrow> bool" where
  "arena_ok P c \<longleftrightarrow> (\<forall>row \<in> set (c_arena c). length row = 2 * length (pg_slotCapture P)) \<and>
     (\<forall>t \<in> set (c_list c). th_slots t < length (c_arena c))"

definition closure_ok :: "program \<Rightarrow> int \<Rightarrow> closure \<Rightarrow> bool" where
  "closure_ok P gen c \<longleftrightarrow> length (c_seen c) = length (pg_code P) \<and> (\<forall>x \<in> set (c_seen c). x \<le> gen) \<and> arena_ok P c"

text \<open>What a call adds: it marks a set closed under the steps that read nothing, and lists its stops.\<close>

definition added :: "program \<Rightarrow> int \<Rightarrow> int \<Rightarrow> closure \<Rightarrow> closure \<Rightarrow> bool" where
  "added P gen pc c c' \<longleftrightarrow> closure_ok P gen c' \<and> length (c_arena c) \<le> length (c_arena c') \<and>
     marked P gen c \<subseteq> marked P gen c' \<and> pc \<in> marked P gen c' \<and>
     (\<forall>k \<in> marked P gen c' - marked P gen c. eps P pc k \<and> set (succs P k) \<subseteq> marked P gen c') \<and>
     (\<exists>new. c_list c' = c_list c @ new \<and> th_pc ` set new = {k \<in> marked P gen c' - marked P gen c. stops P k})"

lemma finite_code [simp]: "finite {k. in_range k (xs :: 'a list) \<and> Q k}"
proof (rule finite_subset)
  show "{k. in_range k xs \<and> Q k} \<subseteq> {0..<int (length xs)}" by (auto simp: in_range_def)
qed simp

definition unmarked :: "program \<Rightarrow> int \<Rightarrow> closure \<Rightarrow> nat" where
  "unmarked P gen c = card {k. in_range k (pg_code P) \<and> c_seen c ! nat k \<noteq> gen}"

lemma unmarked_bound: "unmarked P gen c < fuel_for P"
proof -
  have "card {k. in_range k (pg_code P) \<and> c_seen c ! nat k \<noteq> gen} \<le> card {0..<int (length (pg_code P))}"
    by (rule card_mono) (auto simp: in_range_def)
  then show ?thesis by (simp add: unmarked_def fuel_for_def)
qed

lemma unmarked_mono:
  assumes "marked P gen c \<subseteq> marked P gen c'"
  shows "unmarked P gen c' \<le> unmarked P gen c"
  unfolding unmarked_def by (rule card_mono) (use assms in \<open>auto simp: marked_def\<close>)

lemma mark_one:
  assumes "closure_ok P gen c" and "in_range pc (pg_code P)" and "c_seen c ! nat pc \<noteq> gen"
    and "c1 = c\<lparr>c_seen := (c_seen c)[nat pc := gen]\<rparr>"
  shows "closure_ok P gen c1" "marked P gen c1 = insert pc (marked P gen c)" "unmarked P gen c1 < unmarked P gen c"
    "c_list c1 = c_list c" "c_arena c1 = c_arena c" "pc \<notin> marked P gen c"
proof -
  have l: "nat pc < length (c_seen c)" "length (c_seen c) = length (pg_code P)"
    using assms(1,2) by (auto simp: closure_ok_def in_range_def)
  have s: "c_seen c1 ! nat k = (if k = pc then gen else c_seen c ! nat k)" if "in_range k (pg_code P)" for k
    using that l assms(2) by (auto simp: assms(4) nth_list_update in_range_def nat_eq_iff)
  show "closure_ok P gen c1"
    using assms(1) by (auto simp: closure_ok_def arena_ok_def assms(4) dest!: set_update_subset_insert [THEN subsetD])
  show "marked P gen c1 = insert pc (marked P gen c)" using s assms(2) by (auto simp: marked_def split: if_splits)
  have "{k. in_range k (pg_code P) \<and> c_seen c1 ! nat k \<noteq> gen} \<subset> {k. in_range k (pg_code P) \<and> c_seen c ! nat k \<noteq> gen}"
  proof
    show "{k. in_range k (pg_code P) \<and> c_seen c1 ! nat k \<noteq> gen} \<subseteq> {k. in_range k (pg_code P) \<and> c_seen c ! nat k \<noteq> gen}"
      using s by (auto split: if_splits)
    have "pc \<in> {k. in_range k (pg_code P) \<and> c_seen c ! nat k \<noteq> gen}" "pc \<notin> {k. in_range k (pg_code P) \<and> c_seen c1 ! nat k \<noteq> gen}"
      using s [OF assms(2)] assms(2,3) by simp_all
    then show "{k. in_range k (pg_code P) \<and> c_seen c1 ! nat k \<noteq> gen} \<noteq> {k. in_range k (pg_code P) \<and> c_seen c ! nat k \<noteq> gen}"
      by blast
  qed
  then show "unmarked P gen c1 < unmarked P gen c" unfolding unmarked_def by (intro psubset_card_mono) simp_all
  show "pc \<notin> marked P gen c" using assms(3) by (simp add: marked_def)
qed (simp_all add: assms(4))

lemma added_after:
  assumes "pc \<notin> marked P gen c" and "marked P gen c1 = insert pc (marked P gen c)" and "c_list c1 = c_list c"
    and "length (c_arena c) \<le> length (c_arena c1)" and "in_range pc (pg_code P)" and "\<not> stops P pc"
    and "succs P pc = [b]" and "added P gen b c1 c'"
  shows "added P gen pc c c'"
proof -
  have e: "eps P b k \<Longrightarrow> eps P pc k" for k using eps_step [OF assms(5), of b k] assms(7) by simp
  have n: "marked P gen c' - marked P gen c = insert pc (marked P gen c' - marked P gen c1)"
    using assms(1,2,8) by (auto simp: added_def)
  obtain new where new: "c_list c' = c_list c @ new" "th_pc ` set new = {k \<in> marked P gen c' - marked P gen c1. stops P k}"
    using assms(3,8) by (auto simp: added_def)
  then have "th_pc ` set new = {k \<in> marked P gen c' - marked P gen c. stops P k}" using n assms(6) by auto
  then show ?thesis
    using assms new(1) e n by (auto simp: added_def)
qed

lemma added_both:
  assumes "pc \<notin> marked P gen c" and "marked P gen c1 = insert pc (marked P gen c)" and "c_list c1 = c_list c"
    and "length (c_arena c) \<le> length (c_arena c1)" and "in_range pc (pg_code P)" and "\<not> stops P pc"
    and "succs P pc = [a, b]" and "added P gen a c1 c2" and "added P gen b c2 c'"
  shows "added P gen pc c c'"
proof -
  have e: "eps P a k \<or> eps P b k \<Longrightarrow> eps P pc k" for k
    using eps_step [OF assms(5), of a k] eps_step [OF assms(5), of b k] assms(7) by auto
  have m: "marked P gen c1 \<subseteq> marked P gen c2" "marked P gen c2 \<subseteq> marked P gen c'" using assms(8,9) by (auto simp: added_def)
  have n: "marked P gen c' - marked P gen c =
      insert pc ((marked P gen c2 - marked P gen c1) \<union> (marked P gen c' - marked P gen c2))"
    using assms(1,2) m by auto
  obtain n1 where n1: "c_list c2 = c_list c @ n1" "th_pc ` set n1 = {k \<in> marked P gen c2 - marked P gen c1. stops P k}"
    using assms(3,8) by (auto simp: added_def)
  obtain n2 where n2: "c_list c' = c_list c2 @ n2" "th_pc ` set n2 = {k \<in> marked P gen c' - marked P gen c2. stops P k}"
    using assms(9) by (auto simp: added_def)
  have "th_pc ` set (n1 @ n2) = {k \<in> marked P gen c' - marked P gen c. stops P k}"
    using n n1(2) n2(2) assms(6) by (simp add: image_Un) auto
  then have L: "\<exists>new. c_list c' = c_list c @ new \<and> th_pc ` set new = {k \<in> marked P gen c' - marked P gen c. stops P k}"
    using n1(1) n2(1) by (intro exI [of _ "n1 @ n2"]) simp
  have S: "eps P pc k \<and> set (succs P k) \<subseteq> marked P gen c'" if "k \<in> marked P gen c' - marked P gen c" for k
    using that unfolding n
  proof (elim insertE UnE)
    assume "k = pc"
    then show ?thesis using assms(7,8,9) m by (auto simp: added_def)
  next
    assume "k \<in> marked P gen c2 - marked P gen c1"
    then have "eps P a k" "set (succs P k) \<subseteq> marked P gen c2" using assms(8) by (simp_all add: added_def)
    then show ?thesis using m(2) e by blast
  next
    assume "k \<in> marked P gen c' - marked P gen c2"
    then show ?thesis using assms(9) e by (auto simp: added_def)
  qed
  show ?thesis
    unfolding added_def using assms(2,4,8,9) m L S by (auto simp: added_def)
qed

lemma addThread_added:
  assumes "prog_ok g P"
  shows "in_range pc (pg_code P) \<Longrightarrow> closure_ok P gen c \<Longrightarrow> slots < length (c_arena c) \<Longrightarrow> unmarked P gen c < fuel \<Longrightarrow>
    \<exists>c'. addThread fuel P gen pos pc slots c = Some c' \<and> added P gen pc c c'"
proof (induction fuel arbitrary: pc slots c)
  case (Suc fuel)
  show ?case
  proof (cases "c_seen c ! nat pc = gen")
    case True
    then show ?thesis using Suc.prems by (auto simp: added_def marked_def)
  next
    case False
    define c1 where "c1 = c\<lparr>c_seen := (c_seen c)[nat pc := gen]\<rparr>"
    note M = mark_one [OF Suc.prems(2,1) False c1_def]
    have fuel: "unmarked P gen c1 < fuel" using M(3) Suc.prems(4) by simp
    let ?i = "ins_at P pc"
    have i: "pg_code P ! nat pc = ?i" by (simp add: ins_at_def)
    have unf: "addThread (Suc fuel) P gen pos pc slots c =
      (case i_op ?i of
          Jump \<Rightarrow> addThread fuel P gen pos (i_x ?i) slots c1
        | Split \<Rightarrow> Option.bind (addThread fuel P gen pos (i_x ?i) slots c1) (addThread fuel P gen pos (i_y ?i) slots)
        | Save \<Rightarrow> addThread fuel P gen pos (pc + 1) (length (c_arena c1))
            (c1\<lparr>c_arena := c_arena c1 @ [(c_arena c1 ! slots)[nat (i_x ?i) := int pos]]\<rparr>)
        | _ \<Rightarrow> Some (c1\<lparr>c_list := c_list c1 @ [\<lparr>th_pc = pc, th_slots = slots\<rparr>]\<rparr>))"
      using Suc.prems(1) False by (simp add: Let_def i c1_def cloneSlots_def split: op.split)
    have sl: "slots < length (c_arena c1)" using Suc.prems(3) M(5) by simp
    have al: "length (c_arena c) \<le> length (c_arena c1)" using M(5) by simp
    have ok: "case i_op ?i of
           Class \<Rightarrow> in_range (pc + 1) (pg_code P) \<and> in_range (i_x ?i) (pg_classes P)
         | Split \<Rightarrow> in_range (i_x ?i) (pg_code P) \<and> in_range (i_y ?i) (pg_code P)
         | Jump \<Rightarrow> in_range (i_x ?i) (pg_code P)
         | Save \<Rightarrow> in_range (pc + 1) (pg_code P) \<and> 0 \<le> i_x ?i \<and> i_x ?i < 2 * int (length (pg_slotCapture P))
         | Match \<Rightarrow> pc + 1 = pc_of P"
      using assms Suc.prems(1) by (simp add: prog_ok_def)
    have stop: ?thesis if "stops P pc"
    proof -
      let ?c' = "c1\<lparr>c_list := c_list c1 @ [\<lparr>th_pc = pc, th_slots = slots\<rparr>]\<rparr>"
      have "succs P pc = []" using that by (auto simp: stops_def succs_def)
      moreover have "marked P gen ?c' = insert pc (marked P gen c)" using M(2) by (simp add: marked_def)
      moreover have "closure_ok P gen ?c'" using M(1) sl by (auto simp: closure_ok_def arena_ok_def)
      moreover have "marked P gen ?c' - marked P gen c = {pc}" using M(2,6) by (auto simp: marked_def)
      moreover have "\<exists>new. c_list ?c' = c_list c @ new \<and> th_pc ` set new = {k \<in> {pc}. stops P k}"
        using that M(4) by (intro exI [of _ "[\<lparr>th_pc = pc, th_slots = slots\<rparr>]"]) auto
      ultimately have "added P gen pc c ?c'"
        unfolding added_def using M(5) by (simp add: subset_insertI)
      moreover have "addThread (Suc fuel) P gen pos pc slots c = Some ?c'"
        unfolding unf using that by (auto simp: stops_def)
      ultimately show ?thesis by blast
    qed
    show ?thesis
    proof (cases "i_op ?i")
      case Class
      then show ?thesis using stop by (simp add: stops_def)
    next
      case Match
      then show ?thesis using stop by (simp add: stops_def)
    next
      case Jump
      then obtain c' where "addThread fuel P gen pos (i_x ?i) slots c1 = Some c'" "added P gen (i_x ?i) c1 c'"
        using Suc.IH [of "i_x ?i" c1 slots] ok M(1) sl fuel by auto
      then show ?thesis
        using added_after [OF M(6,2,4) al Suc.prems(1), of "i_x ?i" c'] Jump unf by (simp add: stops_def succs_def)
    next
      case Split
      then obtain c2 where c2: "addThread fuel P gen pos (i_x ?i) slots c1 = Some c2" "added P gen (i_x ?i) c1 c2"
        using Suc.IH [of "i_x ?i" c1 slots] ok M(1) sl fuel by auto
      then have "unmarked P gen c2 < fuel" "closure_ok P gen c2" "slots < length (c_arena c2)"
        using unmarked_mono [of P gen c1 c2] fuel sl by (auto simp: added_def)
      then obtain c' where "addThread fuel P gen pos (i_y ?i) slots c2 = Some c'" "added P gen (i_y ?i) c2 c'"
        using Suc.IH [of "i_y ?i" c2 slots] ok Split by auto
      then show ?thesis
        using added_both [OF M(6,2,4) al Suc.prems(1), of "i_x ?i" "i_y ?i" c2 c'] c2 Split unf by (simp add: stops_def succs_def)
    next
      case Save
      define c3 where "c3 = c1\<lparr>c_arena := c_arena c1 @ [(c_arena c1 ! slots)[nat (i_x ?i) := int pos]]\<rparr>"
      have "c_arena c1 ! slots \<in> set (c_arena c1)" using sl by simp
      then have "closure_ok P gen c3" using M(1) by (auto simp: closure_ok_def arena_ok_def c3_def)
      moreover have m3: "marked P gen c3 = marked P gen c1" "unmarked P gen c3 = unmarked P gen c1"
        by (simp_all add: marked_def unmarked_def c3_def)
      moreover have "length (c_arena c1) < length (c_arena c3)" by (simp add: c3_def)
      ultimately obtain c' where "addThread fuel P gen pos (pc + 1) (length (c_arena c1)) c3 = Some c'" "added P gen (pc + 1) c3 c'"
        using Suc.IH [of "pc + 1" c3 "length (c_arena c1)"] ok fuel Save by auto
      then show ?thesis
        using added_after [OF M(6) _ _ _ Suc.prems(1), of c3 "pc + 1" c'] m3(1) M(2,4,5) Save unf
        by (simp add: stops_def succs_def c3_def [symmetric]) (simp add: c3_def)
    qed
  qed
qed simp

section \<open>One position\<close>

text \<open>The closure holds exactly what follows the instructions \<open>S\<close> that have read the character.\<close>

definition holds_after :: "program \<Rightarrow> int \<Rightarrow> int set \<Rightarrow> closure \<Rightarrow> bool" where
  "holds_after P gen S c \<longleftrightarrow> closure_ok P gen c \<and>
     marked P gen c = {k. in_range k (pg_code P) \<and> (\<exists>t \<in> S. eps P (t + 1) k)} \<and>
     th_pc ` set (c_list c) = {k \<in> marked P gen c. stops P k}"

lemma closed_eps:
  assumes "eps P a k" and "a \<in> X" and "\<And>k. k \<in> X \<Longrightarrow> set (succs P k) \<subseteq> X"
  shows "k \<in> X"
  using assms(1,2) unfolding eps_def by (induction rule: rtranclp_induct) (use assms(3) in blast)+

lemma eps_range: "prog_ok g P \<Longrightarrow> in_range a (pg_code P) \<Longrightarrow> eps P a k \<Longrightarrow> in_range k (pg_code P)"
  unfolding eps_def by (erule rtranclp_induct) (auto intro: succs_range)

lemma holds_after_add:
  assumes "prog_ok g P" and "holds_after P gen S c" and "in_range (t + 1) (pg_code P)" and "added P gen (t + 1) c c'"
  shows "holds_after P gen (insert t S) c'"
proof -
  let ?M = "marked P gen c'"
  have m: "marked P gen c = {k. in_range k (pg_code P) \<and> (\<exists>t \<in> S. eps P (t + 1) k)}" using assms(2) by (simp add: holds_after_def)
  have sub: "marked P gen c \<subseteq> ?M" "t + 1 \<in> ?M" using assms(4) by (simp_all add: added_def)
  have closed: "set (succs P k) \<subseteq> ?M" if k: "k \<in> ?M" for k
  proof (cases "k \<in> marked P gen c")
    case True
    then obtain s where s: "in_range k (pg_code P)" "s \<in> S" "eps P (s + 1) k" using m by blast
    have "b \<in> marked P gen c" if b: "b \<in> set (succs P k)" for b
      using succs_range [OF assms(1) s(1) b] eps_trans [OF s(3) eps_step [OF s(1) b eps_refl]] s(2) m by blast
    then show ?thesis using sub by blast
  next
    case False
    then show ?thesis using assms(4) k by (simp add: added_def)
  qed
  have "?M = {k. in_range k (pg_code P) \<and> (\<exists>s \<in> insert t S. eps P (s + 1) k)}"
  proof (intro set_eqI iffI)
    fix k
    assume k: "k \<in> ?M"
    then have "in_range k (pg_code P)" by (simp add: marked_def)
    then show "k \<in> {k. in_range k (pg_code P) \<and> (\<exists>s \<in> insert t S. eps P (s + 1) k)}"
      using k m assms(4) by (cases "k \<in> marked P gen c") (auto simp: added_def)
  next
    fix k
    assume "k \<in> {k. in_range k (pg_code P) \<and> (\<exists>s \<in> insert t S. eps P (s + 1) k)}"
    then consider "k \<in> marked P gen c" | "eps P (t + 1) k" using m by blast
    then show "k \<in> ?M" using sub closed_eps [OF _ sub(2) closed] by cases blast+
  qed
  moreover have "th_pc ` set (c_list c') = {k \<in> ?M. stops P k}"
  proof -
    obtain new where new: "c_list c' = c_list c @ new" "th_pc ` set new = {k \<in> ?M - marked P gen c. stops P k}"
      using assms(4) by (auto simp: added_def)
    moreover have "th_pc ` set (c_list c) = {k \<in> marked P gen c. stops P k}" using assms(2) by (simp add: holds_after_def)
    ultimately have "th_pc ` set (c_list c') = {k \<in> marked P gen c. stops P k} \<union> {k \<in> ?M - marked P gen c. stops P k}"
      by (simp add: image_Un)
    also have "\<dots> = {k \<in> ?M. stops P k}" using sub(1) by blast
    finally show ?thesis .
  qed
  moreover have "closure_ok P gen c'" using assms(4) by (simp add: added_def)
  ultimately show ?thesis unfolding holds_after_def by blast
qed

definition threads_ok :: "program \<Rightarrow> thread list \<Rightarrow> closure \<Rightarrow> bool" where
  "threads_ok P ts c \<longleftrightarrow> (\<forall>t \<in> set ts. in_range (th_pc t) (pg_code P) \<and> stops P (th_pc t) \<and> th_slots t < length (c_arena c))"

lemma run_threads_holds:
  assumes "prog_ok g P"
  shows "holds_after P gen S c \<Longrightarrow> threads_ok P ts c \<Longrightarrow>
    \<exists>found c'. run_threads P line pos gen ts c = Some (found, c') \<and>
      (case found of
         Some t \<Rightarrow> t \<in> set ts \<and> i_op (ins_at P (th_pc t)) = Match \<and> pos = length line \<and> arena_ok P c' \<and>
           th_slots t < length (c_arena c')
       | None \<Rightarrow> holds_after P gen (S \<union> {k \<in> th_pc ` set ts. reads P line pos k}) c' \<and>
           (pos = length line \<longrightarrow> (\<forall>t \<in> set ts. i_op (ins_at P (th_pc t)) \<noteq> Match)))"
proof (induction ts arbitrary: S c)
  case Nil
  then show ?case by simp
next
  case (Cons t ts)
  let ?i = "ins_at P (th_pc t)"
  have i: "pg_code P ! nat (th_pc t) = ?i" by (simp add: ins_at_def)
  have r: "in_range (th_pc t) (pg_code P)" "stops P (th_pc t)" "th_slots t < length (c_arena c)" "threads_ok P ts c"
    using Cons.prems(2) by (simp_all add: threads_ok_def)
  show ?case
  proof (cases "i_op ?i = Match")
    case True
    then have "\<not> reads P line pos (th_pc t)" by (simp add: reads_def)
    then have s: "{k \<in> th_pc ` set (t # ts). reads P line pos k} = {k \<in> th_pc ` set ts. reads P line pos k}" by auto
    show ?thesis
    proof (cases "pos = length line")
      case True
      then show ?thesis using \<open>i_op ?i = Match\<close> Cons.prems(1) r(3) by (simp add: i Let_def holds_after_def closure_ok_def)
    next
      case False
      then show ?thesis using True Cons.IH [OF Cons.prems(1) r(4)] s by (fastforce simp: i Let_def split: option.splits)
    qed
  next
    case no: False
    show ?thesis
    proof (cases "reads P line pos (th_pc t)")
      case True
      then have c: "i_op ?i = Class" "pos < length line" "program_inClass P (i_x ?i) (line ! pos)" by (simp_all add: reads_def)
      have n: "in_range (th_pc t + 1) (pg_code P)" using assms r(1) c(1) by (auto simp: prog_ok_def split: op.splits)
      obtain c1 where c1: "addThread (fuel_for P) P gen (pos + 1) (th_pc t + 1) (th_slots t) c = Some c1" "added P gen (th_pc t + 1) c c1"
        using addThread_added [OF assms n _ r(3) unmarked_bound, of gen "pos + 1"] Cons.prems(1)
        unfolding holds_after_def by blast
      have "holds_after P gen (insert (th_pc t) S) c1" by (rule holds_after_add [OF assms Cons.prems(1) n c1(2)])
      moreover have "threads_ok P ts c1" using r(4) c1(2) by (auto simp: threads_ok_def added_def)
      moreover have "insert (th_pc t) S \<union> {k \<in> th_pc ` set ts. reads P line pos k} =
          S \<union> {k \<in> th_pc ` set (t # ts). reads P line pos k}" using True by auto
      ultimately show ?thesis
        using Cons.IH [of "insert (th_pc t) S" c1] c1(1) c no by (fastforce simp: i Let_def split: option.splits)
    next
      case False
      then have s: "{k \<in> th_pc ` set (t # ts). reads P line pos k} = {k \<in> th_pc ` set ts. reads P line pos k}" by auto
      have "\<not> (i_op ?i = Class \<and> pos < length line \<and> program_inClass P (i_x ?i) (line ! pos))"
        using False r(1) by (simp add: reads_def)
      then have "run_threads P line pos gen (t # ts) c = run_threads P line pos gen ts c"
        unfolding run_threads.simps Let_def i if_not_P [OF no] by (rule if_not_P)
      then show ?thesis using Cons.IH [OF Cons.prems(1) r(4)] s no by (fastforce split: option.splits)
    qed
  qed
qed


section \<open>A whole line\<close>

definition stands_at :: "program \<Rightarrow> string \<Rightarrow> nat \<Rightarrow> int \<Rightarrow> closure \<Rightarrow> bool" where
  "stands_at P line pos gen c \<longleftrightarrow> closure_ok P gen c \<and>
     th_pc ` set (c_list c) = {k. in_range k (pg_code P) \<and> stops P k \<and> reach P line 0 0 k pos}"

text \<open>What the machine may answer after the line.\<close>

definition verdict :: "program \<Rightarrow> string \<Rightarrow> (thread \<times> int list list) option \<Rightarrow> bool" where
  "verdict P line r \<longleftrightarrow>
     (case r of
        None \<Rightarrow> \<not> accepting P line
      | Some (t, arena) \<Rightarrow> accepting P line \<and> th_slots t < length arena \<and>
          (\<forall>row \<in> set arena. length row = 2 * length (pg_slotCapture P)))"

lemma stands_next:
  assumes "prog_ok g P" and "stands_at P line pos gen c"
    and "holds_after P gen' {k \<in> th_pc ` set (c_list c). reads P line pos k} c'"
  shows "stands_at P line (pos + 1) gen' c'"
proof -
  have S: "{k \<in> th_pc ` set (c_list c). reads P line pos k} = {t. reach P line 0 0 t pos \<and> reads P line pos t}"
    using assms(2) by (auto simp: stands_at_def reads_def stops_def)
  have "marked P gen' c' = {k. in_range k (pg_code P) \<and> reach P line 0 0 k (pos + 1)}"
    using assms(3) reach_next [of P line _ pos] unfolding S holds_after_def by auto
  then show ?thesis using assms(3) by (auto simp: stands_at_def holds_after_def)
qed

lemma run_positions_step:
  assumes "prog_ok g P" and "stands_at P line pos gen c" and "pos \<le> length line" and "gen < kIntMax"
  obtains found c' where
    "run_positions P line pos gen c =
       (case found of Some t \<Rightarrow> Some (Some (t, c_arena c'), gen + 1)
        | None \<Rightarrow> if length line \<le> pos then Some (None, gen + 1)
                 else if c_list c' = [] then Some (None, gen + 1) else run_positions P line (pos + 1) (gen + 1) c')"
    "case found of Some t \<Rightarrow> verdict P line (Some (t, c_arena c'))
     | None \<Rightarrow> stands_at P line (pos + 1) (gen + 1) c' \<and> (pos = length line \<longrightarrow> \<not> accepting P line)"
proof -
  let ?c = "c\<lparr>c_list := []\<rparr>"
  have c: "closure_ok P gen c" "\<And>k. k \<in> th_pc ` set (c_list c) \<longleftrightarrow> in_range k (pg_code P) \<and> stops P k \<and> reach P line 0 0 k pos"
    using assms(2) by (simp_all add: stands_at_def)
  have "c_seen c ! nat k \<noteq> gen + 1" if "in_range k (pg_code P)" for k
  proof -
    have "nat k < length (c_seen c)" using that c(1) by (auto simp: closure_ok_def in_range_def)
    then have "c_seen c ! nat k \<le> gen" using c(1) by (simp add: closure_ok_def)
    then show ?thesis by simp
  qed
  then have "marked P (gen + 1) ?c = {}" by (auto simp: marked_def)
  moreover have "closure_ok P (gen + 1) ?c" using c(1) by (force simp: closure_ok_def arena_ok_def)
  ultimately have h: "holds_after P (gen + 1) {} ?c" by (simp add: holds_after_def)
  have t: "threads_ok P (c_list c) ?c"
    using c by (auto simp: threads_ok_def closure_ok_def arena_ok_def)
  from run_threads_holds [OF assms(1) h t, of line pos] obtain found c' where
    r: "run_threads P line pos (gen + 1) (c_list c) ?c = Some (found, c')" and
    f: "case found of
         Some t \<Rightarrow> t \<in> set (c_list c) \<and> i_op (ins_at P (th_pc t)) = Match \<and> pos = length line \<and> arena_ok P c' \<and>
           th_slots t < length (c_arena c')
       | None \<Rightarrow> holds_after P (gen + 1) ({} \<union> {k \<in> th_pc ` set (c_list c). reads P line pos k}) c' \<and>
           (pos = length line \<longrightarrow> (\<forall>t \<in> set (c_list c). i_op (ins_at P (th_pc t)) \<noteq> Match))"
    by blast
  show thesis
  proof (rule that)
    show "run_positions P line pos gen c =
       (case found of Some t \<Rightarrow> Some (Some (t, c_arena c'), gen + 1)
        | None \<Rightarrow> if length line \<le> pos then Some (None, gen + 1)
                 else if c_list c' = [] then Some (None, gen + 1) else run_positions P line (pos + 1) (gen + 1) c')"
      using assms(4) by (simp add: run_positions.simps [of P line pos gen c] next_generation_def r)
    show "case found of Some t \<Rightarrow> verdict P line (Some (t, c_arena c'))
     | None \<Rightarrow> stands_at P line (pos + 1) (gen + 1) c' \<and> (pos = length line \<longrightarrow> \<not> accepting P line)"
    proof (cases found)
      case (Some t)
      then have "in_range (th_pc t) (pg_code P) \<and> reach P line 0 0 (th_pc t) (length line)" "i_op (ins_at P (th_pc t)) = Match"
        using f c(2) [of "th_pc t"] by auto
      then have "accepting P line" unfolding accepting_def by blast
      then show ?thesis using f Some by (simp add: verdict_def arena_ok_def)
    next
      case None
      have "\<not> accepting P line" if e: "pos = length line"
      proof
        assume "accepting P line"
        then obtain q where q: "in_range q (pg_code P)" "i_op (ins_at P q) = Match" "reach P line 0 0 q pos"
          unfolding accepting_def e by blast
        then have "q \<in> th_pc ` set (c_list c)" using c(2) by (simp add: stops_def)
        then show False using f None e q(2) by auto
      qed
      then show ?thesis using f None stands_next [OF assms(1,2)] by simp
    qed
  qed
qed

lemma run_positions_found:
  assumes "prog_ok g P"
  shows "stands_at P line pos gen c \<Longrightarrow> pos \<le> length line \<Longrightarrow> gen + int (length line - pos) < kIntMax \<Longrightarrow>
    \<exists>r gen'. run_positions P line pos gen c = Some (r, gen') \<and> gen \<le> gen' \<and> gen' \<le> gen + int (length line - pos) + 1 \<and>
      verdict P line r"
proof (induction "length line - pos" arbitrary: pos gen c)
  case 0
  then have p: "pos = length line" "gen < kIntMax" by auto
  obtain found c' where r: "run_positions P line pos gen c =
       (case found of Some t \<Rightarrow> Some (Some (t, c_arena c'), gen + 1)
        | None \<Rightarrow> if length line \<le> pos then Some (None, gen + 1)
                 else if c_list c' = [] then Some (None, gen + 1) else run_positions P line (pos + 1) (gen + 1) c')"
    "case found of Some t \<Rightarrow> verdict P line (Some (t, c_arena c'))
     | None \<Rightarrow> stands_at P line (pos + 1) (gen + 1) c' \<and> (pos = length line \<longrightarrow> \<not> accepting P line)"
    by (rule run_positions_step [OF assms "0.prems"(1,2) p(2)])
  show ?case
  proof (cases found)
    case None
    then have "run_positions P line pos gen c = Some (None, gen + 1)" "verdict P line None" using r p by (simp_all add: verdict_def)
    then show ?thesis using p by simp
  next
    case (Some t)
    then show ?thesis using r p by simp
  qed
next
  case (Suc m)
  have p: "pos < length line" "gen < kIntMax" using Suc.hyps(2) Suc.prems(3) by linarith+
  obtain found c' where r: "run_positions P line pos gen c =
       (case found of Some t \<Rightarrow> Some (Some (t, c_arena c'), gen + 1)
        | None \<Rightarrow> if length line \<le> pos then Some (None, gen + 1)
                 else if c_list c' = [] then Some (None, gen + 1) else run_positions P line (pos + 1) (gen + 1) c')"
    "case found of Some t \<Rightarrow> verdict P line (Some (t, c_arena c'))
     | None \<Rightarrow> stands_at P line (pos + 1) (gen + 1) c' \<and> (pos = length line \<longrightarrow> \<not> accepting P line)"
    by (rule run_positions_step [OF assms Suc.prems(1,2) p(2)])
  show ?case
  proof (cases found)
    case (Some t)
    then show ?thesis using r by simp
  next
    case None
    then have s: "stands_at P line (pos + 1) (gen + 1) c'" using r(2) by simp
    show ?thesis
    proof (cases "c_list c' = []")
      case True
      then have n: "\<not> (in_range k (pg_code P) \<and> stops P k \<and> reach P line 0 0 k (pos + 1))" for k
        using s by (auto simp: stands_at_def)
      have cls: "i_op (ins_at P t) \<noteq> Class \<or> \<not> in_range t (pg_code P)" if "reach P line 0 0 t (pos + 1)" for t
        using n [of t] that by (auto simp: stops_def)
      have "\<not> accepting P line"
      proof
        assume "accepting P line"
        then obtain q where q: "in_range q (pg_code P)" "i_op (ins_at P q) = Match" "reach P line 0 0 q (length line)"
          by (auto simp: accepting_def)
        show False
        proof (cases "pos + 1 = length line")
          case True
          then show ?thesis using n [of q] q by (auto simp: stops_def)
        next
          case False
          then show ?thesis using reach_none [of P line "pos + 1" "length line" q] cls q(3) p(1) by auto
        qed
      qed
      then have "run_positions P line pos gen c = Some (None, gen + 1)" "verdict P line None"
        using r(1) None True p(1) by (simp_all add: verdict_def)
      then show ?thesis by simp
    next
      case False
      have m: "m = length line - (pos + 1)" "int (length line - pos) = int (length line - (pos + 1)) + 1"
        using Suc.hyps(2) p(1) by auto
      obtain r' gen' where "run_positions P line (pos + 1) (gen + 1) c' = Some (r', gen')" "gen + 1 \<le> gen'"
          "gen' \<le> gen + 1 + int (length line - (pos + 1)) + 1" "verdict P line r'"
        using Suc.hyps(1) [OF m(1) s] p(1) Suc.prems(3) m(2) by auto
      then show ?thesis using r(1) None False p(1) m(2) by simp
    qed
  qed
qed

lemma run_program_found:
  assumes "prog_ok g P" and "0 \<le> gen" and "gen + int (length line) + 1 < kIntMax"
  shows "\<exists>r gen'. run_program P line gen = Some (r, gen') \<and> gen \<le> gen' \<and> gen' \<le> gen + int (length line) + 2 \<and>
    verdict P line r"
proof -
  let ?c = "\<lparr>c_list = [], c_seen = replicate (length (pg_code P)) 0,
            c_arena = [replicate (2 * length (pg_slotCapture P)) (- 1)]\<rparr>"
  have 0: "in_range 0 (pg_code P)" using assms(1) by (simp add: prog_ok_def in_range_def)
  have c: "closure_ok P (gen + 1) ?c" using assms(2) by (auto simp: closure_ok_def arena_ok_def)
  have m: "marked P (gen + 1) ?c = {}" using assms(2) by (auto simp: marked_def in_range_def)
  obtain c' where c': "addThread (fuel_for P) P (gen + 1) 0 0 0 ?c = Some c'" "added P (gen + 1) 0 ?c c'"
    using addThread_added [OF assms(1) 0 c _ unmarked_bound, of 0 0] by auto
  have "marked P (gen + 1) c' = {k. in_range k (pg_code P) \<and> eps P 0 k}"
  proof (intro set_eqI iffI)
    fix k
    assume "k \<in> marked P (gen + 1) c'"
    then show "k \<in> {k. in_range k (pg_code P) \<and> eps P 0 k}" using c'(2) m by (auto simp: added_def marked_def)
  next
    fix k
    assume k: "k \<in> {k. in_range k (pg_code P) \<and> eps P 0 k}"
    show "k \<in> marked P (gen + 1) c'"
      by (rule closed_eps [of P 0]) (use k c'(2) m in \<open>auto simp: added_def\<close>)
  qed
  then have "stands_at P line 0 (gen + 1) c'"
    using c'(2) m by (auto simp: stands_at_def added_def reach_here)
  from run_positions_found [OF assms(1) this] obtain r gen' where
    r: "run_positions P line 0 (gen + 1) c' = Some (r, gen')" "gen + 1 \<le> gen'" "gen' \<le> gen + 1 + int (length line) + 1" "verdict P line r"
    using assms(3) by auto
  have "run_program P line gen = Some (r, gen')" using assms(3) c'(1) r(1) by (simp add: run_program_def next_generation_def)
  then show ?thesis using r by auto
qed

section \<open>The compiled matcher\<close>

text \<open>What holds of a matcher between two lines: its programs are those of the rules.\<close>

definition matcher_ok :: "grammar \<Rightarrow> program_matcher \<Rightarrow> bool" where
  "matcher_ok g m \<longleftrightarrow> length (pm_programs m) = length (g_ruleNames g) \<and> 0 \<le> pm_generation m \<and>
     (\<forall>r P. in_range r (pm_programs m) \<longrightarrow> pm_programs m ! nat r = Some P \<longrightarrow> compileRule g r = Emitted P)"

lemma new_matcher_ok: "matcher_ok g (new_program_matcher g)"
  by (auto simp: matcher_ok_def new_program_matcher_def in_range_def)

lemma programFor_ok:
  assumes "matcher_ok g m" and "programFor g rule m = Some (p, m')"
  shows "matcher_ok g m' \<and> pm_generation m' = pm_generation m \<and> (\<forall>P. p = Some P \<longrightarrow> compileRule g rule = Emitted P)"
proof (cases "in_range rule (pm_programs m)")
  case True
  then have r: "nat rule < length (pm_programs m)" "0 \<le> rule" by (auto simp: in_range_def)
  show ?thesis
  proof (cases "pm_programs m ! nat rule")
    case (Some P)
    then show ?thesis using assms True by (auto simp: programFor_def matcher_ok_def)
  next
    case None
    show ?thesis
    proof (cases "compileRule g rule")
      case (Emitted P)
      then have p: "p = Some P" "m' = m\<lparr>pm_programs := (pm_programs m)[nat rule := Some P]\<rparr>"
        using assms(2) True None by (auto simp: programFor_def)
      have "compileRule g k = Emitted Q" if "in_range k (pm_programs m)" "(pm_programs m)[nat rule := Some P] ! nat k = Some Q" for k Q
      proof (cases "k = rule")
        case True
        then show ?thesis using that(2) r Emitted by simp
      next
        case False
        then have "nat k \<noteq> nat rule" using that(1) r(2) by (auto simp: in_range_def)
        then show ?thesis using that assms(1) by (simp add: matcher_ok_def)
      qed
      then show ?thesis using assms(1) p Emitted by (simp add: matcher_ok_def in_range_def)
    next
      case (Failed e)
      then show ?thesis using assms True None by (auto simp: programFor_def matcher_ok_def)
    next
      case Undefined
      then show ?thesis using assms True None by (simp add: programFor_def)
    qed
  qed
qed (use assms in \<open>auto simp: programFor_def\<close>)

lemma push_values_nth:
  assumes "\<forall>c \<in> set cs. 0 \<le> fst c \<and> fst c < int (length vs)"
  shows "push_values cs vs = map (\<lambda>i. vs ! i @ map snd (filter (\<lambda>c. fst c = int i) cs)) [0..<length vs]"
  using assms
proof (induction cs arbitrary: vs)
  case Nil
  then show ?case by (simp add: push_values_def map_nth)
next
  case (Cons c cs)
  let ?vs = "vs[nat (fst c) := vs ! nat (fst c) @ [snd c]]"
  have v: "?vs ! i = (if int i = fst c then vs ! i @ [snd c] else vs ! i)" if "i < length vs" for i
    using that Cons.prems by (auto simp: nth_list_update)
  have "push_values (c # cs) vs = push_values cs ?vs" by (simp add: push_values_def)
  then show ?case using Cons.IH [of ?vs] Cons.prems v by auto
qed

lemma saved_slots:
  assumes "\<forall>c \<in> set (pg_slotCapture P). in_range c xs"
  shows "\<forall>c \<in> set (saved_captures P line saved). in_range (fst c) xs"
  using assms by (auto simp: saved_captures_def slot_capture_def Let_def split: if_splits)

lemma program_match_some:
  assumes "grammar_wf g" and "matcher_ok g m" and "programFor g rule m = Some (Some P, m1)"
    and "pm_generation m + int (length line) + 1 < kIntMax"
  obtains ok out m' where "program_match g m rule line = Some (ok, out, m')" "ok \<longleftrightarrow> lang g (ruleRoot g rule) line"
    "matcher_ok g m'" "pm_generation m' \<le> pm_generation m + int (length line) + 2"
    "if ok then \<exists>cs. out = captured g cs \<and> (\<forall>c \<in> set cs. in_range (fst c) (g_captureNames g)) else out = mr_reset g"
proof -
  have m1: "matcher_ok g m1" "pm_generation m1 = pm_generation m" "compileRule g rule = Emitted P"
    using programFor_ok [OF assms(2,3)] by simp_all
  have P: "prog_ok g P" by (rule compiled_ok [OF assms(1) m1(3)])
  have gen: "0 \<le> pm_generation m1" "pm_generation m1 + int (length line) + 1 < kIntMax"
    using m1 assms(4) by (simp_all add: matcher_ok_def)
  obtain r gen' where r: "run_program P line (pm_generation m1) = Some (r, gen')" "pm_generation m1 \<le> gen'"
      "gen' \<le> pm_generation m1 + int (length line) + 2" "verdict P line r"
    using run_program_found [OF P gen] by blast
  have ne: "pg_code P \<noteq> []" and slots: "\<forall>c \<in> set (pg_slotCapture P). in_range c (g_captureNames g)"
    using P by (simp_all add: prog_ok_def)
  have acc: "accepting P line \<longleftrightarrow> lang g (ruleRoot g rule) line" by (rule compiled_language [OF assms(1) m1(3)])
  let ?m' = "m1\<lparr>pm_generation := gen'\<rparr>"
  have m': "matcher_ok g ?m'" using m1(1) r(2) gen(1) by (simp add: matcher_ok_def)
  show thesis
  proof (cases r)
    case None
    then have "program_match g m rule line = Some (False, mr_reset g, ?m')"
      using assms(3) r(1) ne by (simp add: program_match_def)
    then show thesis using that m' r(3,4) m1(2) acc None by (simp add: verdict_def)
  next
    case (Some ta)
    obtain t arena where ta: "ta = (t, arena)" by (cases ta)
    let ?cs = "saved_captures P line (arena ! th_slots t)"
    let ?out = "mr_adopt (push_values ?cs (replicate (length (g_captureNames g)) [])) (map snd ?cs) (map fst ?cs) (mr_reset g)"
    have cs: "\<forall>c \<in> set ?cs. in_range (fst c) (g_captureNames g)" by (rule saved_slots [OF slots])
    then have "\<forall>c \<in> set ?cs. 0 \<le> fst c \<and> fst c < int (length (replicate (length (g_captureNames g)) ([] :: string list)))"
      by (simp add: in_range_def)
    from push_values_nth [OF this] have "?out = captured g ?cs"
      by (simp add: captured_def mr_adopt_def mr_reset_def)
    moreover have "program_match g m rule line = Some (True, ?out, ?m')"
      using assms(3) r(1) ne Some ta by (simp add: program_match_def Let_def)
    ultimately show thesis using that m' r(3,4) m1(2) acc Some ta cs by (auto simp: verdict_def)
  qed
qed

section \<open>All rules at start-up\<close>

lemma programFor_keeps:
  assumes "programFor g rule m = Some (p, m')"
  shows "length (pm_programs m') = length (pm_programs m)"
    and "in_range r (pm_programs m) \<Longrightarrow> pm_programs m ! nat r = Some Q \<Longrightarrow> pm_programs m' ! nat r = Some Q"
  using assms by (cases "nat r = nat rule"; auto simp: programFor_def split: if_splits option.splits emitted.splits)+

lemma programFor_some:
  assumes "programFor g rule m = Some (Some P, m')"
  shows "in_range rule (pm_programs m') \<and> pm_programs m' ! nat rule = Some P"
  using assms by (auto simp: programFor_def in_range_def split: if_splits option.splits emitted.splits)

lemma compileRules_all:
  "matcher_ok g m \<Longrightarrow> compileRules g rs m = Some (True, m') \<Longrightarrow>
   matcher_ok g m' \<and> pm_generation m' = pm_generation m \<and> length (pm_programs m') = length (pm_programs m) \<and>
   (\<forall>r Q. in_range r (pm_programs m) \<longrightarrow> pm_programs m ! nat r = Some Q \<longrightarrow> pm_programs m' ! nat r = Some Q) \<and>
   (\<forall>r \<in> set rs. ruleRoot g r \<noteq> kNoRule \<longrightarrow> in_range r (pm_programs m') \<and> pm_programs m' ! nat r \<noteq> None)"
proof (induction rs arbitrary: m)
  case (Cons r rs)
  show ?case
  proof (cases "ruleRoot g r = kNoRule")
    case True
    then show ?thesis using Cons by simp
  next
    case False
    then obtain P m1 where p: "programFor g r m = Some (Some P, m1)" "compileRules g rs m1 = Some (True, m')"
      using Cons.prems(2) by (auto split: option.splits if_splits)
    have m1: "matcher_ok g m1" "pm_generation m1 = pm_generation m" using programFor_ok [OF Cons.prems(1) p(1)] by simp_all
    note k = programFor_keeps [OF p(1)] and s = programFor_some [OF p(1)]
    note IH = Cons.IH [OF m1(1) p(2)]
    have "in_range r (pm_programs m')" using s IH by (simp add: in_range_def)
    moreover have "pm_programs m' ! nat r \<noteq> None" using s IH by auto
    moreover have "pm_programs m' ! nat j = Some Q" if "in_range j (pm_programs m)" "pm_programs m ! nat j = Some Q" for j Q
      using IH k(2) [OF that] that(1) k(1) by (simp add: in_range_def)
    ultimately show ?thesis using IH m1(2) k(1) by auto
  qed
qed simp

lemma compileAll_all:
  assumes "length (g_ruleRoots g) = length (g_ruleNames g)" and "compileAll g (new_program_matcher g) = Some (True, m)"
  shows "matcher_ok g m" "pm_generation m = 0" "ruleRoot g r \<noteq> kNoRule \<Longrightarrow> \<exists>P. programFor g r m = Some (Some P, m)"
proof -
  have l: "length (pm_programs (new_program_matcher g)) = length (g_ruleNames g)" by (simp add: new_program_matcher_def)
  note A = compileRules_all [OF new_matcher_ok assms(2) [unfolded compileAll_def l]]
  show "matcher_ok g m" using A by blast
  show "pm_generation m = 0" using A by (simp add: new_program_matcher_def)
  show "\<exists>P. programFor g r m = Some (Some P, m)" if r: "ruleRoot g r \<noteq> kNoRule"
  proof -
    have "in_range r (g_ruleNames g)" using r assms(1) by (auto simp: ruleRoot_def in_range_def split: if_splits)
    then have "r \<in> set (map int [0..<length (g_ruleNames g)])"
      by (auto simp: in_range_def image_iff intro!: bexI [of _ "nat r"])
    then have "in_range r (pm_programs m)" "pm_programs m ! nat r \<noteq> None" using A r by blast+
    then show ?thesis by (auto simp: programFor_def)
  qed
qed

end
