(* ===== verification/Grammar_Matchers.thy ===== *)
theory Grammar_Matchers
  imports Machine_Correct
begin

text \<open>
  The interface \<open>Abnf::IMatcher\<close> (\<open>src/include/grammar/IMatcher.hpp\<close>) as a locale: what the
  server relies on in a matcher, and that both strategies, the backtracking tree matcher and
  the compiled one, provide it.
\<close>

section \<open>What a matcher promises\<close>

locale line_matcher =
  fixes run :: "grammar \<Rightarrow> 'm \<Rightarrow> int \<Rightarrow> string \<Rightarrow> (bool \<times> match_result \<times> 'm) option"
    and usable :: "grammar \<Rightarrow> 'm \<Rightarrow> int \<Rightarrow> string \<Rightarrow> bool"
    and gave_up :: "'m \<Rightarrow> bool"
  assumes answers: "usable g m r line \<Longrightarrow> run g m r line \<noteq> None"
    and found: "usable g m r line \<Longrightarrow> run g m r line = Some (True, out, m') \<Longrightarrow>
      \<not> gave_up m' \<and> lang g (ruleRoot g r) line \<and>
      (\<exists>cs. out = captured g cs \<and> (\<forall>c \<in> set cs. in_range (fst c) (g_captureNames g)))"
    and missed: "usable g m r line \<Longrightarrow> run g m r line = Some (False, out, m') \<Longrightarrow>
      out = mr_reset g \<and> (gave_up m' \<or> \<not> lang g (ruleRoot g r) line)"
begin

lemma result_ok:
  assumes "usable g m r line" and "run g m r line = Some (ok, out, m')"
  shows "mr_ok out"
  using found [OF assms(1), of out m'] missed [OF assms(1), of out m'] assms(2) by (cases ok) (auto intro: captured_ok mr_reset_ok)

lemma decides:
  assumes "usable g m r line" and "run g m r line = Some (ok, out, m')" and "\<not> gave_up m'"
  shows "ok \<longleftrightarrow> lang g (ruleRoot g r) line"
  using found [OF assms(1), of out m'] missed [OF assms(1), of out m'] assms(2,3) by (cases ok) auto

end

section \<open>The backtracking matcher\<close>

text \<open>The state between two lines is the flag \<open>_exhausted\<close>.\<close>

definition tree_run :: "grammar \<Rightarrow> bool \<Rightarrow> int \<Rightarrow> string \<Rightarrow> (bool \<times> match_result \<times> bool) option" where
  "tree_run g e r line = Some (tree_match g r line)"

definition tree_usable :: "grammar \<Rightarrow> bool \<Rightarrow> int \<Rightarrow> string \<Rightarrow> bool" where
  "tree_usable g e r line \<longleftrightarrow> grammar_wf g \<and> counts_ok g \<and> repetitions_ok g \<and> ruleRoot g r \<noteq> kNoRule"

interpretation tree: line_matcher tree_run tree_usable "\<lambda>e. e"
proof unfold_locales
  fix g e r line out e'
  assume u: "tree_usable g e r line"
  show "tree_run g e r line \<noteq> None" by (simp add: tree_run_def)
  show "\<not> e' \<and> lang g (ruleRoot g r) line \<and>
      (\<exists>cs. out = captured g cs \<and> (\<forall>c \<in> set cs. in_range (fst c) (g_captureNames g)))"
    if "tree_run g e r line = Some (True, out, e')"
    using tree_match_found [of g r line out e'] that u yields_slots(1) unfolding tree_usable_def tree_run_def lang_def by blast
  show "out = mr_reset g \<and> (e' \<or> \<not> lang g (ruleRoot g r) line)" if "tree_run g e r line = Some (False, out, e')"
    using tree_match_failed [of g r line out e'] tree_match_none [of g r line out] that u
    unfolding tree_usable_def tree_run_def lang_def by auto
qed

section \<open>The compiled matcher\<close>

text \<open>A matcher that has the program of the rule, and a generation counter with room for the line.\<close>

definition pike_usable :: "grammar \<Rightarrow> program_matcher \<Rightarrow> int \<Rightarrow> string \<Rightarrow> bool" where
  "pike_usable g m r line \<longleftrightarrow> grammar_wf g \<and> matcher_ok g m \<and> pm_generation m + int (length line) + 1 < kIntMax \<and>
     (\<exists>P m1. programFor g r m = Some (Some P, m1))"

interpretation pike: line_matcher program_match pike_usable "\<lambda>m. False"
proof unfold_locales
  fix g m r line out m'
  assume u: "pike_usable g m r line"
  then obtain P m1 where p: "grammar_wf g" "matcher_ok g m" "programFor g r m = Some (Some P, m1)"
      "pm_generation m + int (length line) + 1 < kIntMax" by (auto simp: pike_usable_def)
  from program_match_some [OF this] obtain ok o' m2 where r: "program_match g m r line = Some (ok, o', m2)"
      "ok \<longleftrightarrow> lang g (ruleRoot g r) line"
      "if ok then \<exists>cs. o' = captured g cs \<and> (\<forall>c \<in> set cs. in_range (fst c) (g_captureNames g)) else o' = mr_reset g" .
  show "program_match g m r line \<noteq> None" using r by simp
  show "\<not> False \<and> lang g (ruleRoot g r) line \<and>
      (\<exists>cs. out = captured g cs \<and> (\<forall>c \<in> set cs. in_range (fst c) (g_captureNames g)))"
    if "program_match g m r line = Some (True, out, m')" using r that by simp
  show "out = mr_reset g \<and> (False \<or> \<not> lang g (ruleRoot g r) line)"
    if "program_match g m r line = Some (False, out, m')" using r that by simp
qed

lemma pike_keeps:
  assumes "pike_usable g m r line" and "program_match g m r line = Some (ok, out, m')"
  shows "matcher_ok g m'" "pm_generation m' \<le> pm_generation m + int (length line) + 2"
proof -
  obtain P m1 where p: "grammar_wf g" "matcher_ok g m" "programFor g r m = Some (Some P, m1)"
      "pm_generation m + int (length line) + 1 < kIntMax" using assms(1) by (auto simp: pike_usable_def)
  from program_match_some [OF this] assms(2) show "matcher_ok g m'" "pm_generation m' \<le> pm_generation m + int (length line) + 2"
    by (metis option.inject prod.inject)+
qed

end
