(* ===== verification/Start_Correct.thy ===== *)
theory Start_Correct
  imports Start_Up Validator_Correct Grammar_Matchers
begin

text \<open>
  What \<open>initGrammar\<close> hands to the rest of the server: a well-formed grammar, one rule per
  command, and a matcher that accepts nothing its rule does not derive, whichever strategy
  the environment chose.
\<close>

section \<open>Command rules\<close>

definition command_entry :: "grammar \<Rightarrow> string \<times> int \<Rightarrow> bool" where
  "command_entry g e \<longleftrightarrow> in_range (snd e) (g_ruleNames g) \<and>
     (\<exists>stem. stem \<noteq> [] \<and> ruleName g (snd e) = stem @ ''-cmd'' \<and> fst e = map to_upper_char stem)"

lemma bindCommandRules_entry:
  assumes "e \<in> set (bindCommandRules g)"
  shows "command_entry g e"
proof -
  have put: "\<forall>e \<in> set (om_put k i rules). command_entry g e"
    if "\<forall>e \<in> set rules. command_entry g e" "command_entry g (k, i)" for k i rules
    using that by (auto simp: om_put_def)
  have new: "command_entry g (map to_upper_char (take (length r - length suffix) r), int i)"
    if "i < length (g_ruleNames g)" "r = ruleName g (int i)" "\<not> length r \<le> length suffix"
      "drop (length r - length suffix) r = suffix" "suffix = ''-cmd''" for i r and suffix :: string
    using that append_take_drop_id [of "length r - length suffix" r]
    by (auto simp: command_entry_def in_range_def intro!: exI [of _ "take (length r - length suffix) r"])
  have "\<forall>e \<in> set (bindCommandRules g). command_entry g e"
    unfolding bindCommandRules_def Let_def
  proof (rule foldl_inv)
    fix rules i
    assume h: "\<forall>e \<in> set rules. command_entry g e" and i: "i \<in> set [0..<length (g_ruleNames g)]"
    let ?r = "ruleName g (int i)"
    have "command_entry g (map to_upper_char (take (length ?r - length ''-cmd'') ?r), int i)"
      if "\<not> length ?r \<le> length ''-cmd''" "drop (length ?r - length ''-cmd'') ?r = ''-cmd''"
      using new [OF _ refl that refl] i by simp
    then show "\<forall>e \<in> set (if length ?r \<le> length ''-cmd'' then rules
        else if drop (length ?r - length ''-cmd'') ?r \<noteq> ''-cmd'' then rules
        else om_put (map to_upper_char (take (length ?r - length ''-cmd'') ?r)) (int i) rules). command_entry g e"
      using h put [OF h] by (cases "length ?r \<le> length ''-cmd''"; cases "drop (length ?r - length ''-cmd'') ?r = ''-cmd''") simp_all
  qed simp
  then show ?thesis using assms by blast
qed

section \<open>Both matchers accept only what the rule derives\<close>

lemma tree_answer_sound:
  assumes "grammar_wf g" and "counts_ok g" and "tree_answer g rule line = Some out"
  shows "lang g (ruleRoot g rule) line \<and> (\<exists>cs. out = captured g cs)"
proof -
  obtain e where "tree_match g rule line = (True, out, e)"
    using assms(3) by (auto simp: tree_answer_def Let_def split: prod.splits if_splits)
  then show ?thesis using tree_match_found [OF assms(1,2)] unfolding lang_def by blast
qed

lemma program_answer_exact:
  assumes "grammar_wf g" and "compileAll g (new_program_matcher g) = Some (True, m)"
    and "ruleRoot g rule \<noteq> kNoRule" and "int (length line) + 1 < kIntMax"
  shows "(\<exists>out. program_answer g m rule line = Some out) \<longleftrightarrow> lang g (ruleRoot g rule) line"
    and "program_answer g m rule line = Some out \<Longrightarrow> \<exists>cs. out = captured g cs"
proof -
  have l: "length (g_ruleRoots g) = length (g_ruleNames g)" using assms(1) by (simp add: grammar_wf_def)
  note all = compileAll_all [OF l assms(2)]
  obtain P where P: "programFor g rule m = Some (Some P, m)" using all(3) [OF assms(3)] by blast
  obtain ok o' m' where r: "program_match g m rule line = Some (ok, o', m')" "ok \<longleftrightarrow> lang g (ruleRoot g rule) line"
      "if ok then \<exists>cs. o' = captured g cs \<and> (\<forall>c \<in> set cs. in_range (fst c) (g_captureNames g)) else o' = mr_reset g"
    using program_match_some [OF assms(1) all(1) P] all(2) assms(4) by (metis add.left_neutral)
  show "(\<exists>out. program_answer g m rule line = Some out) \<longleftrightarrow> lang g (ruleRoot g rule) line"
    using r by (simp add: program_answer_def)
  show "\<exists>cs. out = captured g cs" if "program_answer g m rule line = Some out"
    using r that by (auto simp: program_answer_def split: if_splits)
qed

section \<open>The parser of a server that started\<close>

lemma initGrammar_parts:
  assumes "initGrammar files origin strategy = Some (Inr P)"
  obtains contents answer where "snd (grammar_source files origin) = Some contents"
    "compile_grammar contents = Some (Inr (ps_grammar P))" "choose_matcher strategy (ps_grammar P) = Some (Inr answer)"
    "ps_match P = answer" "ps_messageRule P = ruleIndex (ps_grammar P) ''message''" "ps_messageRule P \<noteq> kNoRule"
    "ps_commandRules P = bindCommandRules (ps_grammar P)" "set (map fst (ps_commandRules P)) = set command_names"
proof -
  obtain name contents g answer where p: "grammar_source files origin = (name, Some contents)"
      "compile_grammar contents = Some (Inr g)" "choose_matcher strategy g = Some (Inr answer)"
      "ruleIndex g ''message'' \<noteq> kNoRule" "verifyCommandTable (bindCommandRules g) command_names name = None"
      "P = \<lparr>ps_grammar = g, ps_match = answer, ps_messageRule = ruleIndex g ''message'', ps_commandRules = bindCommandRules g\<rparr>"
    using assms by (auto simp: initGrammar_def Let_def split: prod.splits option.splits sum.splits if_splits)
  have "set (map fst (bindCommandRules g)) = set command_names"
    using p(5) by (auto simp: verifyCommandTable_def Let_def filter_empty_conv map_of_eq_None_iff split: if_splits)
  then show ?thesis using that p by simp
qed

lemma commandRule_entry:
  assumes "ps_commandRules P = bindCommandRules (ps_grammar P)" and "commandRule P name \<noteq> kNoRule"
  shows "command_entry (ps_grammar P) (name, commandRule P name)"
proof -
  obtain i where "map_of (ps_commandRules P) name = Some i" "commandRule P name = i"
    using assms(2) by (auto simp: commandRule_def split: option.splits)
  then show ?thesis using bindCommandRules_entry map_of_SomeD assms(1) by metis
qed

lemma commandRule_known:
  assumes "ps_commandRules P = bindCommandRules (ps_grammar P)"
  shows "commandRule P name \<noteq> kNoRule \<longleftrightarrow> name \<in> set (map fst (ps_commandRules P))"
proof -
  have "i \<noteq> kNoRule" if "map_of (ps_commandRules P) name = Some i" for i
    using bindCommandRules_entry [of "(name, i)" "ps_grammar P"] map_of_SomeD [OF that] assms
    by (auto simp: command_entry_def in_range_def)
  moreover have "map_of (ps_commandRules P) name = None \<longleftrightarrow> name \<notin> set (map fst (ps_commandRules P))"
    by (simp add: map_of_eq_None_iff)
  ultimately show ?thesis by (auto simp: commandRule_def split: option.splits)
qed

lemma ruleIndex_range: "ruleIndex g name \<noteq> kNoRule \<Longrightarrow> in_range (ruleIndex g name) (g_ruleNames g)"
  using index_from_bounds [of 0 "lowered name" "g_ruleNames g"] by (auto simp: ruleIndex_def in_range_def)

lemma defined_root:
  assumes "grammar_wf g" and "rules_defined g" and "in_range r (g_ruleNames g)"
  shows "ruleRoot g r \<noteq> kNoRule"
  using assms by (simp add: rules_defined_def grammar_wf_def in_range_def)

lemma choose_matcher_sound:
  assumes "grammar_wf g" and "counts_ok g" and "choose_matcher strategy g = Some (Inr answer)"
    and "ruleRoot g rule \<noteq> kNoRule" and "int (length line) + 1 < kIntMax" and "answer rule line = Some out"
  shows "lang g (ruleRoot g rule) line \<and> (\<exists>cs. out = captured g cs)"
proof (cases "strategy = Some ''compiled''")
  case True
  then obtain m where m: "compileAll g (new_program_matcher g) = Some (True, m)" "answer = program_answer g m"
    using assms(3) by (auto simp: choose_matcher_def split: option.splits prod.splits if_splits)
  show ?thesis
    using program_answer_exact [OF assms(1) m(1) assms(4,5)] assms(6) m(2) by blast
next
  case False
  then show ?thesis using assms(3,6) tree_answer_sound [OF assms(1,2)] by (auto simp: choose_matcher_def)
qed

end
