(* ===== verification/Grammar_Demo.thy ===== *)
theory Grammar_Demo
  imports Grammar_Matchers
begin

text \<open>
  A small grammar the theorems about matchers are applied to: the ABNF text
  \<open>letter = %x61-7A\<close>, \<open>word = "x:" 1*3( $letter )\<close> as the builder lays it out, and the
  program its second rule compiles to.
\<close>

definition word_grammar :: grammar where
  "word_grammar =
     \<lparr>g_nodes =
        [empty_node\<lparr>n_kind := OctetRange, n_lo := 97, n_hi := 122\<rparr>,
         empty_node\<lparr>n_kind := Literal, n_literal := 0\<rparr>,
         empty_node\<lparr>n_kind := Reference, n_lo := 0, n_capture := 0\<rparr>,
         empty_node\<lparr>n_kind := Repetition, n_lo := 1, n_hi := 3, n_first := 0, n_count := 1\<rparr>,
         empty_node\<lparr>n_kind := Sequence, n_first := 1, n_count := 2\<rparr>],
      g_children = [2, 1, 3], g_literals = [''x:''], g_captureNames = [''letter''],
      g_ruleNames = [''letter'', ''word''], g_ruleRoots = [0, 4]\<rparr>"

definition ins :: "op \<Rightarrow> int \<Rightarrow> int \<Rightarrow> instruction" where
  "ins oper x y = \<lparr>i_op = oper, i_x = x, i_y = y\<rparr>"

definition word_program :: program where
  "word_program = \<lparr>pg_code =
     [ins Class 0 0, ins Class 1 0, ins Save 0 0, ins Class 2 0, ins Save 1 0, ins Split 6 13,
      ins Save 2 0, ins Class 2 0, ins Save 3 0, ins Split 10 13, ins Save 4 0, ins Class 2 0,
      ins Save 5 0, ins Match 0 0],
     pg_classes =
       [[0, 0, 0, 0, 0, 0, 0, 0, 0, 0, 0, 1, 0, 0, 0, 1, 0, 0, 0, 0, 0, 0, 0, 0, 0, 0, 0, 0, 0, 0, 0, 0],
        [0, 0, 0, 0, 0, 0, 0, 4, 0, 0, 0, 0, 0, 0, 0, 0, 0, 0, 0, 0, 0, 0, 0, 0, 0, 0, 0, 0, 0, 0, 0, 0],
        [0, 0, 0, 0, 0, 0, 0, 0, 0, 0, 0, 0, 254, 255, 255, 7, 0, 0, 0, 0, 0, 0, 0, 0, 0, 0, 0, 0, 0, 0, 0, 0]],
     pg_slotCapture = [0, 0, 0]\<rparr>"

lemma word_letter_class:
  "buildClass word_grammar [] 0 no_octets =
     Some (True, [0, 0, 0, 0, 0, 0, 0, 0, 0, 0, 0, 0, 254, 255, 255, 7, 0, 0, 0, 0, 0, 0, 0, 0, 0, 0, 0, 0, 0, 0, 0, 0])"
  by (simp add: buildClass.simps word_grammar_def node_def in_range_def empty_node_def setBits_def setBit_def
      no_octets_def eval_nat_numeral upto.simps)

lemma word_singles:
  "isSingleOctet word_grammar [] 0" "\<not> isSingleOctet word_grammar [] 1" "\<not> isSingleOctet word_grammar [] 2"
  "\<not> isSingleOctet word_grammar [] 3" "\<not> isSingleOctet word_grammar [] 4"
  by code_simp+

lemma word_bits:
  "setBits [octet (fold_char CHR ''x''), octet (upper_of (fold_char CHR ''x''))] no_octets =
     Some [0, 0, 0, 0, 0, 0, 0, 0, 0, 0, 0, 1, 0, 0, 0, 1, 0, 0, 0, 0, 0, 0, 0, 0, 0, 0, 0, 0, 0, 0, 0, 0]"
  "setBits [octet (fold_char CHR '':''), octet (upper_of (fold_char CHR '':''))] no_octets =
     Some [0, 0, 0, 0, 0, 0, 0, 4, 0, 0, 0, 0, 0, 0, 0, 0, 0, 0, 0, 0, 0, 0, 0, 0, 0, 0, 0, 0, 0, 0, 0, 0]"
  by code_simp+

lemma word_nodes:
  "node word_grammar 0 = empty_node\<lparr>n_kind := OctetRange, n_lo := 97, n_hi := 122\<rparr>"
  "node word_grammar 1 = empty_node\<lparr>n_kind := Literal, n_literal := 0\<rparr>"
  "node word_grammar 2 = empty_node\<lparr>n_kind := Reference, n_lo := 0, n_capture := 0\<rparr>"
  "node word_grammar 3 = empty_node\<lparr>n_kind := Repetition, n_lo := 1, n_hi := 3, n_first := 0, n_count := 1\<rparr>"
  "node word_grammar 4 = empty_node\<lparr>n_kind := Sequence, n_first := 1, n_count := 2\<rparr>"
  "in_range i (g_nodes word_grammar) \<longleftrightarrow> 0 \<le> i \<and> i < 5"
  "ruleRoot word_grammar 0 = 0" "ruleRoot word_grammar 1 = 4" "child word_grammar 0 = 2" "child word_grammar 1 = 1" "child word_grammar 2 = 3"
  "kids word_grammar (node word_grammar 4) = [1, 3]" "literal word_grammar 0 = ''x:''"
  by (simp_all add: word_grammar_def node_def in_range_def ruleRoot_def child_def literal_def kids_def empty_node_def
      eval_nat_numeral)

lemma emit_two: "emitOptional g compiling i j 2 p =
    (let split = pc_of p in
        and_then (emitInline g compiling i j (patch_x split (split + 1) (emit Split 0 0 p)))
          (\<lambda>p1. and_then (emitOptional g compiling i j 1 p1) (\<lambda>(exits, p2). Emitted (split # exits, p2))))"
  by (metis Suc_1 emitOptional.simps(2))

lemma word_compiled: "compileRule word_grammar 1 = Emitted word_program"
  by (simp add: compileRule_def emitNode.simps [of word_grammar] emitRepetition.simps emitInline.simps word_singles
      word_letter_class emitOctets_def word_bits word_nodes Let_def empty_node_def kids_def ins_def upt_rec [of _ 2] emit_two
      emitClass_def addClass_def emit_def patch_x_def patch_y_def patch_all_x_def patch_all_y_def pc_of_def empty_program_def word_program_def)

lemma word_wf: "grammar_wf word_grammar"
proof -
  have k: "kids word_grammar (node word_grammar 3) = [2]"
    by (simp add: word_grammar_def node_def in_range_def child_def kids_def empty_node_def)
  have "node_wf word_grammar i (node word_grammar i)" if "in_range i (g_nodes word_grammar)" for i
  proof -
    have "i = 0 \<or> i = 1 \<or> i = 2 \<or> i = 3 \<or> i = 4" using that by (auto simp: word_nodes)
    then show ?thesis
      using k by (elim disjE) (simp_all add: word_nodes(1,2,3,4,5) node_wf_def kids_wf_def empty_node_def, simp_all add: word_grammar_def in_range_def
          kids_def child_def upt_rec [of _ 2])
  qed
  moreover have "length (g_ruleRoots word_grammar) = length (g_ruleNames word_grammar)"
      "\<forall>r \<in> set (g_ruleRoots word_grammar). r = kNoRule \<or> in_range r (g_nodes word_grammar)"
    by (simp_all add: word_grammar_def in_range_def)
  ultimately show ?thesis unfolding grammar_wf_def by blast
qed

lemma word_counts: "counts_ok word_grammar"
  by (simp add: counts_ok_def word_grammar_def empty_node_def)

lemma word_repetitions: "repetitions_ok word_grammar"
  by (simp add: repetitions_ok_def word_grammar_def empty_node_def)

lemma word_match:
  "tree_match word_grammar 1 ''X:ab'' =
     (True, \<lparr>mr_grammar = Some word_grammar, mr_values = [[''a'', ''b'']], mr_sequence = [''a'', ''b''],
             mr_owners = [0, 0]\<rparr>, False)"
  by code_simp

lemma word_no_match: "tree_match word_grammar 1 ''x:'' = (False, mr_reset word_grammar, False)"
  by code_simp

lemma word_matcher: "\<exists>m. programFor word_grammar 1 (new_program_matcher word_grammar) = Some (Some word_program, m)"
  by (simp add: programFor_def word_compiled new_program_matcher_def in_range_def word_grammar_def [THEN arg_cong, of g_ruleNames])

end
