(* ===== verification/Builder_Demo.thy ===== *)
theory Builder_Demo
  imports Start_Correct Grammar_Demo
begin

text \<open>
  Texts the builder is run on: the text of \<open>word_grammar\<close>, a grammar file with one rule per
  command, which a server can start from, and two texts that show what the builder lets
  through.
\<close>

definition word_text :: string where
  "word_text = ''; letters only'' @ [CHR 0x0A] @ ''letter = %x61-7A'' @ [CHR 0x0A] @
     ''word   = \"x:\"'' @ [CHR 0x0D, CHR 0x0A] @ ''         1*3( $letter )'' @ [CHR 0x0A]"

lemma word_built: "compile_grammar word_text = Some (Inr word_grammar)"
  by code_simp

definition start_text :: string where
  "start_text = concat (map (\<lambda>l. l @ [CHR 0x0A])
     [''cap-cmd = \"CAP\"'', ''pass-cmd = \"PASS\"'', ''nick-cmd = \"NICK\"'', ''user-cmd = \"USER\"'',
      ''quit-cmd = \"QUIT\"'', ''pong-cmd = \"PONG\"'', ''ping-cmd = \"PING\"'', ''join-cmd = \"JOIN\"'',
      ''part-cmd = \"PART\"'', ''privmsg-cmd = \"PRIVMSG\"'', ''notice-cmd = \"NOTICE\"'', ''kick-cmd = \"KICK\"'',
      ''invite-cmd = \"INVITE\"'', ''topic-cmd = \"TOPIC\"'', ''mode-cmd = \"MODE\"'', ''who-cmd = \"WHO\"'',
      ''whois-cmd = \"WHOIS\"'', ''userhost-cmd = \"USERHOST\"'', ''command = 1*%x41-5A'', ''message = $command''])"

definition start_grammar :: grammar where
  "start_grammar = (case compile_grammar start_text of Some (Inr g) \<Rightarrow> g | _ \<Rightarrow> empty_grammar)"

lemma start_built:
  "(case compile_grammar start_text of Some (Inr g) \<Rightarrow> Some (ruleIndex g ''message'', map fst (bindCommandRules g),
      list_all (\<lambda>n. n_kind n = Repetition \<longrightarrow> n_hi n = kUnbounded) (g_nodes g)) | _ \<Rightarrow> None) =
   Some (19, [''CAP'', ''INVITE'', ''JOIN'', ''KICK'', ''MODE'', ''NICK'', ''NOTICE'', ''PART'', ''PASS'', ''PING'', ''PONG'',
     ''PRIVMSG'', ''QUIT'', ''TOPIC'', ''USER'', ''USERHOST'', ''WHO'', ''WHOIS''], True)"
  by code_simp


lemma start_compiled:
  "compile_grammar start_text = Some (Inr start_grammar)" "ruleIndex start_grammar ''message'' = 19"
  "map fst (bindCommandRules start_grammar) = [''CAP'', ''INVITE'', ''JOIN'', ''KICK'', ''MODE'', ''NICK'', ''NOTICE'', ''PART'',
     ''PASS'', ''PING'', ''PONG'', ''PRIVMSG'', ''QUIT'', ''TOPIC'', ''USER'', ''USERHOST'', ''WHO'', ''WHOIS'']"
  "counts_ok start_grammar"
  using start_built by (auto simp: start_grammar_def counts_ok_def list_all_iff split: option.splits sum.splits)

definition start_parser :: parser where
  "start_parser = \<lparr>ps_grammar = start_grammar, ps_match = tree_answer start_grammar, ps_messageRule = 19,
     ps_commandRules = bindCommandRules start_grammar\<rparr>"

lemma start_initGrammar: "initGrammar (\<lambda>path. Some start_text) (Some ''irc.abnf'') None = Some (Inr start_parser)"
proof -
  have "set (map fst (bindCommandRules start_grammar)) = set command_names"
    unfolding start_compiled(3) by (auto simp: command_names_def kCommands_def)
  then have "verifyCommandTable (bindCommandRules start_grammar) command_names ''irc.abnf'' = None"
    by (auto simp: verifyCommandTable_def Let_def filter_empty_conv map_of_eq_None_iff)
  then show ?thesis
    by (simp add: initGrammar_def grammar_source_def start_compiled(1,2) choose_matcher_def start_parser_def Let_def)
qed

text \<open>
  What the builder lets through: a value that is no octet, for which the compiler then writes
  outside its bit map, and a count that the cast to \<open>int\<close> turns into \<open>kUnbounded\<close>.
\<close>

lemma wide_octet_accepted:
  "(case compile_grammar ''a = %x100'' of Some (Inr g) \<Rightarrow> compileRule g 0 | _ \<Rightarrow> Failed []) = Undefined"
  by code_simp

lemma count_wraps: "to_int (strtol 10 ''4294967295'') = kUnbounded"
  by code_simp

text \<open>A rule that contains itself inside an unbounded repetition passes the validator; the search for captures in it does not end.\<close>

lemma recursive_repetition_accepted:
  "(case compile_grammar ''a = \"(\" *a \")\"'' of Some (Inr g) \<Rightarrow> compileRule g 0 | _ \<Rightarrow> Failed []) = Undefined"
  by code_simp

end
