(* ===== verification/Octet_Memo.thy ===== *)
theory Octet_Memo
  imports Single_Octet
begin

text \<open>
  \<open>isSingleOctet\<close> as the code runs it, in the matcher and in the compiler: with a memo of
  one character per node, 0 for not asked, 1 for yes, 2 for no or still being asked, that
  is kept from one question to the next.  The answer is the one without the memo, although a
  node that is still being asked counts as a no while others are answered and noted.
\<close>

section \<open>The memo\<close>

definition grown :: "nat \<Rightarrow> int list \<Rightarrow> int list" where
  "grown i memo = memo @ replicate (i + 1 - length memo) 0"

text \<open>The fuel bounds how deep the questions nest; \<open>None\<close> is running out of it.\<close>

fun memoSingleOctet :: "grammar \<Rightarrow> nat \<Rightarrow> int \<Rightarrow> int list \<Rightarrow> (bool \<times> int list) option"
  and memoAllOctets :: "grammar \<Rightarrow> nat \<Rightarrow> int list \<Rightarrow> int list \<Rightarrow> (bool \<times> int list) option" where
  "memoSingleOctet g 0 i memo = None"
| "memoSingleOctet g (Suc fuel) i memo =
     (if \<not> in_range i (g_nodes g) then Some (False, memo)
      else let m1 = grown (nat i) memo in
        if m1 ! nat i \<noteq> 0 then Some (m1 ! nat i = 1, m1)
        else let m2 = m1[nat i := 2]; n = node g i in
          case (case n_kind n of
                  OctetRange \<Rightarrow> Some (True, m2)
                | Literal \<Rightarrow> Some (length (literal g (n_literal n)) = 1, m2)
                | Reference \<Rightarrow>
                    if n_capture n = kNoCapture \<and> ruleRoot g (n_lo n) \<noteq> kNoRule
                    then memoSingleOctet g fuel (ruleRoot g (n_lo n)) m2 else Some (False, m2)
                | Alternation \<Rightarrow> if 0 < n_count n then memoAllOctets g fuel (kids g n) m2 else Some (False, m2)
                | _ \<Rightarrow> Some (False, m2)) of
            None \<Rightarrow> None
          | Some (yes, m3) \<Rightarrow> Some (yes, m3[nat i := if yes then 1 else 2]))"
| "memoAllOctets g fuel [] memo = Some (True, memo)"
| "memoAllOctets g fuel (j # js) memo =
     (case memoSingleOctet g fuel j memo of
        None \<Rightarrow> None
      | Some (yes, m1) \<Rightarrow> if yes then memoAllOctets g fuel js m1 else Some (False, m1))"

section \<open>Nodes that match one octet, by height\<close>

fun single_in :: "grammar \<Rightarrow> nat \<Rightarrow> int \<Rightarrow> bool" where
  "single_in g 0 i = False"
| "single_in g (Suc h) i \<longleftrightarrow> in_range i (g_nodes g) \<and>
     (let n = node g i in
      case n_kind n of
        OctetRange \<Rightarrow> True
      | Literal \<Rightarrow> length (literal g (n_literal n)) = 1
      | Reference \<Rightarrow> n_capture n = kNoCapture \<and> ruleRoot g (n_lo n) \<noteq> kNoRule \<and> single_in g h (ruleRoot g (n_lo n))
      | Alternation \<Rightarrow> 0 < n_count n \<and> (\<forall>j \<in> set (kids g n). single_in g h j)
      | _ \<Rightarrow> False)"

definition single :: "grammar \<Rightarrow> int \<Rightarrow> bool" where
  "single g i \<longleftrightarrow> (\<exists>h. single_in g h i)"

lemma single_in_Suc: "single_in g h i \<Longrightarrow> single_in g (Suc h) i"
proof (induction h arbitrary: i)
  case (Suc h)
  then show ?case
    by (subst single_in.simps, subst (asm) single_in.simps) (auto simp: Let_def simp del: single_in.simps split: node_kind.splits)
qed simp

lemma single_in_mono: "single_in g h i \<Longrightarrow> h \<le> h' \<Longrightarrow> single_in g h' i"
  by (induction h' arbitrary: h) (auto simp: le_Suc_eq intro: single_in_Suc simp del: single_in.simps(2))

lemma single_all: "(\<forall>j \<in> set js. single g j) \<Longrightarrow> \<exists>h. \<forall>j \<in> set js. single_in g h j"
proof (induction js)
  case (Cons j js)
  then obtain h h' where "\<forall>j \<in> set js. single_in g h j" "single_in g h' j" by (auto simp: single_def)
  then have "\<forall>k \<in> set (j # js). single_in g (max h h') k" using single_in_mono by (auto intro: single_in_mono)
  then show ?case by blast
qed simp

lemma single_unfold:
  "single g i \<longleftrightarrow> in_range i (g_nodes g) \<and>
     (let n = node g i in
      case n_kind n of
        OctetRange \<Rightarrow> True
      | Literal \<Rightarrow> length (literal g (n_literal n)) = 1
      | Reference \<Rightarrow> n_capture n = kNoCapture \<and> ruleRoot g (n_lo n) \<noteq> kNoRule \<and> single g (ruleRoot g (n_lo n))
      | Alternation \<Rightarrow> 0 < n_count n \<and> (\<forall>j \<in> set (kids g n). single g j)
      | _ \<Rightarrow> False)" (is "_ \<longleftrightarrow> ?step")
proof
  assume "single g i"
  then obtain h where "single_in g (Suc h) i" unfolding single_def using single_in_Suc by blast
  then show ?step by (auto simp: single_def Let_def split: node_kind.splits)
next
  assume s: ?step
  have "\<exists>h. single_in g (Suc h) i"
  proof (cases "n_kind (node g i) = Alternation")
    case True
    then obtain h where "\<forall>j \<in> set (kids g (node g i)). single_in g h j" using s single_all [of "kids g (node g i)" g] by (auto simp: Let_def)
    then show ?thesis using s True by (intro exI [of _ h]) (simp add: Let_def)
  next
    case False
    then show ?thesis using s by (cases "n_kind (node g i)") (auto simp: single_def Let_def)
  qed
  then show "single g i" unfolding single_def by blast
qed

text \<open>The function without the memo decides it.\<close>

lemma isSingleOctet_single: "isSingleOctet g busy i \<Longrightarrow> single g i"
proof (induction g busy i rule: isSingleOctet.induct)
  case (1 g busy i)
  then show ?case
    by (subst single_unfold, subst (asm) (3) isSingleOctet.simps) (auto simp: Let_def split: if_splits node_kind.splits)
qed

lemma single_isSingleOctet:
  "single_in g h i \<Longrightarrow> \<forall>b \<in> set busy. \<not> single_in g h b \<Longrightarrow> isSingleOctet g busy i"
proof (induction h arbitrary: i busy rule: less_induct)
  case (less h)
  define m where "m = (LEAST h. single_in g h i)"
  have m: "single_in g m i" "m \<le> h" "\<And>k. k < m \<Longrightarrow> \<not> single_in g k i"
    using less.prems(1) unfolding m_def by (auto intro: LeastI Least_le dest: not_less_Least)
  obtain k where k: "m = Suc k" using m(1) by (cases m) auto
  have kids: "isSingleOctet g (i # busy) j" if "single_in g k j" for j
  proof (rule less.IH [OF _ that])
    show "k < h" using k m(2) by simp
    show "\<forall>b \<in> set (i # busy). \<not> single_in g k b"
      using m(3) [of k] k less.prems(2) single_in_mono [of g k _ h] m(2) by auto
  qed
  have "i \<notin> set busy" using less.prems by auto
  then show ?case
    using m(1) kids unfolding k by (subst isSingleOctet.simps) (auto simp: Let_def split: node_kind.splits)
qed

lemma single_iff: "isSingleOctet g [] i \<longleftrightarrow> single g i"
  using isSingleOctet_single single_isSingleOctet [of g _ i "[]"] by (auto simp: single_def)

section \<open>The memo is exact\<close>

text \<open>
  What an entry says: a 1 is a yes; a 2 is a no, or one of the nodes being asked.  And those
  are asked above the node at hand: none of them matches one octet unless it does, lower.
\<close>

definition entry_ok :: "grammar \<Rightarrow> int list \<Rightarrow> nat \<Rightarrow> int \<Rightarrow> bool" where
  "entry_ok g busy k v \<longleftrightarrow>
     v = 0 \<or> v = 1 \<and> single g (int k) \<or> v = 2 \<and> (int k \<in> set busy \<or> \<not> single g (int k))"

definition memo_ok :: "grammar \<Rightarrow> int list \<Rightarrow> int list \<Rightarrow> bool" where
  "memo_ok g busy memo \<longleftrightarrow>
     (\<forall>k < length memo. entry_ok g busy k (memo ! k)) \<and>
     (\<forall>b \<in> set busy. in_range b memo \<and> memo ! nat b = 2)"

definition above :: "grammar \<Rightarrow> int list \<Rightarrow> int \<Rightarrow> bool" where
  "above g busy i \<longleftrightarrow> (\<forall>b \<in> set busy. \<forall>h. single_in g h b \<longrightarrow> (\<exists>m < h. single_in g m i))"

lemma above_itself: "above g busy i \<Longrightarrow> i \<in> set busy \<Longrightarrow> \<not> single g i"
proof -
  assume a: "above g busy i" "i \<in> set busy"
  have "\<not> single_in g h i" for h
    by (induction h rule: less_induct) (use a in \<open>auto simp: above_def\<close>)
  then show ?thesis by (simp add: single_def)
qed

lemma above_step:
  assumes "above g busy i" and "\<And>h. single_in g (Suc h) i \<Longrightarrow> single_in g h j"
  shows "above g (i # busy) j"
proof -
  have step: "\<exists>m < h. single_in g m j" if "single_in g h i" for h
    using that assms(2) by (cases h) auto
  have "\<exists>m < h. single_in g m j" if "b \<in> set busy" "single_in g h b" for b h
    using assms(1) that step unfolding above_def by (meson less_trans)
  then show ?thesis using step unfolding above_def by auto
qed

lemma grown_simps: "nat i < length (grown (nat i) memo)" "k < length memo \<Longrightarrow> grown (nat i) memo ! k = memo ! k"
    "k < length (grown (nat i) memo) \<Longrightarrow> length memo \<le> k \<Longrightarrow> grown (nat i) memo ! k = 0"
    "length memo \<le> length (grown (nat i) memo)"
  by (auto simp: grown_def nth_append)

lemma memo_okD:
  "memo_ok g busy memo \<Longrightarrow> k < length memo \<Longrightarrow> entry_ok g busy k (memo ! k)"
  "memo_ok g busy memo \<Longrightarrow> b \<in> set busy \<Longrightarrow> 0 \<le> b \<and> nat b < length memo \<and> memo ! nat b = 2"
  by (auto simp: memo_ok_def in_range_def nat_less_iff)

lemma memo_okI:
  assumes "\<And>k. k < length memo \<Longrightarrow> entry_ok g busy k (memo ! k)"
    and "\<And>b. b \<in> set busy \<Longrightarrow> 0 \<le> b \<and> nat b < length memo \<and> memo ! nat b = 2"
  shows "memo_ok g busy memo"
  using assms(1) assms(2) unfolding memo_ok_def in_range_def by (metis nat_less_iff)

lemma grown_ok:
  assumes "memo_ok g busy memo"
  shows "memo_ok g busy (grown (nat i) memo)"
proof (rule memo_okI)
  fix k assume k: "k < length (grown (nat i) memo)"
  show "entry_ok g busy k (grown (nat i) memo ! k)"
    using memo_okD(1) [OF assms, of k] k grown_simps(2,3)
    by (cases "k < length memo") (simp_all add: grown_simps entry_ok_def)
next
  fix b assume "b \<in> set busy"
  then show "0 \<le> b \<and> nat b < length (grown (nat i) memo) \<and> grown (nat i) memo ! nat b = 2"
    using memo_okD(2) [OF assms] grown_simps(2,4) less_le_trans by metis
qed

lemma mark_ok:
  assumes "memo_ok g busy memo" and "nat i < length memo" and "0 \<le> i"
  shows "memo_ok g (i # busy) (memo[nat i := 2])"
proof (rule memo_okI)
  fix k assume k: "k < length (memo[nat i := 2])"
  have "entry_ok g (i # busy) k (memo ! k)" using memo_okD(1) [OF assms(1), of k] k by (auto simp: entry_ok_def)
  moreover have "entry_ok g (i # busy) (nat i) 2" using assms(3) by (simp add: entry_ok_def)
  ultimately show "entry_ok g (i # busy) k (memo[nat i := 2] ! k)" using k by (cases "k = nat i") simp_all
next
  fix b assume "b \<in> set (i # busy)"
  then show "0 \<le> b \<and> nat b < length (memo[nat i := 2]) \<and> memo[nat i := 2] ! nat b = 2"
    using memo_okD(2) [OF assms(1), of b] assms(2,3) by (cases "nat b = nat i") auto
qed

lemma answer_ok:
  assumes "memo_ok g (i # busy) memo" and "i \<notin> set busy"
  shows "memo_ok g busy (memo[nat i := if single g i then 1 else 2])"
proof (rule memo_okI)
  have i: "0 \<le> i" using memo_okD(2) [OF assms(1), of i] by simp
  fix k assume k: "k < length (memo[nat i := if single g i then 1 else 2])"
  have "entry_ok g busy (nat i) (if single g i then 1 else 2)" using i by (simp add: entry_ok_def)
  moreover have "entry_ok g busy k (memo ! k)" if "k \<noteq> nat i"
    using memo_okD(1) [OF assms(1), of k] k that by (auto simp: entry_ok_def)
  ultimately show "entry_ok g busy k (memo[nat i := if single g i then 1 else 2] ! k)"
    using k by (cases "k = nat i") simp_all
next
  fix b assume b: "b \<in> set busy"
  have "0 \<le> i" "0 \<le> b" "b \<noteq> i" using memo_okD(2) [OF assms(1)] b assms(2) by auto
  then have "nat b \<noteq> nat i" by simp
  then show "0 \<le> b \<and> nat b < length (memo[nat i := if single g i then 1 else 2]) \<and>
      memo[nat i := if single g i then 1 else 2] ! nat b = 2"
    using memo_okD(2) [OF assms(1), of b] b by simp
qed

lemma busy_length:
  assumes "distinct busy" and "\<forall>b \<in> set busy. in_range b (g_nodes g)"
  shows "length busy \<le> length (g_nodes g)"
proof -
  have "set busy \<subseteq> {0..<int (length (g_nodes g))}" using assms(2) by (auto simp: in_range_def)
  then have "card (set busy) \<le> length (g_nodes g)" using card_mono [of "{0..<int (length (g_nodes g))}" "set busy"] by simp
  then show ?thesis using distinct_card [OF assms(1)] by simp
qed

text \<open>A question among others, with fuel for the nodes that are not being asked.\<close>

definition asked :: "grammar \<Rightarrow> nat \<Rightarrow> int list \<Rightarrow> int list \<Rightarrow> bool" where
  "asked g fuel busy memo \<longleftrightarrow> memo_ok g busy memo \<and> distinct busy \<and> (\<forall>b \<in> set busy. in_range b (g_nodes g)) \<and>
     length (g_nodes g) < fuel + length busy"

lemma asked_fuel: "asked g fuel busy memo \<Longrightarrow> fuel \<noteq> 0"
  using busy_length [of busy g] by (auto simp: asked_def)

lemma asked_memo: "asked g fuel busy memo \<Longrightarrow> memo_ok g busy memo' \<Longrightarrow> asked g fuel busy memo'"
  by (simp add: asked_def)

lemma memo_known:
  assumes "memo_ok g busy memo" and "above g busy i" and "nat i < length memo" and "0 \<le> i" and "memo ! nat i \<noteq> 0"
  shows "memo ! nat i = 1 \<longleftrightarrow> single g i"
  using memo_okD(1) [OF assms(1,3)] assms(4,5) above_itself [OF assms(2)] by (auto simp: entry_ok_def)

lemma memo_exact:
  "asked g fuel busy memo \<Longrightarrow> above g busy i \<Longrightarrow>
     \<exists>m. memoSingleOctet g fuel i memo = Some (single g i, m) \<and> memo_ok g busy m"
  "asked g fuel busy memo \<Longrightarrow> \<forall>j \<in> set js. above g busy j \<Longrightarrow>
     \<exists>m. memoAllOctets g fuel js memo = Some (\<forall>j \<in> set js. single g j, m) \<and> memo_ok g busy m"
proof (induction g fuel i memo and g fuel js memo arbitrary: busy and busy rule: memoSingleOctet_memoAllOctets.induct)
  case (1 g i memo)
  then show ?case using asked_fuel by blast
next
  case (2 g fuel i memo)
  let ?n = "node g i" and ?m1 = "grown (nat i) memo"
  let ?m2 = "?m1[nat i := 2]"
  show ?case
  proof (cases "in_range i (g_nodes g)")
    case False
    then show ?thesis using "2.prems" by (simp add: single_unfold [of g i] asked_def)
  next
    case range: True
    then have i: "0 \<le> i" by (simp add: in_range_def)
    have m1: "memo_ok g busy ?m1" using "2.prems"(1) by (intro grown_ok) (simp add: asked_def)
    show ?thesis
    proof (cases "?m1 ! nat i = 0")
      case False
      then show ?thesis
        using memo_known [OF m1 "2.prems"(2) _ i False] m1 range by (simp add: grown_simps Let_def)
    next
      case new: True
      have free: "i \<notin> set busy" using memo_okD(2) [OF m1, of i] new by auto
      have m2: "memo_ok g (i # busy) ?m2" by (rule mark_ok [OF m1 _ i]) (simp add: grown_simps)
      have asked: "asked g fuel (i # busy) ?m2" using "2.prems"(1) m2 free range by (simp add: asked_def)
      let ?answer = "case n_kind ?n of
          OctetRange \<Rightarrow> Some (True, ?m2)
        | Literal \<Rightarrow> Some (length (literal g (n_literal ?n)) = 1, ?m2)
        | Reference \<Rightarrow>
            if n_capture ?n = kNoCapture \<and> ruleRoot g (n_lo ?n) \<noteq> kNoRule
            then memoSingleOctet g fuel (ruleRoot g (n_lo ?n)) ?m2 else Some (False, ?m2)
        | Alternation \<Rightarrow> if 0 < n_count ?n then memoAllOctets g fuel (kids g ?n) ?m2 else Some (False, ?m2)
        | _ \<Rightarrow> Some (False, ?m2)"
      have below: "above g (i # busy) j" if "\<And>h. single_in g (Suc h) i \<Longrightarrow> single_in g h j" for j
        by (rule above_step [OF "2.prems"(2) that])
      have "\<exists>m. ?answer = Some (single g i, m) \<and> memo_ok g (i # busy) m"
      proof (cases "n_kind ?n")
        case Reference
        have "above g (i # busy) (ruleRoot g (n_lo ?n))" by (rule below) (use Reference in \<open>simp add: Let_def\<close>)
        then show ?thesis
          using "2.IH"(1) [OF _ refl _ refl refl Reference _ asked] range new m2 Reference
          by (auto simp: single_unfold [of g i])
      next
        case Alternation
        have "\<forall>j \<in> set (kids g ?n). above g (i # busy) j" by (intro ballI below) (use Alternation in \<open>simp add: Let_def\<close>)
        then show ?thesis
          using "2.IH"(2) [OF _ refl _ refl refl Alternation _ asked] range new m2 Alternation
          by (auto simp: single_unfold [of g i] Let_def)
      qed (use m2 range in \<open>auto simp: single_unfold [of g i]\<close>)
      then obtain m where m: "?answer = Some (single g i, m)" "memo_ok g (i # busy) m" by blast
      have "memoSingleOctet g (Suc fuel) i memo = Some (single g i, m[nat i := if single g i then 1 else 2])"
        using range new unfolding memoSingleOctet.simps Let_def m(1) by simp
      then show ?thesis using answer_ok [OF m(2) free] by blast
    qed
  qed
next
  case (3 g fuel memo)
  then show ?case by (simp add: asked_def)
next
  case (4 g fuel j js memo)
  obtain m where m: "memoSingleOctet g fuel j memo = Some (single g j, m)" "memo_ok g busy m"
    using "4.IH"(1) [OF "4.prems"(1)] "4.prems"(2) by auto
  then show ?case
    using "4.IH"(2) [OF m(1) _ _ asked_memo [OF "4.prems"(1) m(2)]] "4.prems"(2) by (cases "single g j") auto
qed

text \<open>From one question to the next.\<close>

lemma memo_answers:
  assumes "memo_ok g [] memo" and "length (g_nodes g) < fuel"
  shows "\<exists>m. memoSingleOctet g fuel i memo = Some (isSingleOctet g [] i, m) \<and> memo_ok g [] m"
  using memo_exact(1) [of g fuel "[]" memo i] assms by (simp add: asked_def above_def single_iff)

lemma memo_ok_empty: "memo_ok g [] []"
  by (simp add: memo_ok_def)

text \<open>A sequence of questions to one matcher, or one compiler; both start with an empty memo.\<close>

fun askSingleOctets :: "grammar \<Rightarrow> nat \<Rightarrow> int list \<Rightarrow> int list \<Rightarrow> bool list option" where
  "askSingleOctets g fuel [] memo = Some []"
| "askSingleOctets g fuel (i # is) memo =
     (case memoSingleOctet g fuel i memo of
        None \<Rightarrow> None
      | Some (yes, m) \<Rightarrow> map_option ((#) yes) (askSingleOctets g fuel is m))"

lemma asked_in_turn:
  "memo_ok g [] memo \<Longrightarrow> length (g_nodes g) < fuel \<Longrightarrow>
     askSingleOctets g fuel is memo = Some (map (isSingleOctet g []) is)"
proof (induction "is" arbitrary: memo)
  case (Cons i "is")
  then show ?case using memo_answers [OF Cons.prems, of i] by auto
qed simp

section \<open>The cached bit maps\<close>

text \<open>
  \<open>octetBitmap\<close> keeps the map of a node once it is built: a flag for each node and a row of
  32 bytes, both grown to the node that is asked.
\<close>

definition cachedBitmap :: "grammar \<Rightarrow> int \<Rightarrow> int list \<times> octets list \<Rightarrow> octets \<times> int list \<times> octets list" where
  "cachedBitmap g i cache =
     (let (built, rows) = cache; k = nat i;
          (built1, rows1) =
            (if length built < k + 1
             then (grown k built, rows @ replicate (k + 1 - length rows) no_octets) else (built, rows));
          bits = foldl (\<lambda>bits c. if octetMatches g [] i (char_of c) then the (setBit (int c) bits) else bits)
            (rows1 ! k) [0..<256]
      in if built1 ! k = 0 then (bits, built1[k := 1], rows1[k := bits]) else (rows1 ! k, built1, rows1))"

definition cache_ok :: "grammar \<Rightarrow> int list \<times> octets list \<Rightarrow> bool" where
  "cache_ok g cache \<longleftrightarrow>
     (let (built, rows) = cache in
      length rows = length built \<and>
      (\<forall>k < length built. rows ! k = (if built ! k = 0 then no_octets else octetBitmap g (int k))))"

lemma cached_bitmap:
  assumes "cache_ok g cache" and "0 \<le> i"
  shows "fst (cachedBitmap g i cache) = octetBitmap g i" and "cache_ok g (snd (cachedBitmap g i cache))"
proof -
  obtain built rows where c: "cache = (built, rows)" by (cases cache)
  let ?k = "nat i"
  define built1 rows1 where "built1 = (if length built < ?k + 1 then grown ?k built else built)"
    and "rows1 = (if length built < ?k + 1 then rows @ replicate (?k + 1 - length rows) no_octets else rows)"
  have old: "length rows = length built" "\<And>k. k < length built \<Longrightarrow> rows ! k = (if built ! k = 0 then no_octets else octetBitmap g (int k))"
    using assms(1) by (auto simp: cache_ok_def c)
  have size: "length rows1 = length built1" "?k < length built1"
    using old(1) by (auto simp: built1_def rows1_def grown_def)
  have row: "rows1 ! k = (if built1 ! k = 0 then no_octets else octetBitmap g (int k))" if "k < length built1" for k
    using that old by (auto simp: built1_def rows1_def grown_def nth_append)
  have unfold: "cachedBitmap g i cache =
      (if built1 ! ?k = 0 then (octetBitmap g i, built1[?k := 1], rows1[?k := octetBitmap g i]) else (rows1 ! ?k, built1, rows1))"
    using row [OF size(2)] assms(2)
    by (auto simp: cachedBitmap_def c built1_def rows1_def octetBitmap_def Let_def)
  show "fst (cachedBitmap g i cache) = octetBitmap g i" using row [OF size(2)] assms(2) by (simp add: unfold)
  show "cache_ok g (snd (cachedBitmap g i cache))"
    using row size assms(2) by (auto simp: unfold cache_ok_def nth_list_update)
qed

end
