(* ===== verification/Grammar_Properties.thy ===== *)
theory Grammar_Properties
  imports Builder_Demo Octet_Memo
begin

text \<open>
  The properties of the grammar engine: what the two matching strategies recognise, and that
  they agree.  The witnesses run on the small grammar of \<open>Grammar_Demo\<close>.
\<close>

text \<open>
  C32.  The backtracking matcher is sound: when it says a line matches a rule, the rule
  derives exactly that line, the result holds exactly the captures of one such derivation (in
  order, with their owners, and sorted into their slots), and the matcher did not give up.
\<close>

theorem tree_match_sound:
  assumes "grammar_wf g" and "counts_ok g" and "tree_match g rule line = (True, out, exhausted)"
  shows "\<not> exhausted \<and> (\<exists>cs. yields g (ruleRoot g rule) line cs \<and> out = captured g cs)"
  by (rule tree_match_found [OF assms])

theorem tree_match_sound_witness:
  "\<exists>cs. yields word_grammar (ruleRoot word_grammar 1) ''X:ab'' cs \<and>
     \<lparr>mr_grammar = Some word_grammar, mr_values = [[''a'', ''b'']], mr_sequence = [''a'', ''b''], mr_owners = [0, 0]\<rparr> =
     captured word_grammar cs"
  using tree_match_sound [OF word_wf word_counts word_match] by blast

text \<open>
  C33.  The backtracking matcher is complete: when it says no without having given up on its
  limits of steps and depth, the rule derives the line in no way, provided the body of every
  repetition with a lower bound of two or more matches no empty string.
\<close>

theorem tree_match_complete:
  assumes "counts_ok g" and "repetitions_ok g" and "ruleRoot g rule \<noteq> kNoRule"
    and "tree_match g rule line = (False, out, False)"
  shows "\<not> yields g (ruleRoot g rule) line cs"
  by (rule tree_match_none [OF assms(1,2,4,3)])

theorem tree_match_complete_witness: "\<not> yields word_grammar 4 ''x:'' []"
  using tree_match_complete [OF word_counts word_repetitions _ word_no_match, of "[]"] by (simp add: word_nodes)

text \<open>
  C26.  The memo of \<open>isSingleOctet\<close> changes no answer: questions asked one after the other,
  from an empty memo, get the answers they would get without it, although a node that is
  still being asked is noted as a no; and the questions nest no deeper than there are nodes.
\<close>

theorem memo_changes_nothing:
  assumes "length (g_nodes g) < fuel"
  shows "askSingleOctets g fuel is [] = Some (map (isSingleOctet g []) is)"
  by (rule asked_in_turn [OF memo_ok_empty assms])

theorem memo_changes_nothing_witness:
  "askSingleOctets word_grammar 6 [4, 0, 2, 0] [] = Some [False, True, False, True]"
  using memo_changes_nothing [of word_grammar 6 "[4, 0, 2, 0]"] by (simp add: word_singles) (simp add: word_grammar_def)

text \<open>
  C34.  A compiled rule means what the rule means: the program the compiler emits for a rule
  of a well-formed grammar has an accepting path for a line exactly when the rule derives the
  line, whatever was inlined, unrolled or merged into character classes.
\<close>

theorem compiled_rule_refines:
  assumes "grammar_wf g" and "compileRule g rule = Emitted P"
  shows "accepting P line \<longleftrightarrow> lang g (ruleRoot g rule) line"
  by (rule compiled_language [OF assms])

theorem compiled_rule_refines_witness: "accepting word_program ''X:ab'' \<longleftrightarrow> lang word_grammar 4 ''X:ab''"
  using compiled_rule_refines [OF word_wf word_compiled, of "''X:ab''"] by (simp add: word_nodes)

text \<open>
  C35.  A compiled program is well typed: every jump and split lands inside it, every class
  and every slot it names exists, every instruction but the last has a successor, and the one
  \<open>Match\<close> is the last instruction.
\<close>

theorem compiled_program_typed:
  assumes "grammar_wf g" and "compileRule g rule = Emitted P"
  shows "prog_ok g P"
  by (rule compiled_ok [OF assms])

theorem compiled_program_typed_witness: "prog_ok word_grammar word_program"
  by (rule compiled_program_typed [OF word_wf word_compiled])







text \<open>
  C38.  The grammar builder always answers, with an error or with a grammar the matchers can
  rely on: every index a node holds is in range, children lie below their parents, and every
  rule that is referred to has a body.
\<close>

theorem builder_makes_grammars:
  "\<exists>r. compile_grammar contents = Some r \<and> (\<forall>g. r = Inr g \<longrightarrow> grammar_wf g \<and> rules_defined g)"
proof -
  obtain r where r: "compile_grammar contents = Some r" using compile_grammar_total [of contents] by blast
  moreover have "grammar_wf g \<and> rules_defined g" if "r = Inr g" for g
    using compile_grammar_valid(1) [of contents g] compile_grammar_defined [of contents g] r that by simp
  ultimately show ?thesis by blast
qed

theorem builder_makes_grammars_witness: "grammar_wf word_grammar \<and> rules_defined word_grammar"
  using builder_makes_grammars [of word_text] by (simp add: word_built)

text \<open>
  C39.  The validator decides what its messages say: with lower bounds that are not negative
  it accepts a grammar exactly when every rule is defined and no rule can start a derivation
  of itself, directly, through other rules or behind parts that may be empty; and it always
  comes to a decision.
\<close>

theorem validator_exact:
  assumes "grammar_wf g" and "lower_bounds_ok g"
  shows "validate g \<noteq> Unfinished \<and> (validate g = Valid \<longleftrightarrow> rules_defined g \<and> (\<forall>r. \<not> left_recursive g r))"
  using validate_valid [OF assms] validate_total [OF assms(1)] by blast

theorem validator_exact_witness: "\<not> left_recursive word_grammar 1 \<and> validate word_grammar = Valid"
proof -
  have "validate word_grammar = Valid" by code_simp
  moreover have "lower_bounds_ok word_grammar" by (simp add: lower_bounds_ok_def word_grammar_def empty_node_def)
  ultimately show ?thesis using validator_exact [OF word_wf] by blast
qed



end
