(* ===== verification/Log_Sinks.thy ===== *)
theory Log_Sinks
  imports Log_Trace
begin

text \<open>
  Where written lines go: the rest of \<open>src/Log.cpp\<close> (the level, the fallback used when there
  is no sink) and the coloured sink of \<open>src/extras/FancyLogSink.cpp\<close>.  A sink turns the
  events of \<open>Log_Trace\<close> into lines for one of the two standard streams; the time of day,
  formatted by \<open>strftime\<close>, is an argument, and so is \<open>Srgb::to_ansi_fg\<close> of \<open>libcpp\<close>, a colour's
  escape sequence.
\<close>

section \<open>Levels\<close>

definition setLevel :: "log_level \<Rightarrow> 'a log_state_scheme \<Rightarrow> 'a log_state_scheme" where
  "setLevel level t = t\<lparr>lg_level := level\<rparr>"

definition log_banner :: "string \<Rightarrow> 'a log_state_scheme \<Rightarrow> 'a log_state_scheme" where
  "log_banner title t = (if log_enabled LOG_ERROR t then render (CHR ''b'') title t else t)"

definition log_traced :: "string \<Rightarrow> 'a log_state_scheme \<Rightarrow> 'a log_state_scheme" where
  "log_traced msg t = (if log_enabled LOG_TRACE t then render (CHR ''t'') msg t else t)"

section \<open>Streams\<close>

datatype stream = StdOut | StdErr

text \<open>\<open>localtime\<close> or \<open>strftime\<close> may fail.\<close>

definition stamp :: "string option \<Rightarrow> string" where
  "stamp time_of_day = (case time_of_day of None \<Rightarrow> ''--:--:--'' | Some s \<Rightarrow> s)"

definition fallback :: "string option \<Rightarrow> char \<Rightarrow> string \<Rightarrow> (stream \<times> string) list" where
  "fallback now kind msg =
     (if kind = CHR ''b'' then [(StdOut, ''== '' @ msg @ '' =='')]
      else if kind = CHR ''i'' then [(StdOut, ''[ircserv] info: '' @ msg)]
      else if kind = CHR ''s'' then [(StdOut, ''[ircserv] ok:   '' @ msg)]
      else if kind = CHR ''w'' then [(StdErr, ''[ircserv] warn: '' @ msg)]
      else if kind = CHR ''e'' then [(StdErr, ''[ircserv] error: '' @ msg)]
      else if kind = CHR ''d'' \<or> kind = CHR ''t'' then [(StdOut, ''[ircserv] '' @ stamp now @ '' '' @ msg)]
      else [])"

section \<open>The coloured sink\<close>

type_synonym colour = "nat \<times> nat \<times> nat"

definition dirIn :: colour where "dirIn = (90, 200, 250)"
definition dirOut :: colour where "dirOut = (160, 230, 130)"
definition dimGrey :: colour where "dimGrey = (120, 120, 130)"
definition peerCol :: colour where "peerCol = (230, 200, 120)"
definition cmdCol :: colour where "cmdCol = (235, 235, 245)"
definition errCol :: colour where "errCol = (240, 120, 120)"
definition noteCol :: colour where "noteCol = (150, 130, 200)"

definition kReset :: string where
  "kReset = [CHR 0x1B] @ ''[0m''"

definition paint :: "(colour \<Rightarrow> string) \<Rightarrow> colour \<Rightarrow> string \<Rightarrow> string" where
  "paint ansi c s = ansi c @ s @ kReset"

definition isErrorNumeric :: "string \<Rightarrow> bool" where
  "isErrorNumeric note \<longleftrightarrow>
     (if length note < 3 then False
      else note ! 0 \<in> {CHR ''4'', CHR ''5'', CHR ''6''} \<and>
        CHR ''0'' \<le> note ! 1 \<and> note ! 1 \<le> CHR ''9'' \<and> CHR ''0'' \<le> note ! 2 \<and> note ! 2 \<le> CHR ''9'')"

text \<open>The position of the first blank followed by a colon.\<close>

fun find_trailing :: "string \<Rightarrow> nat option" where
  "find_trailing (c # d # s) =
     (if c = CHR '' '' \<and> d = CHR '':'' then Some 0 else map_option Suc (find_trailing (d # s)))"
| "find_trailing s = None"

definition splitTrailing :: "string \<Rightarrow> string \<times> string" where
  "splitTrailing line =
     (let cut = (\<lambda>from. case find_trailing (drop from line) of
                   None \<Rightarrow> (line, [])
                 | Some at \<Rightarrow> (take (from + at + 2) line, drop (from + at + 2) line))
      in if line \<noteq> [] \<and> hd line = CHR '':''
         then if CHR '' '' \<notin> set line then (line, []) else cut (length (takeWhile (\<lambda>c. c \<noteq> CHR '' '') line))
         else cut 0)"

lemma splitTrailing_lossless: "fst (splitTrailing line) @ snd (splitTrailing line) = line"
  by (simp add: splitTrailing_def Let_def split: option.split)

text \<open>The line as coloured pieces, and as it is written; plain blanks stand between pieces.\<close>

definition fancy_pieces ::
  "'io libcpp \<Rightarrow> string option \<Rightarrow> char \<Rightarrow> fd \<Rightarrow> string \<Rightarrow> string \<Rightarrow> string \<Rightarrow> (colour option \<times> string) list" where
  "fancy_pieces L now dir f peer line note =
     (let inbound = (dir = CHR ''<'');
          (head, trail) = splitTrailing line;
          gap = (None, ''  '')
      in [(Some dimGrey, stamp now), gap,
          (Some dimGrey, ''fd '' @ lc_pad_left L (lc_to_string L f) 3 (CHR '' '')), gap,
          (Some (if inbound then dirIn else dirOut), if inbound then ''<<'' else ''>>''), gap,
          (Some peerCol, lc_pad_right L (if peer = [] then ''*'' else peer) 9 (CHR '' '')), gap,
          (Some (if isErrorNumeric note then errCol else cmdCol), head)] @
         (if trail \<noteq> [] then [(Some dimGrey, trail)] else []) @
         (if note \<noteq> [] then [gap, (Some noteCol, ''['' @ note @ '']'')] else []))"

definition fancy_protocol ::
  "'io libcpp \<Rightarrow> (colour \<Rightarrow> string) \<Rightarrow> string option \<Rightarrow> char \<Rightarrow> fd \<Rightarrow> string \<Rightarrow> string \<Rightarrow> string \<Rightarrow> stream \<times> string" where
  "fancy_protocol L ansi now dir f peer line note =
     (StdOut, concat (map (\<lambda>(c, s). case c of None \<Rightarrow> s | Some c \<Rightarrow> paint ansi c s)
        (fancy_pieces L now dir f peer line note)))"

text \<open>
  \<open>FancyLogSink::write\<close>: debug and trace lines carry the time, the others go to the methods of
  \<open>TermWriter\<close>, of which only the stream and the method are modelled.
\<close>

datatype written = Plain string | Heading string | Info string | Success string | Warn string | Error string | Nothing

definition fancy_write :: "(colour \<Rightarrow> string) \<Rightarrow> string option \<Rightarrow> char \<Rightarrow> string \<Rightarrow> stream \<times> written" where
  "fancy_write ansi now kind msg =
     (let os = (if kind = CHR ''w'' \<or> kind = CHR ''e'' then StdErr else StdOut)
      in if kind = CHR ''d'' \<or> kind = CHR ''t'' then (os, Plain (paint ansi dimGrey (stamp now) @ ''  '' @ msg))
         else (os, if kind = CHR ''b'' then Heading msg
                   else if kind = CHR ''i'' then Info msg
                   else if kind = CHR ''s'' then Success msg
                   else if kind = CHR ''w'' then Warn msg
                   else if kind = CHR ''e'' then Error msg
                   else Nothing))"

text \<open>What the reader sees: without its colours, a traced line is the default sink's behind the time.\<close>

lemma fancy_line_plain:
  "concat (map snd (fancy_pieces L now dir f peer line [])) =
     stamp now @ ''  '' @ sink_protocol L dir f peer line []"
proof -
  have "fst (splitTrailing line) @ (if snd (splitTrailing line) \<noteq> [] then snd (splitTrailing line) else []) = line"
    using splitTrailing_lossless [of line] by auto
  then show ?thesis
    by (auto simp: fancy_pieces_def sink_protocol_def Let_def case_prod_beta splitTrailing_lossless)
qed

end
