(* ===== verification/Program_Entry.thy ===== *)
theory Program_Entry
  imports Start_Up Log_Sinks Event_Loop
begin

text \<open>
  The program from its first line to its last: \<open>src/main.cpp\<close>, the constructor and destructor
  of \<open>Server\<close> and the set-up of its sockets (\<open>src/Server.cpp\<close>), and the extensions each of the
  three builds registers (\<open>src/tiers/\<close>).

  The environment variables, the files, the results of the system calls and of \<open>new\<close> are
  arguments; \<open>libcpp::util::Config\<close> is the record \<open>config\<close> of its two lookups.
\<close>

section \<open>The surroundings of the program\<close>

datatype tier = Mandatory | Bonus | Full

record config =
  cf_get_bool :: "string \<Rightarrow> string \<Rightarrow> bool \<Rightarrow> bool"
  cf_get :: "string \<Rightarrow> string \<Rightarrow> string \<Rightarrow> string"

record environment =
  en_log :: "string option"
  en_grammar :: "string option"
  en_matcher :: "string option"
  en_config :: "string option"
  en_files :: "string \<Rightarrow> string option"
  en_load_config :: "string \<Rightarrow> config option"
  en_csv_open :: "string \<Rightarrow> bool"
  en_mem :: "nat \<Rightarrow> bool"

text \<open>Which of the calls that make the listening socket succeed, and the text of \<open>errno\<close>.\<close>

record listen_calls =
  ls_socket :: bool
  ls_setsockopt :: bool
  ls_fcntl :: bool
  ls_bind :: bool
  ls_listen :: bool
  ls_epoll_create :: bool
  ls_epoll_add :: bool
  ls_errno :: string

section \<open>The constructor of the server\<close>

definition createListenSocket :: "listen_calls \<Rightarrow> string option" where
  "createListenSocket c =
     (if \<not> ls_socket c then Some (''socket() failed: '' @ ls_errno c)
      else if \<not> ls_setsockopt c then Some (''setsockopt() failed: '' @ ls_errno c)
      else if \<not> ls_fcntl c then Some (''fcntl() failed: '' @ ls_errno c)
      else if \<not> ls_bind c then Some (''bind() failed: '' @ ls_errno c)
      else if \<not> ls_listen c then Some (''listen() failed: '' @ ls_errno c)
      else None)"

definition createEpoll :: "listen_calls \<Rightarrow> string option" where
  "createEpoll c = (if \<not> ls_epoll_create c then Some (''epoll_create1() failed: '' @ ls_errno c) else None)"

definition addToEpoll :: "listen_calls \<Rightarrow> string option" where
  "addToEpoll c = (if \<not> ls_epoll_add c then Some (''epoll_ctl ADD failed: '' @ ls_errno c) else None)"

definition strategy_name :: "string option \<Rightarrow> string" where
  "strategy_name strategy = (if strategy = Some ''compiled'' then ''compiled/pike'' else ''interpreted/tree'')"

text \<open>The exception of the constructor or the parser it has set up, with what was logged.\<close>

definition construct_server ::
  "'io libcpp \<Rightarrow> environment \<Rightarrow> listen_calls \<Rightarrow> log_state \<Rightarrow> ((string + parser) \<times> log_state) option" where
  "construct_server L en c t =
     (case initGrammar (en_files en) (en_grammar en) (en_matcher en) of
        None \<Rightarrow> None
      | Some (Inl e) \<Rightarrow> Some (Inl e, t)
      | Some (Inr P) \<Rightarrow>
          let t1 = log_debug (''grammar: '' @ fst (grammar_source (en_files en) (en_grammar en)) @ '' -> '' @
                     strategy_name (en_matcher en) @ '', '' @ lc_to_string L (int (length (ps_commandRules P))) @
                     '' command productions'') t
          in Some (case createListenSocket c of
               Some e \<Rightarrow> (Inl e, t1)
             | None \<Rightarrow>
                 (case createEpoll c of
                    Some e \<Rightarrow> (Inl e, t1)
                  | None \<Rightarrow> (case addToEpoll c of Some e \<Rightarrow> (Inl e, t1) | None \<Rightarrow> (Inr P, t1)))))"

section \<open>Extensions\<close>

text \<open>What registering changes: the log, the list of extensions, the objects allocated, the sink.\<close>

record registry =
  su_log :: log_state
  su_exts :: "extension list"
  su_allocs :: nat
  su_fancy :: bool

definition addExtension :: "extension \<Rightarrow> registry \<Rightarrow> registry" where
  "addExtension e s = s\<lparr>su_exts := su_exts s @ [e]\<rparr>"

definition new_object :: "(nat \<Rightarrow> bool) \<Rightarrow> registry \<Rightarrow> bool \<times> registry" where
  "new_object mem s = (mem (su_allocs s), s\<lparr>su_allocs := Suc (su_allocs s)\<rparr>)"

definition registry_log :: "(log_state \<Rightarrow> log_state) \<Rightarrow> registry \<Rightarrow> registry" where
  "registry_log f s = s\<lparr>su_log := f (su_log s)\<rparr>"

definition register_bonus :: "(nat \<Rightarrow> bool) \<Rightarrow> registry \<Rightarrow> registry" where
  "register_bonus mem s =
     (let failed = registry_log (log_warn ''could not create bonus extensions (out of memory)'');
          (got, s1) = new_object mem s
      in if \<not> got then failed s1
         else let (got2, s2) = new_object mem (addExtension (ExtBot 0) s1)
              in if \<not> got2 then failed s2 else addExtension (ExtFile ft_new) s2)"

definition new_audit :: "bool \<Rightarrow> audit_ext" where
  "new_audit opened = \<lparr>au_ok = opened, au_rows = []\<rparr>"

definition registerPlatformFeatures :: "environment \<Rightarrow> registry \<Rightarrow> registry" where
  "registerPlatformFeatures en s =
     (case en_config en of
        None \<Rightarrow> s
      | Some cfgPath \<Rightarrow>
          (case en_load_config en cfgPath of
             None \<Rightarrow> registry_log (log_warn (''could not read FT_IRC_CONFIG: '' @ cfgPath)) s
           | Some cfg \<Rightarrow>
               if \<not> cf_get_bool cfg ''audit'' ''enabled'' False then s
               else let file = cf_get cfg ''audit'' ''path'' ''./ircserv-audit.csv'';
                        (got, s1) = new_object (en_mem en) s;
                        opened = en_csv_open en file
                 in if \<not> got then s1
                    else if \<not> au_ok (new_audit opened) then registry_log (log_warn (''could not open audit log: '' @ file)) s1
                    else registry_log (log_info (''audit log: '' @ file)) (addExtension (ExtAudit (new_audit opened)) s1)))"

definition setSink :: "(nat \<Rightarrow> bool) \<Rightarrow> registry \<Rightarrow> registry" where
  "setSink mem s = (let (got, s1) = new_object mem s in s1\<lparr>su_fancy := got\<rparr>)"

definition registerExtensions :: "tier \<Rightarrow> environment \<Rightarrow> registry \<Rightarrow> registry" where
  "registerExtensions tr en s =
     (case tr of
        Mandatory \<Rightarrow> s
      | Bonus \<Rightarrow> register_bonus (en_mem en) s
      | Full \<Rightarrow> registerPlatformFeatures en (register_bonus (en_mem en) (setSink (en_mem en) s)))"

text \<open>The rows of the audit file: a header when the file is new, then one row per event.\<close>

definition audit_file :: "bool \<Rightarrow> (int \<Rightarrow> string) \<Rightarrow> audit_ext \<Rightarrow> string list list" where
  "audit_file isNew timestamp a =
     (if au_ok a \<and> isNew then [[''timestamp'', ''event'', ''actor'', ''detail'']] else []) @
     map (\<lambda>(now, event, actor, detail). [timestamp now, event, actor, detail]) (au_rows a)"

section \<open>From the arguments to the loop\<close>

text \<open>Why the program ended before its loop, or the parser and the state it enters the loop with.\<close>

definition start_main ::
  "'io libcpp \<Rightarrow> tier \<Rightarrow> environment \<Rightarrow> listen_calls \<Rightarrow> (nat \<Rightarrow> int) \<Rightarrow> (int \<Rightarrow> string) \<Rightarrow> string list \<Rightarrow>
   (log_state \<times> (parser \<times> 'io world) option) option" where
  "start_main L tr en c clock localtime argv =
     (let t = configureFromEnv (en_log en) \<lparr>lg_level = LOG_INFO, lg_out = []\<rparr>
      in if length argv \<noteq> 3 then Some (log_error ''usage: ./ircserv <port> <password>'' t, None)
         else case lc_parse_long L (argv ! 1) 1 65535 of
           None \<Rightarrow> Some (log_error ''port must be a number between 1 and 65535'' t, None)
         | Some port \<Rightarrow>
             if argv ! 2 = [] then Some (log_error ''password cannot be empty'' t, None)
             else (case construct_server L en c t of
                None \<Rightarrow> None
              | Some (Inl e, t1) \<Rightarrow> Some (log_error (''fatal: '' @ e) t1, None)
              | Some (Inr P, t1) \<Rightarrow>
                  let s = registerExtensions tr en \<lparr>su_log = t1, su_exts = [], su_allocs = 0, su_fancy = False\<rparr>;
                      t2 = log_banner (''ft_irc - listening on port '' @ lc_to_string L port) (su_log s)
                  in Some (t2, Some (P, initial_world (argv ! 2) PENDING_CLOSE_TIMEOUT (su_exts s) (lg_level t2) clock
                             (\<lambda>n. en_mem en (n + su_allocs s)) localtime))))"

section \<open>The loop and the end\<close>

text \<open>What \<open>epoll_wait\<close> comes back with; when the list is used up, a signal has stopped the server.\<close>

datatype poll = PollReady "ready list" | PollInterrupted | PollFailed string

text \<open>\<open>None\<close> is an iteration that does not come back or leaves the loop by an exception.\<close>

fun run_loop :: "'io libcpp \<Rightarrow> parser \<Rightarrow> poll list \<Rightarrow> 'io world \<Rightarrow> (string option \<times> 'io world) option" where
  "run_loop L P [] w = Some (None, w)"
| "run_loop L P (PollInterrupted # ps) w = run_loop L P ps w"
| "run_loop L P (PollFailed e # ps) w = Some (Some (''epoll_wait() failed: '' @ e), w)"
| "run_loop L P (PollReady evs # ps) w =
     (case run_iteration L P evs w of None \<Rightarrow> None | Some w' \<Rightarrow> run_loop L P ps w')"

text \<open>\<open>Server::~Server\<close>: every client's descriptor and the listening one are closed.\<close>

definition destroy_server :: "fd \<Rightarrow> 'io world \<Rightarrow> 'io world" where
  "destroy_server listenFd w =
     (let w1 = foldl (\<lambda>w f. os_call (OsClose f) w) (w\<lparr>w_exts := []\<rparr>) (om_keys (w_clients w));
          w2 = w1\<lparr>w_clients := [], w_channels := []\<rparr>
      in if 0 \<le> listenFd then os_call (OsClose listenFd) w2 else w2)"

text \<open>The rest of \<open>main\<close> behind the loop: the exit status and the final state.\<close>

definition finish_main :: "'io libcpp \<Rightarrow> fd \<Rightarrow> string option \<times> 'io world \<Rightarrow> int \<times> 'io world" where
  "finish_main L listenFd r =
     (case r of
        (None, w) \<Rightarrow>
          (0, destroy_server listenFd
             (upd_trace (log_info (''shutting down '' @ em_dash @ '' server stopped cleanly''))
               (upd_trace (\<lambda>t. log_info (''traffic: '' @ trace_summary L t) t) w)))
      | (Some e, w) \<Rightarrow> (1, upd_trace (log_error (''fatal: '' @ e)) (destroy_server listenFd w)))"

end
