(* ===== verification/Program_Properties.thy ===== *)
theory Program_Properties
  imports Program_Entry Builder_Demo Demo
begin

text \<open>
  The program as a whole: what it needs to get to its loop, what holds there, and what it
  leaves behind.
\<close>

section \<open>Getting to the loop\<close>

lemma new_extensions:
  "list_all new_extension (su_exts s) \<Longrightarrow> list_all new_extension (su_exts (registerExtensions tr en s))"
  by (auto simp: registerExtensions_def registerPlatformFeatures_def register_bonus_def setSink_def new_object_def
      addExtension_def registry_log_def new_audit_def new_extension_def Let_def split: tier.splits option.splits)

lemma construct_server_parser:
  assumes "construct_server L en c t = Some (Inr P, t')"
  shows "initGrammar (en_files en) (en_grammar en) (en_matcher en) = Some (Inr P)"
    "createListenSocket c = None" "createEpoll c = None" "addToEpoll c = None"
  using assms by (auto simp: construct_server_def Let_def split: option.splits sum.splits)

lemma start_main_loop:
  assumes "start_main L tr en c clock localtime argv = Some (t, Some (P, w))"
  shows "reachable L P w" "initGrammar (en_files en) (en_grammar en) (en_matcher en) = Some (Inr P)"
    "\<exists>port. lc_parse_long L (argv ! 1) 1 65535 = Some port" "w_password w = argv ! 2" "argv ! 2 \<noteq> []"
    "w_calls w = []" "createListenSocket c = None" "createEpoll c = None" "addToEpoll c = None"
proof -
  obtain port t1 s mem where p: "lc_parse_long L (argv ! 1) 1 65535 = Some port" "argv ! 2 \<noteq> []"
      "construct_server L en c (configureFromEnv (en_log en) \<lparr>lg_level = LOG_INFO, lg_out = []\<rparr>) = Some (Inr P, t1)"
      "s = registerExtensions tr en \<lparr>su_log = t1, su_exts = [], su_allocs = 0, su_fancy = False\<rparr>"
      "w = initial_world (argv ! 2) PENDING_CLOSE_TIMEOUT (su_exts s) (lg_level t) clock mem localtime"
    using assms by (auto simp: start_main_def Let_def split: if_splits option.splits sum.splits prod.splits)
  show "initGrammar (en_files en) (en_grammar en) (en_matcher en) = Some (Inr P)"
    "createListenSocket c = None" "createEpoll c = None" "addToEpoll c = None"
    by (rule construct_server_parser [OF p(3)])+
  show "\<exists>port. lc_parse_long L (argv ! 1) 1 65535 = Some port" using p(1) by blast
  show "w_password w = argv ! 2" "w_calls w = []" by (simp_all add: p(5) initial_world_def)
  show "argv ! 2 \<noteq> []" by (rule p(2))
  have "list_all new_extension (su_exts s)" unfolding p(4) by (rule new_extensions) simp
  then show "reachable L P w" unfolding p(5) by (rule reachable.start)
qed

section \<open>Running and ending\<close>

fun polls_ok :: "'io libcpp \<Rightarrow> parser \<Rightarrow> poll list \<Rightarrow> 'io world \<Rightarrow> bool" where
  "polls_ok L P [] w = True"
| "polls_ok L P (PollReady evs # ps) w \<longleftrightarrow> mask_honoured evs w \<and> batch_ok L P evs w \<and>
     (case run_iteration L P evs w of None \<Rightarrow> True | Some w' \<Rightarrow> polls_ok L P ps w')"
| "polls_ok L P (PollInterrupted # ps) w = polls_ok L P ps w"
| "polls_ok L P (PollFailed e # ps) w = True"

lemma run_loop_reachable:
  "run_loop L P ps w = Some (failure, w') \<Longrightarrow> reachable L P w \<Longrightarrow> polls_ok L P ps w \<Longrightarrow> reachable L P w'"
  by (induction L P ps w rule: run_loop.induct) (auto split: option.splits intro: reachable.step)

lemma destroy_server_views:
  "w_clients (destroy_server f w) = []" "w_channels (destroy_server f w) = []" "w_exts (destroy_server f w) = []"
  "w_calls (destroy_server f w) = w_calls w @ map OsClose (om_keys (w_clients w)) @ (if 0 \<le> f then [OsClose f] else [])"
proof -
  have o: "w_calls (os_call x v) = w_calls v @ [x]" "w_exts (os_call x v) = w_exts v" "w_clients (os_call x v) = w_clients v"
    "w_channels (os_call x v) = w_channels v" for x and v :: "'a world"
    by (simp_all add: os_call_def)
  have c: "w_calls (foldl (\<lambda>w f. os_call (OsClose f) w) v fs) = w_calls v @ map OsClose fs" for v :: "'a world" and fs
    by (induction fs arbitrary: v) (simp_all add: o)
  have e: "w_exts (foldl (\<lambda>w f. os_call (OsClose f) w) v fs) = w_exts v" for v :: "'a world" and fs
    by (induction fs arbitrary: v) (simp_all add: o)
  show "w_clients (destroy_server f w) = []" "w_channels (destroy_server f w) = []" "w_exts (destroy_server f w) = []"
    "w_calls (destroy_server f w) = w_calls w @ map OsClose (om_keys (w_clients w)) @ (if 0 \<le> f then [OsClose f] else [])"
    by (simp_all add: destroy_server_def Let_def o c e)
qed

lemma upd_trace_views:
  "w_clients (upd_trace g w) = w_clients w" "w_channels (upd_trace g w) = w_channels w" "w_calls (upd_trace g w) = w_calls w"
  by (simp_all add: upd_trace_def)

section \<open>The properties\<close>

definition demo_env :: environment where
  "demo_env = \<lparr>en_log = None, en_grammar = Some ''irc.abnf'', en_matcher = None, en_config = None,
     en_files = \<lambda>path. Some start_text, en_load_config = \<lambda>path. None, en_csv_open = \<lambda>path. False, en_mem = \<lambda>n. True\<rparr>"

definition demo_calls :: listen_calls where
  "demo_calls = \<lparr>ls_socket = True, ls_setsockopt = True, ls_fcntl = True, ls_bind = True, ls_listen = True,
     ls_epoll_create = True, ls_epoll_add = True, ls_errno = []\<rparr>"

definition demo_args :: "string list" where
  "demo_args = [''./ircserv'', ''6667'', ''pw'']"

lemma demo_started:
  "\<exists>t. start_main mini_lib Bonus demo_env demo_calls (\<lambda>_. 100) (\<lambda>_. ''now'') demo_args = Some (t, Some (start_parser, demo_start))"
proof -
  have "lc_parse_long mini_lib ''6667'' 1 65535 = Some 6667" by code_simp
  then show ?thesis
    by (simp add: start_main_def demo_args_def construct_server_def demo_env_def start_initGrammar demo_calls_def
        createListenSocket_def createEpoll_def addToEpoll_def registerExtensions_def register_bonus_def new_object_def
        addExtension_def Let_def configureFromEnv_def log_banner_def log_debug_def log_enabled_def render_def demo_start_def
        limit_defs)
qed

text \<open>
  C28.  From the arguments to the exit: a program that reaches its loop was given a password
  and a port, has a parser that \<open>initGrammar\<close> vouches for and a listening socket, and starts
  in a state the server's invariant holds for; the invariant holds whenever the loop ends; the
  exit status is zero exactly when a signal ended it; and the server then lets go of
  everything, closing each client's descriptor once, in the order of the table, and the
  listening one last.
\<close>

theorem program_run:
  assumes "start_main L tr en c clock localtime argv = Some (t, Some (P, w))" and "lib_ok L"
    and "polls_ok L P polls w" and "run_loop L P polls w = Some (failure, w')"
  shows "w_password w = argv ! 2 \<and> argv ! 2 \<noteq> [] \<and>
    (\<exists>port. lc_parse_long L (argv ! 1) 1 65535 = Some port \<and> 1 \<le> port \<and> port \<le> 65535) \<and>
    initGrammar (en_files en) (en_grammar en) (en_matcher en) = Some (Inr P) \<and>
    createListenSocket c = None \<and> world_ok L w \<and> world_ok L w' \<and>
    (case finish_main L listenFd (failure, w') of (status, v) \<Rightarrow>
       (status = 0 \<longleftrightarrow> failure = None) \<and> w_clients v = [] \<and> w_channels v = [] \<and>
       w_calls v = w_calls w' @ map OsClose (om_keys (w_clients w')) @ (if 0 \<le> listenFd then [OsClose listenFd] else []))"
proof -
  note s = start_main_loop [OF assms(1)]
  have r: "reachable L P w'" by (rule run_loop_reachable [OF assms(4) s(1) assms(3)])
  obtain port where p: "lc_parse_long L (argv ! 1) 1 65535 = Some port" using s(3) by blast
  then have "1 \<le> port \<and> port \<le> 65535" using assms(2) unfolding lib_ok_def parse_law_def by blast
  moreover have "world_ok L w" "world_ok L w'" using reachable_ok s(1) r assms(2) by blast+
  moreover have "case finish_main L listenFd (failure, w') of (status, v) \<Rightarrow>
       (status = 0 \<longleftrightarrow> failure = None) \<and> w_clients v = [] \<and> w_channels v = [] \<and>
       w_calls v = w_calls w' @ map OsClose (om_keys (w_clients w')) @ (if 0 \<le> listenFd then [OsClose listenFd] else [])"
    by (cases failure) (simp_all add: finish_main_def destroy_server_views upd_trace_views)
  ultimately show ?thesis using s p by blast
qed

theorem program_run_witness:
  "world_ok mini_lib demo_next \<and> fst (finish_main mini_lib 3 (None, demo_next)) = 0 \<and>
    w_calls (snd (finish_main mini_lib 3 (None, demo_next))) =
      w_calls demo_next @ map OsClose (om_keys (w_clients demo_next)) @ [OsClose 3]"
proof -
  obtain t where t: "start_main mini_lib Bonus demo_env demo_calls (\<lambda>_. 100) (\<lambda>_. ''now'') demo_args =
      Some (t, Some (start_parser, demo_start))" using demo_started by blast
  have ok: "polls_ok mini_lib start_parser [PollInterrupted, PollReady [ReadyListen (Some demo_accept)]] demo_start"
    using demo_batch by (simp add: demo_next_run)
  have run: "run_loop mini_lib start_parser [PollInterrupted, PollReady [ReadyListen (Some demo_accept)]] demo_start =
      Some (None, demo_next)"
    by (simp add: demo_next_run)
  show ?thesis
    using program_run [OF t demo_lib_ok ok run, where listenFd = 3] by (simp add: case_prod_beta)
qed

end
