(* ===== verification/Compiler_Total.thy ===== *)
theory Compiler_Total
  imports Machine_Correct Validator_Correct
begin

text \<open>
  When the compiled strategy takes a grammar: the checks \<open>ProgramCompiler.cpp\<close> makes on the
  way (no recursion, no octet above 255, bounded repetitions small enough to unroll, no
  capture inside an unbounded one) stated of the arena, and the proof that a grammar with
  these properties compiles, every rule of it, without leaving what C++ defines.
\<close>

section \<open>Rules that refer downwards\<close>

text \<open>The body of a rule lies below every reference to it: no rule can reach itself.\<close>

definition leads_down :: "grammar \<Rightarrow> bool" where
  "leads_down g \<longleftrightarrow> (\<forall>i. in_range i (g_nodes g) \<longrightarrow> n_kind (node g i) = Reference \<longrightarrow> ruleRoot g (n_lo (node g i)) < i)"

lemma leads_downD:
  "leads_down g \<Longrightarrow> in_range i (g_nodes g) \<Longrightarrow> n_kind (node g i) = Reference \<Longrightarrow> ruleRoot g (n_lo (node g i)) < i"
  by (simp add: leads_down_def)

lemma leftmost_down:
  "leftmost g i r \<Longrightarrow> grammar_wf g \<Longrightarrow> leads_down g \<Longrightarrow> in_range i (g_nodes g) \<Longrightarrow> ruleRoot g r < i"
proof (induction rule: leftmost.induct)
  case (left_rule i r)
  then have "ruleRoot g r < ruleRoot g (n_lo (node g i))" using wf_root by blast
  then show ?case using leads_downD [OF left_rule.prems(2,3) left_rule.hyps(1)] by simp
next
  case (left_sequence i js j ks r)
  have "j \<in> set (kids g (node g i))" using left_sequence.hyps(2) by simp
  note k = wf_kid [OF left_sequence.prems(1,3) this]
  show ?case using left_sequence.IH [OF left_sequence.prems(1,2) k(3)] k(2) by simp
next
  case (left_alternation i j r)
  note k = wf_kid [OF left_alternation.prems(1,3) left_alternation.hyps(2)]
  show ?case using left_alternation.IH [OF left_alternation.prems(1,2) k(3)] k(2) by simp
next
  case (left_repetition i r)
  have k: "child g (n_first (node g i)) < i" "in_range (child g (n_first (node g i))) (g_nodes g)"
    using repetition_kid [OF left_repetition.prems(1,3) left_repetition.hyps(1)] by simp_all
  show ?case using left_repetition.IH [OF left_repetition.prems(1,2) k(2)] k(1) by simp
qed (simp add: leads_down_def)

lemma down_not_left_recursive:
  assumes "grammar_wf g" and "leads_down g"
  shows "\<not> left_recursive g r"
  using leftmost_down [OF _ assms wf_root [OF assms(1)], of r r] by (auto simp: left_recursive_def)

section \<open>Grammars the compiler takes\<close>

definition compilable :: "grammar \<Rightarrow> bool" where
  "compilable g \<longleftrightarrow> leads_down g \<and>
     (\<forall>n \<in> set (g_nodes g). n_kind n = OctetRange \<longrightarrow> 0 \<le> n_lo n \<and> n_hi n < 256) \<and>
     (\<forall>n \<in> set (g_nodes g). n_kind n = Repetition \<longrightarrow>
        (if n_hi n = kUnbounded then hasCapture g [] (child g (n_first n)) = Some False
         else max 0 (n_lo n) \<le> n_hi n \<and> n_hi n - max 0 (n_lo n) \<le> kUnrollLimit))"

lemma node_in: "in_range i (g_nodes g) \<Longrightarrow> node g i \<in> set (g_nodes g)"
  by (auto simp: node_def in_range_def)

lemma compilable_octets:
  "compilable g \<Longrightarrow> in_range i (g_nodes g) \<Longrightarrow> n_kind (node g i) = OctetRange \<Longrightarrow> 0 \<le> n_lo (node g i) \<and> n_hi (node g i) < 256"
  using node_in [of i g] by (auto simp: compilable_def)

lemma compilable_repetition:
  assumes "compilable g" and "in_range i (g_nodes g)" and "n_kind (node g i) = Repetition"
  shows "if n_hi (node g i) = kUnbounded then hasCapture g [] (child g (n_first (node g i))) = Some False
         else max 0 (n_lo (node g i)) \<le> n_hi (node g i) \<and> n_hi (node g i) - max 0 (n_lo (node g i)) \<le> kUnrollLimit"
  using assms(1,3) node_in [OF assms(2)] unfolding compilable_def by blast

section \<open>Classes are built\<close>

lemma setBits_some: "\<forall>k \<in> set cs. 0 \<le> k \<and> k < 256 \<Longrightarrow> \<exists>bits'. setBits cs bits = Some bits'"
  using setBits_defined [of cs bits] by blast

lemma buildClass_total:
  "grammar_wf g \<Longrightarrow> compilable g \<Longrightarrow> in_range i (g_nodes g) \<Longrightarrow> \<forall>b \<in> set busy. i < b \<Longrightarrow> buildClass g busy i bits \<noteq> None"
  "grammar_wf g \<Longrightarrow> compilable g \<Longrightarrow> \<forall>j \<in> set js. in_range j (g_nodes g) \<and> (\<forall>b \<in> set busy. j < b) \<Longrightarrow>
    buildClasses g busy js bits \<noteq> None"
proof (induction g busy i bits and g busy js bits rule: buildClass_buildClasses.induct)
  case (1 g busy i bits)
  have free: "\<not> (i \<in> set busy \<or> \<not> in_range i (g_nodes g))" using "1.prems" by auto
  show ?case
  proof (cases "n_kind (node g i)")
    case OctetRange
    then show ?thesis
      using free compilable_octets [OF "1.prems"(2,3) OctetRange] setBits_defined [of "[n_lo (node g i)..n_hi (node g i)]" bits]
      by (auto simp: buildClass.simps [of g busy i] Let_def)
  next
    case Literal
    let ?c = "literal g (n_literal (node g i)) ! 0"
    show ?thesis
      using free Literal setBits_defined [of "[octet ?c, octet (fold_char ?c), octet (upper_of (fold_char ?c))]" bits]
      by (auto simp: buildClass.simps [of g busy i] Let_def)
  next
    case Reference
    let ?r = "ruleRoot g (n_lo (node g i))"
    have r: "?r < i" using leads_downD [OF _ "1.prems"(3) Reference] "1.prems"(2) by (simp add: compilable_def)
    then have "\<forall>b \<in> set (i # busy). ?r < b" using "1.prems"(4) by fastforce
    then have "buildClass g (i # busy) ?r bits \<noteq> None" if "?r \<noteq> kNoRule"
      using "1.IH"(1) [OF free refl Reference that "1.prems"(1,2) wf_root [OF "1.prems"(1) that]] by blast
    then show ?thesis using free Reference by (auto simp: buildClass.simps [of g busy i] Let_def)
  next
    case Alternation
    have "in_range j (g_nodes g) \<and> (\<forall>b \<in> set (i # busy). j < b)" if "j \<in> set (kids g (node g i))" for j
      using wf_kid [OF "1.prems"(1,3) that] "1.prems"(4) by auto
    then show ?thesis
      using free "1.IH"(2) [OF free refl Alternation "1.prems"(1,2)] Alternation
      by (simp add: buildClass.simps [of g busy i] Let_def)
  qed (use free in \<open>simp_all add: buildClass.simps [of g busy i] Let_def\<close>)
next
  case (3 g busy j js bits)
  then show ?case by (auto split: option.split)
qed simp

lemma emitOctets_some: "\<forall>k \<in> set cs. 0 \<le> k \<and> k < 256 \<Longrightarrow> \<exists>p'. emitOctets cs p = Emitted p'"
  using setBits_some [of cs no_octets] by (auto simp: emitOctets_def)

lemma emitLiteral_some: "\<exists>p'. emitLiteral s p = Emitted p'"
proof (induction s arbitrary: p)
  case (Cons c s)
  obtain p1 where "emitOctets [octet (fold_char c), octet (upper_of (fold_char c))] p = Emitted p1"
    using emitOctets_some [of "[octet (fold_char c), octet (upper_of (fold_char c))]" p] by auto
  then show ?case using Cons by simp
qed simp

section \<open>Captures are found or excluded\<close>

text \<open>The rules entered on the way to a node lie above it.\<close>

abbreviation above :: "grammar \<Rightarrow> int list \<Rightarrow> int \<Rightarrow> bool" where
  "above g rules i \<equiv> \<forall>q \<in> set rules. i \<le> ruleRoot g q"

lemma above_reference:
  assumes "leads_down g" and "in_range i (g_nodes g)" and "n_kind (node g i) = Reference" and "above g rules i"
  shows "n_lo (node g i) \<notin> set rules" "above g (n_lo (node g i) # rules) (ruleRoot g (n_lo (node g i)))"
  using leads_downD [OF assms(1-3)] assms(4) by fastforce+

lemma hasCapture_total:
  "grammar_wf g \<Longrightarrow> leads_down g \<Longrightarrow> in_range i (g_nodes g) \<Longrightarrow> above g entered i \<Longrightarrow> hasCapture g entered i \<noteq> None"
  "grammar_wf g \<Longrightarrow> leads_down g \<Longrightarrow> below g i js \<Longrightarrow> above g entered i \<Longrightarrow> hasCaptures g entered i js \<noteq> None"
proof (induction g entered i and g entered i js rule: hasCapture_hasCaptures.induct)
  case (1 g entered i)
  have r: "\<not> \<not> in_range i (g_nodes g)" using "1.prems"(3) by simp
  show ?case
  proof (cases "n_kind (node g i) = Reference")
    case True
    note up = above_reference [OF "1.prems"(2,3) True "1.prems"(4)]
    have "hasCapture g (n_lo (node g i) # entered) (ruleRoot g (n_lo (node g i))) \<noteq> None"
      if "n_capture (node g i) = kNoCapture" "ruleRoot g (n_lo (node g i)) \<noteq> kNoRule"
      using "1.IH"(1) [OF r refl True _ that(2) up(1) "1.prems"(1,2) wf_root [OF "1.prems"(1) that(2)] up(2)] that(1) by simp
    then show ?thesis using r True up(1) by (auto simp: hasCapture.simps [of g entered i] Let_def)
  next
    case False
    have "below g i (kids g (node g i))" using kids_below [OF "1.prems"(1,3)] by blast
    then show ?thesis
      using "1.IH"(2) [OF r refl False "1.prems"(1,2) _ "1.prems"(4)] r False
      by (simp add: hasCapture.simps [of g entered i] Let_def)
  qed
next
  case (3 g entered i j js)
  have j: "0 \<le> j \<and> j < i" "in_range j (g_nodes g)" using "3.prems"(3) by simp_all
  have up: "above g entered j" using "3.prems"(4) j(1) by fastforce
  obtain b where b: "hasCapture g entered j = Some b"
    using "3.IH"(1) [OF j(1) "3.prems"(1,2) j(2) up] by blast
  have js: "below g i js" using "3.prems"(3) by simp
  have "hasCaptures g entered i js \<noteq> None" if "\<not> b"
    using "3.IH"(2) [OF j(1) b that "3.prems"(1,2) js "3.prems"(4)] .
  then show ?case using j b by auto
qed simp

section \<open>Every node is emitted\<close>

abbreviation emits_some :: "'a emitted \<Rightarrow> bool" where
  "emits_some m \<equiv> \<exists>a. m = Emitted a"

lemma and_then_some: "emits_some m \<Longrightarrow> (\<And>a. m = Emitted a \<Longrightarrow> emits_some (f a)) \<Longrightarrow> emits_some (and_then m f)"
  by auto

definition takes_grammar :: "grammar \<Rightarrow> bool" where
  "takes_grammar g \<longleftrightarrow> grammar_wf g \<and> rules_defined g \<and> compilable g"

lemma above_mono: "above g compiling i \<Longrightarrow> j < i \<Longrightarrow> above g compiling j"
  by fastforce

lemma emit_total:
  "takes_grammar g \<Longrightarrow> in_range i (g_nodes g) \<Longrightarrow> above g compiling i \<Longrightarrow> emits_some (emitNode g compiling i p)"
  "takes_grammar g \<Longrightarrow> in_range i (g_nodes g) \<Longrightarrow> above g compiling i \<Longrightarrow> n_kind (node g i) = Repetition \<Longrightarrow>
    emits_some (emitRepetition g compiling i p)"
  "takes_grammar g \<Longrightarrow> below g i [j] \<Longrightarrow> above g compiling i \<Longrightarrow> emits_some (emitBody g compiling i j m p)"
  "takes_grammar g \<Longrightarrow> below g i [j] \<Longrightarrow> above g compiling i \<Longrightarrow> emits_some (emitOptional g compiling i j m p)"
  "takes_grammar g \<Longrightarrow> below g i js \<Longrightarrow> above g compiling i \<Longrightarrow> emits_some (emitSequence g compiling i js p)"
  "takes_grammar g \<Longrightarrow> below g i js \<Longrightarrow> above g compiling i \<Longrightarrow> emits_some (emitAlternatives g compiling i js p)"
  "takes_grammar g \<Longrightarrow> below g i [j] \<Longrightarrow> above g compiling i \<Longrightarrow> emits_some (emitInline g compiling i j p)"
proof (induction g compiling i p and g compiling i p and g compiling i j m p and g compiling i j m p
    and g compiling i js p and g compiling i js p and g compiling i j p
    rule: emitNode_emitRepetition_emitBody_emitOptional_emitSequence_emitAlternatives_emitInline.induct)
  case (1 g compiling i p)
  have wf: "grammar_wf g" and def: "rules_defined g" and comp: "compilable g" and down: "leads_down g"
    using "1.prems"(1) unfolding takes_grammar_def compilable_def by blast+
  have r: "\<not> \<not> in_range i (g_nodes g)" using "1.prems"(2) by simp
  obtain ok bits where cls: "(if isSingleOctet g [] i then buildClass g [] i no_octets else Some (False, no_octets)) = Some (ok, bits)"
    using buildClass_total(1) [OF wf comp "1.prems"(2), of "[]" no_octets] by (cases "isSingleOctet g [] i") auto
  show ?case
  proof (cases ok)
    case True
    then show ?thesis using r cls by (simp add: emitNode.simps [of g compiling i p])
  next
    case False
    let ?n = "node g i"
    have run: "emitNode g compiling i p = (case n_kind ?n of
        OctetRange \<Rightarrow> emitOctets [n_lo ?n..n_hi ?n] p
      | Literal \<Rightarrow> emitLiteral (literal g (n_literal ?n)) p
      | Reference \<Rightarrow> emitNode g compiling i p
      | Sequence \<Rightarrow> emitSequence g compiling i (kids g ?n) p
      | Alternation \<Rightarrow> and_then (emitAlternatives g compiling i (kids g ?n) p)
          (\<lambda>(jumps, p'). Emitted (patch_all_x jumps (pc_of p') p'))
      | Repetition \<Rightarrow> emitRepetition g compiling i p)"
      using r cls False by (simp add: emitNode.simps [of g compiling i p] Let_def split: node_kind.split)
    note step = "1.IH" [OF r cls refl False refl]
    show ?thesis
    proof (cases "n_kind ?n")
      case Literal
      then show ?thesis using run emitLiteral_some by simp
    next
      case OctetRange
      then show ?thesis using run emitOctets_some [of "[n_lo ?n..n_hi ?n]" p] compilable_octets [OF comp "1.prems"(2)] by simp
    next
      case Reference
      have root: "ruleRoot g (n_lo ?n) \<noteq> kNoRule"
        using def reference_root [OF wf "1.prems"(2) Reference] by (simp add: rules_defined_def)
      note up = above_reference [OF down "1.prems"(2) Reference "1.prems"(3)]
      show ?thesis
      proof (cases "n_capture ?n = kNoCapture")
        case True
        then show ?thesis
          using step(1) [OF Reference root up(1) True "1.prems"(1) wf_root [OF wf root] up(2)] r cls False Reference root up(1)
          by (simp add: emitNode.simps [of g compiling i p] Let_def)
      next
        case cap: False
        then show ?thesis
          using step(2) [OF Reference root up(1) cap refl refl "1.prems"(1) wf_root [OF wf root] up(2)] r cls False Reference root up(1)
          by (auto simp: emitNode.simps [of g compiling i p] Let_def)
      qed
    next
      case Sequence
      then show ?thesis using run step(3) [OF Sequence "1.prems"(1) _ "1.prems"(3)] kids_below [OF wf "1.prems"(2)] by simp
    next
      case Alternation
      then obtain jumps p' where "emitAlternatives g compiling i (kids g ?n) p = Emitted (jumps, p')"
        using step(4) [OF Alternation "1.prems"(1) _ "1.prems"(3)] kids_below [OF wf "1.prems"(2)] by (metis surj_pair)
      then show ?thesis using run Alternation by simp
    next
      case Repetition
      then show ?thesis using run step(5) [OF Repetition "1.prems" Repetition] by simp
    qed
  qed
next
  case (2 g compiling i p)
  let ?n = "node g i" and ?j = "child g (n_first (node g i))"
  let ?least = "max 0 (n_lo ?n)"
  have wf: "grammar_wf g" and comp: "compilable g" using "2.prems"(1) by (simp_all add: takes_grammar_def)
  have j: "below g i [?j]" by (rule repetition_kid [OF wf "2.prems"(2,4)])
  note bounds = compilable_repetition [OF comp "2.prems"(2,4)]
  obtain p1 where p1: "emitBody g compiling i ?j (nat ?least) p = Emitted p1"
    using "2.IH"(1) [OF refl refl refl "2.prems"(1) j "2.prems"(3)] by blast
  show ?case
  proof (cases "n_hi ?n = kUnbounded")
    case True
    then have no: "hasCapture g [] ?j = Some False" using bounds by simp
    have "\<not> False" by simp
    obtain p3 where p3: "emitInline g compiling i ?j (patch_x (pc_of p1) (pc_of p1 + 1) (emit Split 0 0 p1)) = Emitted p3"
      using "2.IH"(2) [OF refl refl refl p1 True no \<open>\<not> False\<close> refl refl "2.prems"(1) j "2.prems"(3)] by blast
    then show ?thesis using p1 True no by (simp add: emitRepetition.simps Let_def)
  next
    case False
    then have b: "\<not> n_hi ?n - ?least < 0" "\<not> kUnrollLimit < n_hi ?n - ?least" using bounds by auto
    obtain exits p2 where "emitOptional g compiling i ?j (nat (n_hi ?n - ?least)) p1 = Emitted (exits, p2)"
      using "2.IH"(3) [OF refl refl refl p1 False b "2.prems"(1) j "2.prems"(3)] by (metis surj_pair)
    then show ?thesis using p1 False b by (simp add: emitRepetition.simps Let_def)
  qed
next
  case (4 g compiling i j m p)
  then show ?case by (auto intro!: and_then_some simp del: split_paired_Ex)
next
  case (6 g compiling i j m p)
  let ?p0 = "patch_x (pc_of p) (pc_of p + 1) (emit Split 0 0 p)"
  obtain p1 where p1: "emitInline g compiling i j ?p0 = Emitted p1" using "6.IH"(1) [OF refl "6.prems"] by blast
  then obtain exits p2 where "emitOptional g compiling i j m p1 = Emitted (exits, p2)"
    using "6.IH"(2) [OF refl p1 "6.prems"] by (metis surj_pair)
  then show ?case using p1 by (simp add: Let_def)
next
  case (8 g compiling i j js p)
  then show ?case by (auto intro!: and_then_some simp del: split_paired_Ex)
next
  case (10 g compiling i j js p)
  have j: "below g i [j]" "below g i js" using "10.prems"(2) by simp_all
  show ?case
  proof (cases "js = []")
    case True
    then show ?thesis using "10.IH"(1) [OF True "10.prems"(1) j(1) "10.prems"(3)] by auto
  next
    case False
    let ?p0 = "patch_x (pc_of p) (pc_of p + 1) (emit Split 0 0 p)"
    obtain p1 where p1: "emitInline g compiling i j ?p0 = Emitted p1"
      using "10.IH"(2) [OF False refl "10.prems"(1) j(1) "10.prems"(3)] by blast
    let ?p3 = "patch_y (pc_of p) (pc_of (emit Jump 0 0 p1)) (emit Jump 0 0 p1)"
    obtain jumps p4 where "emitAlternatives g compiling i js ?p3 = Emitted (jumps, p4)"
      using "10.IH"(3) [OF False refl p1 refl refl refl "10.prems"(1) j(2) "10.prems"(3)] by (metis surj_pair)
    then show ?thesis using p1 False by (simp add: Let_def)
  qed
next
  case (11 g compiling i j p)
  then have "0 \<le> j \<and> j < i" by simp
  then show ?case using "11.IH" [OF _ "11.prems"(1)] "11.prems" above_mono [OF "11.prems"(3), of j] by (simp add: emitInline.simps)
qed simp_all

lemma compileRule_total:
  assumes "takes_grammar g" and "ruleRoot g r \<noteq> kNoRule"
  shows "\<exists>P. compileRule g r = Emitted P"
proof -
  have "in_range (ruleRoot g r) (g_nodes g)" using wf_root [OF _ assms(2)] assms(1) by (simp add: takes_grammar_def)
  then obtain p where "emitNode g [] (ruleRoot g r) empty_program = Emitted p"
    using emit_total(1) [OF assms(1)] by fastforce
  then show ?thesis using assms(2) by (simp add: compileRule_def)
qed

lemma compileRules_total:
  assumes "takes_grammar g" and "\<forall>r \<in> set rs. in_range r (pm_programs m)"
  shows "\<exists>m'. compileRules g rs m = Some (True, m')"
  using assms(2)
proof (induction rs arbitrary: m)
  case (Cons r rs)
  show ?case
  proof (cases "ruleRoot g r = kNoRule")
    case True
    then show ?thesis using Cons by simp
  next
    case False
    obtain P where "compileRule g r = Emitted P" using compileRule_total [OF assms(1) False] by blast
    then obtain Q m1 where m1: "programFor g r m = Some (Some Q, m1)" "length (pm_programs m1) = length (pm_programs m)"
      using Cons.prems by (cases "pm_programs m ! nat r") (auto simp: programFor_def)
    then have "\<forall>r \<in> set rs. in_range r (pm_programs m1)" using Cons.prems by (simp add: in_range_def)
    then show ?thesis using Cons.IH [of m1] m1(1) False by simp
  qed
qed simp

lemma compileAll_total: "takes_grammar g \<Longrightarrow> \<exists>m. compileAll g (new_program_matcher g) = Some (True, m)"
  unfolding compileAll_def by (rule compileRules_total) (auto simp: new_program_matcher_def in_range_def)

end
