(* ===== verification/Embedded_Grammar.thy ===== *)
theory Embedded_Grammar
  imports Start_Up
begin

text \<open>
  What the builder makes of the grammar the server carries (\<open>kGrammar\<close>): the arena of 301
  nodes, line by line as the text has its rules, and the proof that \<open>GrammarBuilder\<close> builds
  it.  \<open>arena i\<close> is the grammar after the first \<open>i\<close> lines.  Every line but the second one of
  \<open>params\<close> (\<open>=/\<close>) names a new rule, after all the rules it refers to.
\<close>

section \<open>The arena\<close>

abbreviation lit :: "int \<Rightarrow> grammar_node" where
  "lit k \<equiv> empty_node\<lparr>n_kind := Literal, n_literal := k\<rparr>"

abbreviation oct :: "int \<Rightarrow> int \<Rightarrow> grammar_node" where
  "oct lo hi \<equiv> empty_node\<lparr>n_kind := OctetRange, n_lo := lo, n_hi := hi\<rparr>"

abbreviation cap :: "int \<Rightarrow> int \<Rightarrow> grammar_node" where
  "cap rule slot \<equiv> empty_node\<lparr>n_kind := Reference, n_lo := rule, n_capture := slot\<rparr>"

abbreviation ref :: "int \<Rightarrow> grammar_node" where
  "ref rule \<equiv> cap rule kNoCapture"

abbreviation seq :: "int \<Rightarrow> int \<Rightarrow> grammar_node" where
  "seq first count \<equiv> empty_node\<lparr>n_kind := Sequence, n_lo := 0, n_hi := 0, n_first := first, n_count := count\<rparr>"

abbreviation alt :: "int \<Rightarrow> int \<Rightarrow> grammar_node" where
  "alt first count \<equiv> empty_node\<lparr>n_kind := Alternation, n_lo := 0, n_hi := 0, n_first := first, n_count := count\<rparr>"

abbreviation rep :: "int \<Rightarrow> int \<Rightarrow> int \<Rightarrow> grammar_node" where
  "rep lo hi first \<equiv> empty_node\<lparr>n_kind := Repetition, n_lo := lo, n_hi := hi, n_first := first, n_count := 1\<rparr>"

text \<open>What each line adds to the nodes, the children and the literals.\<close>

definition embedded_nodes :: "grammar_node list list" where
  "embedded_nodes =
     [[oct 32 32], [oct 1 9, oct 11 12, oct 14 31, oct 33 57, oct 59 255, alt 0 5],
      [ref 1, lit 0, ref 1, alt 5 2, rep 0 (-1) 7, seq 8 2], [lit 1, lit 2, ref 1, alt 10 3, rep 0 (-1) 13],
      [oct 65 90, oct 97 122, alt 14 2], [oct 48 57], [oct 91 96, oct 123 125, alt 16 2],
      [ref 4, ref 6, alt 18 2, ref 4, ref 5, ref 6, lit 3, alt 20 4, rep 0 8 24, seq 25 2], [ref 2], [ref 2],
      [ref 2], [ref 2], [ref 2], [ref 3], [ref 3], [ref 2], [ref 3], [ref 3], [ref 2], [ref 2], [ref 3],
      [ref 2], [ref 3], [ref 2], [ref 2], [ref 3], [ref 2], [ref 2], [ref 2], [ref 3], [ref 2], [ref 2],
      [ref 2], [ref 2], [ref 2], [ref 2],
      [lit 4, ref 0, cap 15 0, ref 0, lit 5, rep 0 1 27, cap 16 1, seq 28 3, rep 0 1 31, seq 32 3, rep 0 1 35, ref 0, rep 0 (-1) 36, seq 37 3],
      [lit 6, ref 0, lit 7, rep 0 1 40, cap 8 2, ref 0, rep 0 (-1) 41, seq 42 5],
      [lit 8, ref 0, lit 9, rep 0 1 47, cap 9 3, ref 0, rep 0 (-1) 48, seq 49 5],
      [lit 10, ref 0, cap 10 4, ref 0, cap 11 5, ref 0, cap 12 6, ref 0, lit 11, cap 13 7, ref 0, rep 0 (-1) 54, seq 55 11],
      [lit 12, ref 0, lit 13, rep 0 1 66, cap 14 8, seq 67 3, rep 0 1 70, ref 0, rep 0 (-1) 71, seq 72 3],
      [lit 14, ref 0, lit 15, rep 0 1 75, cap 17 9, seq 76 3, rep 0 1 79, ref 0, rep 0 (-1) 80, seq 81 3],
      [lit 16, ref 0, lit 17, rep 0 1 84, cap 17 9, seq 85 3, rep 0 1 88, ref 0, rep 0 (-1) 89, seq 90 3],
      [lit 18, ref 0, lit 19, cap 18 10, ref 0, cap 19 11, seq 93 2, rep 0 1 95, seq 96 2, alt 98 2, ref 0, rep 0 (-1) 100, seq 101 4],
      [lit 20, ref 0, cap 18 10, ref 0, lit 21, rep 0 1 105, cap 20 12, seq 106 3, rep 0 1 109, ref 0, rep 0 (-1) 110, seq 111 5],
      [lit 22, ref 0, cap 21 13, ref 0, lit 23, rep 0 1 116, cap 22 14, ref 0, rep 0 (-1) 117, seq 118 7],
      [lit 24, ref 0, cap 21 13, ref 0, lit 25, rep 0 1 125, cap 22 14, ref 0, rep 0 (-1) 126, seq 127 7],
      [lit 26, ref 0, cap 23 15, ref 0, cap 24 16, ref 0, lit 27, rep 0 1 134, cap 25 17, seq 135 3, rep 0 1 138, ref 0, rep 0 (-1) 139, seq 140 7],
      [lit 28, ref 0, cap 26 18, ref 0, cap 27 19, ref 0, rep 0 (-1) 147, seq 148 6],
      [lit 29, ref 0, cap 28 20, ref 0, lit 30, cap 29 21, seq 154 3, rep 0 1 157, ref 0, rep 0 (-1) 158, seq 159 5],
      [lit 31, ref 0, cap 30 22, ref 0, cap 31 23, ref 0, cap 32 24, seq 164 2, rep 0 13 166, seq 167 3, rep 0 1 170, ref 0, rep 0 (-1) 171, seq 172 5],
      [lit 32, ref 0, cap 33 25, seq 177 2, rep 0 1 179, ref 0, rep 0 (-1) 180, seq 181 3],
      [lit 33, ref 0, ref 2, ref 0, seq 184 2, rep 0 1 186, cap 34 26, ref 0, rep 0 (-1) 187, seq 188 5],
      [lit 34, ref 0, cap 35 27, ref 0, cap 35 27, seq 193 2, rep 0 4 195, ref 0, rep 0 (-1) 196, seq 197 5],
      [ref 4, rep 1 (-1) 202, ref 5, rep 3 3 203, alt 204 2], [ref 2], [ref 3], [ref 2],
      [ref 0, rep 1 (-1) 206],
      [ref 58, cap 55 28, seq 207 2, rep 0 14 209, ref 58, lit 35, cap 56 29, seq 210 3, rep 0 1 213, seq 214 2],
      [ref 58, cap 55 28, seq 216 2, rep 14 14 218, ref 58, lit 36, rep 0 1 219, cap 56 29, seq 220 3, rep 0 1 223, seq 224 2, alt 226 2],
      [ref 0, rep 0 (-1) 228, lit 37, cap 57 30, ref 58, seq 229 3, rep 0 1 232, cap 54 31, ref 59, rep 0 1 233, ref 0, rep 0 (-1) 234, seq 235 5]]"

definition embedded_children :: "int list list" where
  "embedded_children =
     [[], [1, 2, 3, 4, 5], [8, 9, 10, 7, 11], [13, 14, 15, 16], [18, 19], [], [22, 23],
      [25, 26, 28, 29, 30, 31, 32, 27, 33], [], [], [], [], [], [], [], [], [], [], [], [], [], [], [], [],
      [], [], [], [], [], [], [], [], [], [], [], [], [67, 66, 68, 69, 70, 64, 65, 71, 72, 74, 63, 73, 75],
      [79, 82, 77, 78, 80, 81, 83], [87, 90, 85, 86, 88, 89, 91],
      [103, 93, 94, 95, 96, 97, 98, 99, 100, 101, 102, 104], [108, 107, 109, 110, 111, 113, 106, 112, 114],
      [118, 117, 119, 120, 121, 123, 116, 122, 124], [128, 127, 129, 130, 131, 133, 126, 132, 134],
      [140, 141, 142, 139, 143, 138, 144, 146, 136, 137, 145, 147],
      [153, 152, 154, 155, 156, 158, 149, 150, 151, 157, 159], [165, 168, 161, 162, 163, 164, 166, 167, 169],
      [175, 178, 171, 172, 173, 174, 176, 177, 179],
      [187, 186, 188, 189, 190, 192, 181, 182, 183, 184, 185, 191, 193], [200, 195, 196, 197, 198, 199, 201],
      [206, 207, 208, 209, 211, 203, 204, 205, 210, 212],
      [219, 220, 221, 217, 218, 222, 223, 225, 214, 215, 216, 224, 226], [229, 230, 231, 233, 228, 232, 234],
      [238, 239, 240, 243, 236, 237, 241, 242, 244], [249, 250, 251, 253, 246, 247, 248, 252, 254],
      [256, 258, 257, 259], [], [], [], [264], [266, 267, 268, 270, 271, 272, 273, 269, 274],
      [276, 277, 278, 281, 280, 282, 283, 284, 279, 285, 275, 286],
      [288, 290, 291, 292, 293, 296, 298, 289, 294, 295, 297, 299]]"

definition embedded_literals :: "string list list" where
  "embedded_literals =
     [[], [], ['':''], ['':'', '' ''], [], [], [], [''-''], [], [], [], [], [], [], [], [], [], [], [], [],
      [], [], [], [], [], [], [], [], [], [], [], [], [], [], [], [], [''CAP'', '':''], [''PASS'', '':''],
      [''NICK'', '':''], [''USER'', '':''], [''QUIT'', '':''], [''PONG'', '':''], [''PING'', '':''],
      [''JOIN'', ''0''], [''PART'', '':''], [''PRIVMSG'', '':''], [''NOTICE'', '':''], [''KICK'', '':''],
      [''INVITE''], [''TOPIC'', '':''], [''MODE''], [''WHO''], [''WHOIS''], [''USERHOST''], [], [], [], [],
      [], ['':''], ['':''], ['':'']]"

text \<open>The names of the rules and captures, in the order the builder meets them.\<close>

definition embedded_names :: "string list" where
  "embedded_names =
     [''space'', ''nospcrlfcl'', ''middle'', ''trailing'', ''letter'', ''digit'', ''special'', ''nickname'',
      ''password'', ''newnick'', ''username'', ''usermode'', ''unused'', ''realname'', ''quitmsg'',
      ''capsub'', ''capparam'', ''pingtoken'', ''chanlist'', ''keylist'', ''partmsg'', ''msgtarget'',
      ''msgtext'', ''kickchans'', ''kickusers'', ''kickreason'', ''invnick'', ''invchan'', ''topicchan'',
      ''topictext'', ''modetarget'', ''modestring'', ''modeparam'', ''whomask'', ''whoisnick'', ''hostnick'',
      ''cap-cmd'', ''pass-cmd'', ''nick-cmd'', ''user-cmd'', ''quit-cmd'', ''pong-cmd'', ''ping-cmd'',
      ''join-cmd'', ''part-cmd'', ''privmsg-cmd'', ''notice-cmd'', ''kick-cmd'', ''invite-cmd'',
      ''topic-cmd'', ''mode-cmd'', ''who-cmd'', ''whois-cmd'', ''userhost-cmd'', ''command'', ''param'',
      ''trail'', ''prefix'', ''sp'', ''params'', ''message'']"

definition embedded_captures :: "string list" where
  "embedded_captures =
     [''capsub'', ''capparam'', ''password'', ''newnick'', ''username'', ''usermode'', ''unused'',
      ''realname'', ''quitmsg'', ''pingtoken'', ''chanlist'', ''keylist'', ''partmsg'', ''msgtarget'',
      ''msgtext'', ''kickchans'', ''kickusers'', ''kickreason'', ''invnick'', ''invchan'', ''topicchan'',
      ''topictext'', ''modetarget'', ''modestring'', ''modeparam'', ''whomask'', ''whoisnick'', ''hostnick'',
      ''param'', ''trail'', ''prefix'', ''command'']"

text \<open>The number of captures before each line, and at the end.\<close>

definition capture_counts :: "nat list" where
  "capture_counts =
     [0, 0, 0, 0, 0, 0, 0, 0, 0, 0, 0, 0, 0, 0, 0, 0, 0, 0, 0, 0, 0, 0, 0, 0, 0, 0, 0, 0, 0, 0, 0, 0, 0, 0, 0,
      0, 0, 2, 3, 4, 8, 9, 10, 10, 12, 13, 15, 15, 18, 20, 22, 25, 26, 27, 28, 28, 28, 28, 28, 28, 30, 30,
      32]"

text \<open>The roots of the rules; that of \<open>params\<close> moves when its second line comes.\<close>

definition embedded_roots :: "int list" where
  "embedded_roots =
     [0, 6, 12, 17, 20, 21, 24, 34, 35, 36, 37, 38, 39, 40, 41, 42, 43, 44, 45, 46, 47, 48, 49, 50, 51, 52,
      53, 54, 55, 56, 57, 58, 59, 60, 61, 62, 76, 84, 92, 105, 115, 125, 135, 148, 160, 170, 180, 194, 202,
      213, 227, 235, 245, 255, 260, 261, 262, 263, 265, 287, 300]"

definition rule_count :: "nat \<Rightarrow> nat" where
  "rule_count i = (if i \<le> 60 then i else i - 1)"

definition roots_after :: "nat \<Rightarrow> int list" where
  "roots_after i = (if i \<le> 60 then (take i embedded_roots)[59 := 275] else take (i - 1) embedded_roots)"

definition arena :: "nat \<Rightarrow> grammar" where
  "arena i =
     \<lparr>g_nodes = concat (take i embedded_nodes), g_children = concat (take i embedded_children),
      g_literals = concat (take i embedded_literals), g_captureNames = take (capture_counts ! i) embedded_captures,
      g_ruleNames = take (rule_count i) embedded_names, g_ruleRoots = roots_after i\<rparr>"

definition embedded_grammar :: grammar where
  "embedded_grammar = arena 62"

section \<open>Looking up names\<close>

lemma index_of_take: "index_of x (take i ys) = (if index_of x ys < int i then index_of x ys else -1)"
proof -
  have "index_from k x (take i ys) = (if index_from k x ys < k + int i then index_from k x ys else -1)" if "0 \<le> k" for k
    using that index_from_bounds [of "k + 1" x "tl ys"]
  proof (induction ys arbitrary: i k)
    case (Cons y ys)
    then show ?case using index_from_bounds [of "k + 1 + 1" x "tl ys"] by (cases i) auto
  qed simp
  from this [of 0] show ?thesis by simp
qed

lemmas index_simps = index_from.simps list.inject list.distinct char.inject simp_thms if_True if_False
  arith_simps add_0 one_add_one

lemma rule_numbers:
  "index_of ''space'' embedded_names = 0" "index_of ''nospcrlfcl'' embedded_names = 1"
  "index_of ''middle'' embedded_names = 2" "index_of ''trailing'' embedded_names = 3"
  "index_of ''letter'' embedded_names = 4" "index_of ''digit'' embedded_names = 5"
  "index_of ''special'' embedded_names = 6" "index_of ''nickname'' embedded_names = 7"
  "index_of ''password'' embedded_names = 8" "index_of ''newnick'' embedded_names = 9"
  "index_of ''username'' embedded_names = 10" "index_of ''usermode'' embedded_names = 11"
  "index_of ''unused'' embedded_names = 12" "index_of ''realname'' embedded_names = 13"
  "index_of ''quitmsg'' embedded_names = 14" "index_of ''capsub'' embedded_names = 15"
  "index_of ''capparam'' embedded_names = 16" "index_of ''pingtoken'' embedded_names = 17"
  "index_of ''chanlist'' embedded_names = 18" "index_of ''keylist'' embedded_names = 19"
  "index_of ''partmsg'' embedded_names = 20" "index_of ''msgtarget'' embedded_names = 21"
  "index_of ''msgtext'' embedded_names = 22" "index_of ''kickchans'' embedded_names = 23"
  "index_of ''kickusers'' embedded_names = 24" "index_of ''kickreason'' embedded_names = 25"
  "index_of ''invnick'' embedded_names = 26" "index_of ''invchan'' embedded_names = 27"
  "index_of ''topicchan'' embedded_names = 28" "index_of ''topictext'' embedded_names = 29"
  "index_of ''modetarget'' embedded_names = 30" "index_of ''modestring'' embedded_names = 31"
  "index_of ''modeparam'' embedded_names = 32" "index_of ''whomask'' embedded_names = 33"
  "index_of ''whoisnick'' embedded_names = 34" "index_of ''hostnick'' embedded_names = 35"
  "index_of ''cap-cmd'' embedded_names = 36" "index_of ''pass-cmd'' embedded_names = 37"
  "index_of ''nick-cmd'' embedded_names = 38" "index_of ''user-cmd'' embedded_names = 39"
  "index_of ''quit-cmd'' embedded_names = 40" "index_of ''pong-cmd'' embedded_names = 41"
  "index_of ''ping-cmd'' embedded_names = 42" "index_of ''join-cmd'' embedded_names = 43"
  "index_of ''part-cmd'' embedded_names = 44" "index_of ''privmsg-cmd'' embedded_names = 45"
  "index_of ''notice-cmd'' embedded_names = 46" "index_of ''kick-cmd'' embedded_names = 47"
  "index_of ''invite-cmd'' embedded_names = 48" "index_of ''topic-cmd'' embedded_names = 49"
  "index_of ''mode-cmd'' embedded_names = 50" "index_of ''who-cmd'' embedded_names = 51"
  "index_of ''whois-cmd'' embedded_names = 52" "index_of ''userhost-cmd'' embedded_names = 53"
  "index_of ''command'' embedded_names = 54" "index_of ''param'' embedded_names = 55"
  "index_of ''trail'' embedded_names = 56" "index_of ''prefix'' embedded_names = 57"
  "index_of ''sp'' embedded_names = 58" "index_of ''params'' embedded_names = 59"
  "index_of ''message'' embedded_names = 60"
  by (simp_all only: embedded_names_def index_simps)

lemma capture_numbers:
  "index_of ''capsub'' embedded_captures = 0" "index_of ''capparam'' embedded_captures = 1"
  "index_of ''password'' embedded_captures = 2" "index_of ''newnick'' embedded_captures = 3"
  "index_of ''username'' embedded_captures = 4" "index_of ''usermode'' embedded_captures = 5"
  "index_of ''unused'' embedded_captures = 6" "index_of ''realname'' embedded_captures = 7"
  "index_of ''quitmsg'' embedded_captures = 8" "index_of ''pingtoken'' embedded_captures = 9"
  "index_of ''chanlist'' embedded_captures = 10" "index_of ''keylist'' embedded_captures = 11"
  "index_of ''partmsg'' embedded_captures = 12" "index_of ''msgtarget'' embedded_captures = 13"
  "index_of ''msgtext'' embedded_captures = 14" "index_of ''kickchans'' embedded_captures = 15"
  "index_of ''kickusers'' embedded_captures = 16" "index_of ''kickreason'' embedded_captures = 17"
  "index_of ''invnick'' embedded_captures = 18" "index_of ''invchan'' embedded_captures = 19"
  "index_of ''topicchan'' embedded_captures = 20" "index_of ''topictext'' embedded_captures = 21"
  "index_of ''modetarget'' embedded_captures = 22" "index_of ''modestring'' embedded_captures = 23"
  "index_of ''modeparam'' embedded_captures = 24" "index_of ''whomask'' embedded_captures = 25"
  "index_of ''whoisnick'' embedded_captures = 26" "index_of ''hostnick'' embedded_captures = 27"
  "index_of ''param'' embedded_captures = 28" "index_of ''trail'' embedded_captures = 29"
  "index_of ''prefix'' embedded_captures = 30" "index_of ''command'' embedded_captures = 31"
  by (simp_all only: embedded_captures_def index_simps)

section \<open>Line by line\<close>

text \<open>How much each line adds.\<close>

definition node_counts :: "nat list" where
  "node_counts =
    [1, 6, 6, 5, 3, 1, 3, 10, 1, 1, 1, 1, 1, 1, 1, 1, 1, 1, 1, 1, 1, 1, 1, 1, 1, 1, 1, 1, 1, 1, 1, 1, 1, 1,
     1, 1, 14, 8, 8, 13, 10, 10, 10, 13, 12, 10, 10, 14, 8, 11, 14, 8, 10, 10, 5, 1, 1, 1, 2, 10, 12, 13]"

definition child_counts :: "nat list" where
  "child_counts =
    [0, 5, 5, 4, 2, 0, 2, 9, 0, 0, 0, 0, 0, 0, 0, 0, 0, 0, 0, 0, 0, 0, 0, 0, 0, 0, 0, 0, 0, 0, 0, 0, 0, 0, 0,
     0, 13, 7, 7, 12, 9, 9, 9, 12, 11, 9, 9, 13, 7, 10, 13, 7, 9, 9, 4, 0, 0, 0, 1, 9, 12, 12]"

definition literal_counts :: "nat list" where
  "literal_counts =
    [0, 0, 1, 2, 0, 0, 0, 1, 0, 0, 0, 0, 0, 0, 0, 0, 0, 0, 0, 0, 0, 0, 0, 0, 0, 0, 0, 0, 0, 0, 0, 0, 0, 0, 0,
     0, 2, 2, 2, 2, 2, 2, 2, 2, 2, 2, 2, 2, 1, 2, 1, 1, 1, 1, 0, 0, 0, 0, 0, 1, 1, 1]"

lemma line_counts: "map length embedded_nodes = node_counts" "map length embedded_children = child_counts"
    "map length embedded_literals = literal_counts"
  by (simp_all add: embedded_nodes_def embedded_children_def embedded_literals_def node_counts_def
      child_counts_def literal_counts_def)

lemma lengths: "length embedded_nodes = 62" "length embedded_children = 62" "length embedded_literals = 62"
    "length embedded_names = 61" "length embedded_captures = 32" "length embedded_roots = 61"
  by (simp_all add: embedded_nodes_def embedded_children_def embedded_literals_def embedded_names_def
      embedded_captures_def embedded_roots_def)

lemma length_rows: "length (concat (take i xs)) = sum_list (take i (map length xs))"
  by (simp add: length_concat take_map)

lemma length_roots_after: "i < 62 \<Longrightarrow> length (roots_after i) = rule_count i"
  by (simp add: roots_after_def rule_count_def lengths)

lemma concat_step: "i < length xs \<Longrightarrow> concat (take (Suc i) xs) = concat (take i xs) @ xs ! i"
  by (simp add: take_Suc_conv_app_nth)

lemma roots_step:
  assumes "i < 60 \<or> i = 61"
  shows "roots_after (Suc i) = roots_after i @ [if i = 59 then 275 else embedded_roots ! rule_count i]"
proof -
  have take: "take (Suc k) embedded_roots = take k embedded_roots @ [embedded_roots ! k]" if "k < 61" for k
    using that by (simp add: take_Suc_conv_app_nth lengths)
  have early: "roots_after m = take m embedded_roots" if "m \<le> 59" for m
    using that by (simp add: roots_after_def lengths list_update_beyond)
  consider "i < 59" | "i = 59" | "i = 61" using assms by linarith
  then show ?thesis
  proof cases
    case 1
    then show ?thesis using take [of i] by (simp add: early rule_count_def)
  next
    case 2
    then show ?thesis using take [of 59] early [of 59] by (simp add: roots_after_def list_update_append lengths)
  next
    case 3
    then show ?thesis using take [of 60] by (simp add: roots_after_def rule_count_def)
  qed
qed

text \<open>A line is built on the arena before it, of which only the sizes and the names matter.\<close>

lemma arena_step:
  assumes "i < 60 \<or> i = 61" and "i' = Suc i" and "embedded_nodes ! i = ns" and "embedded_children ! i = ks"
    and "embedded_literals ! i = ls" and "capture_counts ! i = c" and "capture_counts ! i' = c'"
    and "rule_count i = r" and "(if i = 59 then 275 else embedded_roots ! rule_count i) = b"
    and "sum_list (take i node_counts) = n" and "sum_list (take i child_counts) = k"
    and "sum_list (take i literal_counts) = l"
    and "\<And>N K L R. length N = n \<Longrightarrow> length K = k \<Longrightarrow> length L = l \<Longrightarrow> length R = r \<Longrightarrow>
      parseRule j line
        \<lparr>g_nodes = N, g_children = K, g_literals = L, g_captureNames = take c embedded_captures,
         g_ruleNames = take r embedded_names, g_ruleRoots = R\<rparr> =
      Inr \<lparr>g_nodes = N @ ns, g_children = K @ ks, g_literals = L @ ls, g_captureNames = take c' embedded_captures,
           g_ruleNames = take (r + 1) embedded_names, g_ruleRoots = R @ [b]\<rparr>"
  shows "parseRule j line (arena i) = Inr (arena i')"
proof -
  have i: "i < 62" and r: "rule_count (Suc i) = r + 1" using assms(1,8) by (auto simp: rule_count_def)
  have next_rows: "concat (take (Suc i) embedded_nodes) = concat (take i embedded_nodes) @ ns"
      "concat (take (Suc i) embedded_children) = concat (take i embedded_children) @ ks"
      "concat (take (Suc i) embedded_literals) = concat (take i embedded_literals) @ ls"
    using i assms(3-5) by (simp_all only: concat_step lengths)
  have roots: "roots_after (Suc i) = roots_after i @ [b]" using roots_step [OF assms(1)] assms(9) by simp
  show ?thesis
    using assms(6-8) unfolding arena_def assms(2) next_rows roots r
    by (simp only:) (rule assms(13), simp_all add: length_rows line_counts length_roots_after i assms(8,10-12))
qed


lemma intern_embedded:
  assumes "index_of (lowered name) embedded_names \<noteq> -1" and "index_of (lowered name) embedded_names \<le> int r"
  shows "internRule name
      \<lparr>g_nodes = N, g_children = K, g_literals = L, g_captureNames = C, g_ruleNames = take r embedded_names, g_ruleRoots = R\<rparr> =
    (index_of (lowered name) embedded_names,
     if index_of (lowered name) embedded_names < int r
     then \<lparr>g_nodes = N, g_children = K, g_literals = L, g_captureNames = C,
            g_ruleNames = take r embedded_names, g_ruleRoots = R\<rparr>
     else \<lparr>g_nodes = N, g_children = K, g_literals = L, g_captureNames = C,
            g_ruleNames = take (r + 1) embedded_names, g_ruleRoots = R @ [kNoRule]\<rparr>)"
proof (cases "index_of (lowered name) embedded_names < int r")
  case False
  then have r: "index_of (lowered name) embedded_names = int r" using assms by simp
  then have "r < 61" "embedded_names ! r = lowered name"
    using index_from_bounds [of 0 "lowered name" embedded_names] index_from_nth [of 0 "lowered name" embedded_names]
    by (auto simp: lengths)
  then show ?thesis using r by (simp add: internRule_def index_of_take take_Suc_conv_app_nth lengths)
qed (use assms in \<open>simp add: internRule_def index_of_take\<close>)

lemma capture_embedded:
  assumes "index_of name embedded_captures \<noteq> -1" and "index_of name embedded_captures \<le> int c"
  shows "internCapture name
      \<lparr>g_nodes = N, g_children = K, g_literals = L, g_captureNames = take c embedded_captures, g_ruleNames = S, g_ruleRoots = R\<rparr> =
    (index_of name embedded_captures,
     \<lparr>g_nodes = N, g_children = K, g_literals = L,
      g_captureNames = take (if index_of name embedded_captures < int c then c else c + 1) embedded_captures,
      g_ruleNames = S, g_ruleRoots = R\<rparr>)"
proof (cases "index_of name embedded_captures < int c")
  case False
  then have c: "index_of name embedded_captures = int c" using assms by simp
  then have "c < 32" "embedded_captures ! c = name"
    using index_from_bounds [of 0 name embedded_captures] index_from_nth [of 0 name embedded_captures]
    by (auto simp: lengths)
  then show ?thesis using c by (simp add: internCapture_def index_of_take take_Suc_conv_app_nth lengths)
qed (use assms in \<open>simp add: internCapture_def index_of_take\<close>)

declare abnf_toLower.simps [simp del]

text \<open>The characters of the grammar and what the parsers ask about them.\<close>

lemma letters:
  "list_all (\<lambda>c. isAlpha c \<and> isRuleChar c \<and> \<not> isDigit c \<and> \<not> isBlank c)
     ''abcdefghijklmnopqrstuvwxyzABCDEFGHIJKLMNOPQRSTUVWXYZ''"
  "list_all (\<lambda>c. abnf_toLower c = c) ''abcdefghijklmnopqrstuvwxyz-''"
  "list_all isHexDigit ''0123456789ABCDEFabcdef''"
  by code_simp+

lemma others:
  "list_all (\<lambda>c. \<not> isAlpha c \<and> isRuleChar c \<and> isDigit c \<and> \<not> isBlank c) ''0123456789''"
  "list_all (\<lambda>c. \<not> isAlpha c \<and> \<not> isRuleChar c \<and> \<not> isDigit c \<and> \<not> isHexDigit c \<and> \<not> isBlank c)
     (CHR 0x22 # ''=/%$*()[]:'')"
  "list_all (\<lambda>c. \<not> isAlpha c \<and> isRuleChar c \<and> \<not> isDigit c \<and> \<not> isHexDigit c \<and> \<not> isBlank c) ''-''"
  "list_all (\<lambda>c. \<not> isAlpha c \<and> \<not> isRuleChar c \<and> \<not> isDigit c \<and> \<not> isHexDigit c \<and> isBlank c) '' ''"
  by code_simp+

lemmas characters = letters [simplified] others [simplified]

lemma lower_upper: "abnf_toLower (CHR ''S'') = CHR ''s''" "abnf_toLower (CHR ''P'') = CHR ''p''"
    "abnf_toLower (CHR ''A'') = CHR ''a''" "abnf_toLower (CHR ''C'') = CHR ''c''" "abnf_toLower (CHR ''E'') = CHR ''e''"
  by code_simp+

lemma index_one: "take 1 (x # xs) = [x]" "(x # xs) ! 1 = xs ! 0" "Suc 1 = 2"
  by simp_all

lemmas tables = index_one embedded_nodes_def embedded_children_def embedded_literals_def capture_counts_def rule_count_def
  embedded_roots_def node_counts_def child_counts_def literal_counts_def

lemmas build_steps = parseRule_def parseElement.simps parseRepetition.simps concatenation_parts.simps
  parseConcatenation.simps alternation_branches.simps parseAlternation.simps plain_element_def parseReference_def
  repeat_counts_def parseNumericValue_def numeric_pieces.simps numeric_piece_def close_group_def addNode_def
  addChildren_def addLiteral_def addParent_def setRoot_def Let_def strtol_def to_int_def digit_value_def octet_def
  ruleRoot_def in_range_def nth_append list_update_append intern_embedded capture_embedded
  intern_embedded [where r = 0, simplified] capture_embedded [where c = 0, simplified] rule_numbers capture_numbers
  skipBlanks_def lowered_def lower_upper characters

lemma and_parse_weak: "m = m' \<Longrightarrow> and_parse m f = and_parse m' f"
  by simp


lemma lines_1_to_8:
  "parseRule 1 ''SPACE      =  %x20'' (arena 0) = Inr (arena 1)"
  "parseRule 2 ''nospcrlfcl =  %x01-09 / %x0B-0C / %x0E-1F / %x21-39 / %x3B-FF'' (arena 1) = Inr (arena 2)"
  "parseRule 3 ''middle     =  nospcrlfcl *( \":\" / nospcrlfcl )'' (arena 2) = Inr (arena 3)"
  "parseRule 4 ''trailing   =  *( \":\" / \" \" / nospcrlfcl )'' (arena 3) = Inr (arena 4)"
  "parseRule 5 ''letter     =  %x41-5A / %x61-7A'' (arena 4) = Inr (arena 5)"
  "parseRule 6 ''digit      =  %x30-39'' (arena 5) = Inr (arena 6)"
  "parseRule 7 ''special    =  %x5B-60 / %x7B-7D'' (arena 6) = Inr (arena 7)"
  "parseRule 8 ''nickname   =  ( letter / special ) *8( letter / digit / special / \"-\" )'' (arena 7) = Inr (arena 8)"
  by (rule arena_step, (simp add: tables build_steps del: One_nat_def cong: and_parse_weak let_weak_cong; fail)+)+

lemma lines_9_to_36:
  "parseRule 9 ''password   =  middle'' (arena 8) = Inr (arena 9)"
  "parseRule 10 ''newnick    =  middle'' (arena 9) = Inr (arena 10)"
  "parseRule 11 ''username   =  middle'' (arena 10) = Inr (arena 11)"
  "parseRule 12 ''usermode   =  middle'' (arena 11) = Inr (arena 12)"
  "parseRule 13 ''unused     =  middle'' (arena 12) = Inr (arena 13)"
  "parseRule 14 ''realname   =  trailing'' (arena 13) = Inr (arena 14)"
  "parseRule 15 ''quitmsg    =  trailing'' (arena 14) = Inr (arena 15)"
  "parseRule 16 ''capsub     =  middle'' (arena 15) = Inr (arena 16)"
  "parseRule 17 ''capparam   =  trailing'' (arena 16) = Inr (arena 17)"
  "parseRule 18 ''pingtoken  =  trailing'' (arena 17) = Inr (arena 18)"
  "parseRule 19 ''chanlist   =  middle'' (arena 18) = Inr (arena 19)"
  "parseRule 20 ''keylist    =  middle'' (arena 19) = Inr (arena 20)"
  "parseRule 21 ''partmsg    =  trailing'' (arena 20) = Inr (arena 21)"
  "parseRule 22 ''msgtarget  =  middle'' (arena 21) = Inr (arena 22)"
  "parseRule 23 ''msgtext    =  trailing'' (arena 22) = Inr (arena 23)"
  "parseRule 24 ''kickchans  =  middle'' (arena 23) = Inr (arena 24)"
  "parseRule 25 ''kickusers  =  middle'' (arena 24) = Inr (arena 25)"
  "parseRule 26 ''kickreason =  trailing'' (arena 25) = Inr (arena 26)"
  "parseRule 27 ''invnick    =  middle'' (arena 26) = Inr (arena 27)"
  "parseRule 28 ''invchan    =  middle'' (arena 27) = Inr (arena 28)"
  "parseRule 29 ''topicchan  =  middle'' (arena 28) = Inr (arena 29)"
  "parseRule 30 ''topictext  =  trailing'' (arena 29) = Inr (arena 30)"
  "parseRule 31 ''modetarget =  middle'' (arena 30) = Inr (arena 31)"
  "parseRule 32 ''modestring =  middle'' (arena 31) = Inr (arena 32)"
  "parseRule 33 ''modeparam  =  middle'' (arena 32) = Inr (arena 33)"
  "parseRule 34 ''whomask    =  middle'' (arena 33) = Inr (arena 34)"
  "parseRule 35 ''whoisnick  =  middle'' (arena 34) = Inr (arena 35)"
  "parseRule 36 ''hostnick   =  middle'' (arena 35) = Inr (arena 36)"
  by (rule arena_step, (simp add: tables build_steps del: One_nat_def cong: and_parse_weak let_weak_cong; fail)+)+

lemma lines_37_to_40:
  "parseRule 37 ''cap-cmd    =  \"CAP\" [ SPACE $capsub [ SPACE [ \":\" ] $capparam ] ] *SPACE'' (arena 36) = Inr (arena 37)"
  "parseRule 38 ''pass-cmd   =  \"PASS\" SPACE [ \":\" ] $password *SPACE'' (arena 37) = Inr (arena 38)"
  "parseRule 39 ''nick-cmd   =  \"NICK\" SPACE [ \":\" ] $newnick *SPACE'' (arena 38) = Inr (arena 39)"
  "parseRule 40 ''user-cmd   =  \"USER\" SPACE $username SPACE $usermode SPACE $unused SPACE \":\" $realname *SPACE'' (arena 39) = Inr (arena 40)"
  by (rule arena_step, (simp add: tables build_steps del: One_nat_def cong: and_parse_weak let_weak_cong; fail)+)+

lemma lines_41_to_44:
  "parseRule 41 ''quit-cmd   =  \"QUIT\" [ SPACE [ \":\" ] $quitmsg ] *SPACE'' (arena 40) = Inr (arena 41)"
  "parseRule 42 ''pong-cmd   =  \"PONG\" [ SPACE [ \":\" ] $pingtoken ] *SPACE'' (arena 41) = Inr (arena 42)"
  "parseRule 43 ''ping-cmd   =  \"PING\" [ SPACE [ \":\" ] $pingtoken ] *SPACE'' (arena 42) = Inr (arena 43)"
  "parseRule 44 ''join-cmd   =  \"JOIN\" SPACE ( \"0\" / $chanlist [ SPACE $keylist ] ) *SPACE'' (arena 43) = Inr (arena 44)"
  by (rule arena_step, (simp add: tables build_steps del: One_nat_def cong: and_parse_weak let_weak_cong; fail)+)+

lemma lines_45_to_48:
  "parseRule 45 ''part-cmd   =  \"PART\" SPACE $chanlist [ SPACE [ \":\" ] $partmsg ] *SPACE'' (arena 44) = Inr (arena 45)"
  "parseRule 46 ''privmsg-cmd = \"PRIVMSG\" SPACE $msgtarget SPACE [ \":\" ] $msgtext *SPACE'' (arena 45) = Inr (arena 46)"
  "parseRule 47 ''notice-cmd =  \"NOTICE\" SPACE $msgtarget SPACE [ \":\" ] $msgtext *SPACE'' (arena 46) = Inr (arena 47)"
  "parseRule 48 ''kick-cmd   =  \"KICK\" SPACE $kickchans SPACE $kickusers [ SPACE [ \":\" ] $kickreason ] *SPACE'' (arena 47) = Inr (arena 48)"
  by (rule arena_step, (simp add: tables build_steps del: One_nat_def cong: and_parse_weak let_weak_cong; fail)+)+

lemma lines_49_to_52:
  "parseRule 49 ''invite-cmd =  \"INVITE\" SPACE $invnick SPACE $invchan *SPACE'' (arena 48) = Inr (arena 49)"
  "parseRule 50 ''topic-cmd  =  \"TOPIC\" SPACE $topicchan [ SPACE \":\" $topictext ] *SPACE'' (arena 49) = Inr (arena 50)"
  "parseRule 51 ''mode-cmd   =  \"MODE\" SPACE $modetarget [ SPACE $modestring *13( SPACE $modeparam ) ] *SPACE'' (arena 50) = Inr (arena 51)"
  "parseRule 52 ''who-cmd    =  \"WHO\" [ SPACE $whomask ] *SPACE'' (arena 51) = Inr (arena 52)"
  by (rule arena_step, (simp add: tables build_steps del: One_nat_def cong: and_parse_weak let_weak_cong; fail)+)+

lemma lines_53_to_59:
  "parseRule 53 ''whois-cmd  =  \"WHOIS\" SPACE [ middle SPACE ] $whoisnick *SPACE'' (arena 52) = Inr (arena 53)"
  "parseRule 54 ''userhost-cmd = \"USERHOST\" SPACE $hostnick *4( SPACE $hostnick ) *SPACE'' (arena 53) = Inr (arena 54)"
  "parseRule 55 ''command    =  1*letter / 3digit'' (arena 54) = Inr (arena 55)"
  "parseRule 56 ''param      =  middle'' (arena 55) = Inr (arena 56)"
  "parseRule 57 ''trail      =  trailing'' (arena 56) = Inr (arena 57)"
  "parseRule 58 ''prefix     =  middle'' (arena 57) = Inr (arena 58)"
  "parseRule 59 ''sp         =  1*SPACE'' (arena 58) = Inr (arena 59)"
  by (rule arena_step, (simp add: tables build_steps del: One_nat_def cong: and_parse_weak let_weak_cong; fail)+)+

lemma lines_60_to_60:
  "parseRule 60 ''params     =  *14( sp $param ) [ sp \":\" $trail ]'' (arena 59) = Inr (arena 60)"
  by (rule arena_step, (simp add: tables build_steps del: One_nat_def cong: and_parse_weak let_weak_cong; fail)+)+

lemma lines_62_to_62:
  "parseRule 62 ''message    =  *SPACE [ \":\" $prefix sp ] $command [ params ] *SPACE'' (arena 61) = Inr (arena 62)"
  by (rule arena_step, (simp add: tables build_steps del: One_nat_def cong: and_parse_weak let_weak_cong; fail)+)+

text \<open>The second line of \<open>params\<close> adds an alternative to the rule and moves its root.\<close>

lemma params_again:
  assumes "length N = 276" and "length K = 216" and "length L = 36" and "length R = 60" and "R ! 59 = 275"
  shows "parseRule 61 ''params =/ 14( sp $param ) [ sp [ \":\" ] $trail ]''
      \<lparr>g_nodes = N, g_children = K, g_literals = L, g_captureNames = take 30 embedded_captures,
       g_ruleNames = take 60 embedded_names, g_ruleRoots = R\<rparr> =
    Inr \<lparr>g_nodes = N @ embedded_nodes ! 60, g_children = K @ embedded_children ! 60, g_literals = L @ embedded_literals ! 60,
         g_captureNames = take 30 embedded_captures, g_ruleNames = take 60 embedded_names, g_ruleRoots = R[59 := 287]\<rparr>"
proof -
  have rows: "embedded_nodes ! 60 = [ref 58, cap 55 28, seq 216 2, rep 14 14 218, ref 58, lit 36, rep 0 1 219, cap 56 29, seq 220 3, rep 0 1 223, seq 224 2, alt 226 2]"
      "embedded_children ! 60 = [276, 277, 278, 281, 280, 282, 283, 284, 279, 285, 275, 286]" "embedded_literals ! 60 = ['':'']"
    by (simp_all add: tables)
  show ?thesis unfolding rows by (simp add: assms build_steps del: One_nat_def cong: and_parse_weak let_weak_cong)
qed

lemma line_61: "parseRule 61 ''params =/ 14( sp $param ) [ sp [ \":\" ] $trail ]'' (arena 60) = Inr (arena 61)"
proof -
  have sizes: "sum_list (take 60 node_counts) = 276" "sum_list (take 60 child_counts) = 216" "sum_list (take 60 literal_counts) = 36"
      "rule_count 60 = 60" "rule_count 61 = 60" "capture_counts ! 60 = 30" "capture_counts ! 61 = 30"
    by (simp_all add: tables)
  have roots: "length (roots_after 60) = 60" "roots_after 60 ! 59 = 275" "roots_after 61 = (roots_after 60)[59 := 287]"
    by (simp_all add: roots_after_def embedded_roots_def)
  have rows: "concat (take 61 embedded_nodes) = concat (take 60 embedded_nodes) @ embedded_nodes ! 60"
      "concat (take 61 embedded_children) = concat (take 60 embedded_children) @ embedded_children ! 60"
      "concat (take 61 embedded_literals) = concat (take 60 embedded_literals) @ embedded_literals ! 60"
    using concat_step [of 60 embedded_nodes] concat_step [of 60 embedded_children] concat_step [of 60 embedded_literals]
    by (simp_all add: lengths)
  show ?thesis
    unfolding arena_def sizes(4-7) roots(3) rows
    by (rule params_again) (simp_all add: length_rows line_counts sizes roots)
qed

section \<open>Reading the text\<close>

lemma text_lines_concat:
  "list_all (\<lambda>l. CHR 0x0A \<notin> set l) ls \<Longrightarrow> text_lines (concat (map (\<lambda>l. l @ [CHR 0x0A]) ls)) = ls"
proof (induction ls)
  case Nil
  then show ?case by (simp add: text_lines.simps)
next
  case (Cons l ls)
  have "takeWhile (\<lambda>c. c \<noteq> CHR 0x0A) (l @ CHR 0x0A # t) = l \<and> dropWhile (\<lambda>c. c \<noteq> CHR 0x0A) (l @ CHR 0x0A # t) = CHR 0x0A # t"
    for t using Cons.prems by (auto simp: takeWhile_append dropWhile_append)
  then show ?case using Cons by (simp add: text_lines.simps [of "l @ CHR 0x0A # _"])
qed

text \<open>A line that is a rule of its own, and what the reader makes of it.\<close>

definition plain_line :: "string \<Rightarrow> bool" where
  "plain_line l \<longleftrightarrow> l \<noteq> [] \<and> last l \<noteq> CHR 0x0D \<and> stripComment l = l \<and> trimmed l = l \<and>
     \<not> isBlank (hd l) \<and> hd l \<noteq> CHR ''='' \<and> takeWhile isRuleChar l \<noteq> []"

lemma read_plain:
  assumes "plain_line l"
  obtains r' where "read_line n l r = Inr r'" "rd_out (flush_pending r') = rd_out (flush_pending r) @ [(l, n)]"
    "rd_lastRuleName r' = takeWhile isRuleChar l"
  using assms by (auto simp: plain_line_def read_line_def Let_def flush_pending_def)

lemma read_redefinition:
  assumes "stripComment l = l" and "trimmed l = b" and "last l \<noteq> CHR 0x0D" and "b \<noteq> []" and "hd b = CHR ''=''"
    and "rd_lastRuleName r \<noteq> []"
  obtains r' where "read_line n l r = Inr r'"
    "rd_out (flush_pending r') = rd_out (flush_pending r) @ [(rd_lastRuleName r @ '' '' @ b, n)]"
proof -
  have "rd_lastRuleName (flush_pending r) = rd_lastRuleName r" by (simp add: flush_pending_def)
  then have "read_line n l r =
      Inr ((flush_pending r)\<lparr>rd_pending := rd_lastRuleName r @ '' '' @ b, rd_number := n\<rparr>)"
    using assms by (simp add: read_line_def Let_def)
  then show ?thesis by (rule that) (simp add: flush_pending_def)
qed

fun numbered :: "nat \<Rightarrow> string list \<Rightarrow> (string \<times> nat) list" where
  "numbered n [] = []"
| "numbered n (l # ls) = (l, n) # numbered (n + 1) ls"

lemma numbered_append: "numbered n (xs @ ys) = numbered n xs @ numbered (n + length xs) ys"
  by (induction xs arbitrary: n) simp_all

lemma read_plains:
  assumes "list_all plain_line ls" and "ls \<noteq> []"
  obtains r' where "read_lines n ls r = Inr r'"
    "rd_out (flush_pending r') = rd_out (flush_pending r) @ numbered (n + 1) ls"
    "rd_lastRuleName r' = takeWhile isRuleChar (last ls)"
  using assms
proof (induction ls arbitrary: n r thesis)
  case (Cons l ls)
  have l: "plain_line l" and ls: "list_all plain_line ls" using Cons.prems(2) by simp_all
  obtain r1 where r1: "read_line (n + 1) l r = Inr r1" "rd_out (flush_pending r1) = rd_out (flush_pending r) @ [(l, n + 1)]"
      "rd_lastRuleName r1 = takeWhile isRuleChar l"
    by (rule read_plain [OF l])
  show ?case
  proof (cases "ls = []")
    case True
    then show ?thesis using r1 by (intro Cons.prems(1) [of r1]) simp_all
  next
    case False
    obtain r' where "read_lines (n + 1) ls r1 = Inr r'"
        "rd_out (flush_pending r') = rd_out (flush_pending r1) @ numbered (n + 1 + 1) ls"
        "rd_lastRuleName r' = takeWhile isRuleChar (last ls)"
      by (rule Cons.IH [OF _ ls False])
    then show ?thesis using r1 False by (intro Cons.prems(1) [of r']) simp_all
  qed
qed simp

lemma read_lines_append:
  "read_lines n (xs @ ys) r = (case read_lines n xs r of Inl e \<Rightarrow> Inl e | Inr r' \<Rightarrow> read_lines (n + length xs) ys r')"
  by (induction xs arbitrary: n r) (auto split: sum.split)

lemma no_newline: "list_all (\<lambda>l. CHR 0x0A \<notin> set l) kGrammar_lines"
  by code_simp

lemma plain_lines: "list_all plain_line (take 60 kGrammar_lines)" "list_all plain_line (drop 61 kGrammar_lines)"
  by code_simp+

text \<open>The logical lines: the second line of \<open>params\<close> gets the name of the rule it continues.\<close>

definition logical_lines :: "string list" where
  "logical_lines = take 60 kGrammar_lines @ ''params =/ 14( sp $param ) [ sp [ \":\" ] $trail ]'' # drop 61 kGrammar_lines"

lemma read_kGrammar: "read_grammar kGrammar = Inr (numbered 1 logical_lines)"
proof -
  let ?r0 = "\<lparr>rd_pending = [], rd_number = 0, rd_lastRuleName = [], rd_out = []\<rparr>"
  let ?more = "''params =/ 14( sp $param ) [ sp [ \":\" ] $trail ]''"
  have split: "kGrammar_lines = take 60 kGrammar_lines @ kGrammar_lines ! 60 # drop 61 kGrammar_lines"
    and sizes: "length (take 60 kGrammar_lines) = 60" "take 60 kGrammar_lines \<noteq> []" "drop 61 kGrammar_lines \<noteq> []"
      "length kGrammar_lines = 62"
    by (simp_all add: kGrammar_lines_def)
  have more: "kGrammar_lines ! 60 = ''           =/ 14( sp $param ) [ sp [ \":\" ] $trail ]''"
    and params: "takeWhile isRuleChar (last (take 60 kGrammar_lines)) = ''params''"
    by code_simp+
  obtain r1 where r1: "read_lines 0 (take 60 kGrammar_lines) ?r0 = Inr r1"
      "rd_out (flush_pending r1) = rd_out (flush_pending ?r0) @ numbered (0 + 1) (take 60 kGrammar_lines)"
      "rd_lastRuleName r1 = takeWhile isRuleChar (last (take 60 kGrammar_lines))"
    by (rule read_plains [OF plain_lines(1) sizes(2)])
  have body: "stripComment (kGrammar_lines ! 60) = kGrammar_lines ! 60" "trimmed (kGrammar_lines ! 60) = drop 11 (kGrammar_lines ! 60)"
      "last (kGrammar_lines ! 60) \<noteq> CHR 0x0D" "hd (drop 11 (kGrammar_lines ! 60)) = CHR ''=''"
      "drop 11 (kGrammar_lines ! 60) \<noteq> []" "?more = ''params'' @ '' '' @ drop 11 (kGrammar_lines ! 60)"
    unfolding more by code_simp+
  obtain r2 where r2: "read_line 61 (kGrammar_lines ! 60) r1 = Inr r2"
      "rd_out (flush_pending r2) = rd_out (flush_pending r1) @ [(?more, 61)]"
    using read_redefinition [OF body(1-3,5,4), of r1 61] r1(3) body(6) unfolding params by auto
  obtain r3 where r3: "read_lines 61 (drop 61 kGrammar_lines) r2 = Inr r3"
      "rd_out (flush_pending r3) = rd_out (flush_pending r2) @ numbered (61 + 1) (drop 61 kGrammar_lines)"
    by (rule read_plains [OF plain_lines(2) sizes(3)])
  have run: "read_lines 0 kGrammar_lines ?r0 = Inr r3"
    by (subst split) (simp add: read_lines_append r1(1) r2(1) r3(1) sizes)
  have logical: "logical_lines = take 60 kGrammar_lines @ ?more # drop 61 kGrammar_lines"
    by (rule logical_lines_def)
  have start: "rd_out (flush_pending ?r0) = []" by (simp add: flush_pending_def)
  have "rd_out (flush_pending r3) = numbered 1 logical_lines"
    unfolding logical r3(2) r2(2) r1(2) start numbered_append by (simp add: sizes)
  then show ?thesis by (simp add: read_grammar_def kGrammar_def text_lines_concat [OF no_newline] run)
qed

section \<open>The whole text\<close>

lemma embedded_built: "parseRules (numbered 1 logical_lines) empty_grammar = Inr embedded_grammar"
proof -
  have start: "empty_grammar = arena 0"
    by (simp add: arena_def empty_grammar_def roots_after_def rule_count_def capture_counts_def)
  show ?thesis
    unfolding start
    by (simp add: embedded_grammar_def logical_lines_def kGrammar_lines_def
        lines_1_to_8 lines_9_to_36 lines_37_to_40 lines_41_to_44 lines_45_to_48 lines_49_to_52 lines_53_to_59 lines_60_to_60 lines_62_to_62 line_61 del: One_nat_def)
qed

end
