(* ===== verification/Embedded_Language.thy ===== *)
theory Embedded_Language
  imports Start_Correct Compiler_Total Embedded_Grammar
begin

text \<open>
  The grammar the server carries is one both strategies can use: rules refer downwards only,
  so that it validates, and it satisfies the conditions under which the matchers are exact
  and the compiler takes every rule.  And what its rules say of the fields: the words of a
  command and its trailing text.
\<close>

section \<open>The arena as a whole\<close>

lemma embedded_fields [simp]:
  "g_nodes embedded_grammar = concat embedded_nodes" "g_children embedded_grammar = concat embedded_children"
  "g_literals embedded_grammar = concat embedded_literals" "g_captureNames embedded_grammar = embedded_captures"
  "g_ruleNames embedded_grammar = embedded_names" "g_ruleRoots embedded_grammar = embedded_roots"
  by (simp_all add: embedded_grammar_def arena_def lengths roots_after_def rule_count_def capture_counts_def)

lemma embedded_wf: "grammar_wf embedded_grammar"
  by (rule parseRules_wf [OF embedded_built empty_grammar_wf])

text \<open>A check of every node with its index and the node before it.\<close>

fun along :: "(int \<Rightarrow> grammar_node \<Rightarrow> grammar_node \<Rightarrow> bool) \<Rightarrow> int \<Rightarrow> grammar_node \<Rightarrow> grammar_node list \<Rightarrow> bool" where
  "along P i prev [] = True"
| "along P i prev (n # ns) = (P i prev n \<and> along P (i + 1) n ns)"

lemma along_nth:
  "along P i prev ns \<Longrightarrow> k < length ns \<Longrightarrow> P (i + int k) (if k = 0 then prev else ns ! (k - 1)) (ns ! k)"
proof (induction ns arbitrary: i prev k)
  case (Cons n ns)
  show ?case
  proof (cases k)
    case (Suc m)
    then have "P (i + 1 + int m) (if m = 0 then n else ns ! (m - 1)) (ns ! m)"
      using Cons.IH [of "i + 1" n m] Cons.prems by simp
    then show ?thesis using Suc by (cases m) (simp_all add: add.assoc)
  qed (use Cons.prems in simp)
qed simp

lemma embedded_along:
  assumes "along P 0 empty_node (concat embedded_nodes)" and "in_range i (g_nodes embedded_grammar)"
  shows "P i (node embedded_grammar (i - 1)) (node embedded_grammar i)"
proof -
  have k: "nat i < length (concat embedded_nodes)" "0 \<le> i" using assms(2) by (simp_all add: in_range_def nat_less_iff)
  have "node embedded_grammar (i - 1) = (if nat i = 0 then empty_node else concat embedded_nodes ! (nat i - 1))"
    using k by (auto simp: node_def in_range_def nat_diff_distrib' nat_less_iff)
  then show ?thesis using along_nth [OF assms(1) k(1)] k(2) assms(2) by (simp add: node_def)
qed

lemma embedded_refs:
  "along (\<lambda>i prev n. n_kind n = Reference \<longrightarrow> embedded_roots ! nat (n_lo n) < i) 0 empty_node (concat embedded_nodes)"
  by code_simp

lemma embedded_roots_ok: "\<forall>r \<in> set embedded_roots. 0 \<le> r"
  by (simp add: embedded_roots_def)

lemma embedded_root: "in_range r (g_ruleRoots embedded_grammar) \<Longrightarrow> ruleRoot embedded_grammar r = embedded_roots ! nat r"
  by (simp add: ruleRoot_def)

lemma embedded_leads_down: "leads_down embedded_grammar"
  unfolding leads_down_def
proof (intro allI impI)
  fix i assume i: "in_range i (g_nodes embedded_grammar)" "n_kind (node embedded_grammar i) = Reference"
  show "ruleRoot embedded_grammar (n_lo (node embedded_grammar i)) < i"
    using embedded_along [OF embedded_refs i(1)] i(2) embedded_root [OF reference_root [OF embedded_wf i]] by simp
qed

lemma embedded_rules_defined: "rules_defined embedded_grammar"
  unfolding rules_defined_def
proof (intro allI impI)
  fix r assume "in_range r (g_ruleRoots embedded_grammar)"
  then have "ruleRoot embedded_grammar r \<in> set embedded_roots" by (simp add: ruleRoot_def in_range_def nat_less_iff)
  then show "ruleRoot embedded_grammar r \<noteq> kNoRule" using embedded_roots_ok by fastforce
qed

definition small_node :: "grammar_node \<Rightarrow> bool" where
  "small_node n \<longleftrightarrow>
     (case n_kind n of
        Repetition \<Rightarrow> 0 \<le> n_lo n \<and> (n_hi n = kUnbounded \<or> n_lo n \<le> n_hi n \<and> n_hi n \<le> 14)
      | OctetRange \<Rightarrow> 0 \<le> n_lo n \<and> n_hi n < 256
      | _ \<Rightarrow> True)"

lemma embedded_small: "list_all small_node (concat embedded_nodes)"
  by code_simp

lemma embedded_node: "n \<in> set (concat embedded_nodes) \<Longrightarrow> small_node n"
  using embedded_small unfolding list_all_iff by blast

lemma embedded_counts:
  "\<forall>n \<in> set (concat embedded_nodes). n_kind n = Repetition \<longrightarrow>
     0 \<le> n_lo n \<and> (n_hi n = kUnbounded \<or> n_lo n \<le> n_hi n \<and> n_hi n \<le> 14)"
  "\<forall>n \<in> set (concat embedded_nodes). n_kind n = OctetRange \<longrightarrow> 0 \<le> n_lo n \<and> n_hi n < 256"
  by (auto dest!: embedded_node simp: small_node_def simp del: set_concat)

lemma embedded_counts_ok: "counts_ok embedded_grammar" "lower_bounds_ok embedded_grammar"
  using embedded_counts(1) by (force simp: counts_ok_def lower_bounds_ok_def)+

lemma embedded_validates: "validate embedded_grammar = Valid"
  using validate_valid [OF embedded_wf embedded_counts_ok(2)] embedded_rules_defined
    down_not_left_recursive [OF embedded_wf embedded_leads_down] by blast

theorem embedded_compiles: "compile_grammar kGrammar = Some (Inr embedded_grammar)"
  unfolding compile_grammar_def read_kGrammar by (simp add: embedded_built [unfolded One_nat_def] embedded_validates)

section \<open>Captures\<close>

text \<open>Below node 63 nothing captures, and an unbounded repetition repeats only what lies there.\<close>

lemma early_captures:
  "along (\<lambda>i prev n. i < 63 \<longrightarrow> n_kind n = Reference \<longrightarrow> n_capture n = kNoCapture) 0 empty_node (concat embedded_nodes)"
  by code_simp

lemma early_no_capture:
  "hasCapture embedded_grammar entered i = Some b \<Longrightarrow> i < 63 \<Longrightarrow> \<not> b"
  "hasCaptures embedded_grammar entered i js = Some b \<Longrightarrow> i < 63 \<Longrightarrow> \<not> b"
proof (induction embedded_grammar entered i and embedded_grammar entered i js arbitrary: b and b
    rule: hasCapture_hasCaptures.induct)
  case (1 entered i)
  have r: "in_range i (g_nodes embedded_grammar)"
    using "1.prems"(1) by (auto simp: hasCapture.simps [of _ entered i] split: if_splits)
  show ?case
  proof (cases "n_kind (node embedded_grammar i) = Reference")
    case True
    have "n_capture (node embedded_grammar i) = kNoCapture"
      using embedded_along [OF early_captures r] True "1.prems"(2) by simp
    moreover have "ruleRoot embedded_grammar (n_lo (node embedded_grammar i)) < 63"
      using leads_downD [OF embedded_leads_down r True] "1.prems"(2) by simp
    ultimately show ?thesis
      using "1.prems"(1) "1.hyps"(1) r True
      by (auto simp: hasCapture.simps [of _ entered i] Let_def simp del: embedded_fields split: if_splits)
  next
    case False
    then show ?thesis
      using "1.prems" "1.hyps"(2) r
      by (auto simp: hasCapture.simps [of _ entered i] Let_def simp del: embedded_fields)
  qed
next
  case (3 entered i j js)
  then show ?case by (auto split: if_splits option.splits)
qed simp

text \<open>
  The builder adds a repetition right behind what it repeats.  Those without a bound repeat
  something early or an uncaptured blank or letter; those of at least two are of a digit, and
  the fourteen parameters.
\<close>

lemma embedded_loops:
  "along (\<lambda>i prev n. n_kind n = Repetition \<and> (n_hi n = kUnbounded \<or> 2 \<le> n_lo n) \<longrightarrow>
      concat embedded_children ! nat (n_first n) = i - 1 \<and>
      (if 2 \<le> n_lo n then n_hi n \<noteq> kUnbounded \<and> (n_kind prev = Reference \<and> n_lo prev = 5 \<or> i = 279)
       else i < 64 \<or> n_kind prev = Reference \<and> n_capture prev = kNoCapture \<and> n_lo prev \<in> {0, 4}))
    0 empty_node (concat embedded_nodes)"
  by code_simp

lemma embedded_no_capture:
  assumes "in_range i (g_nodes embedded_grammar)" and "n_kind (node embedded_grammar i) = Repetition"
    and "n_hi (node embedded_grammar i) = kUnbounded"
  shows "hasCapture embedded_grammar [] (child embedded_grammar (n_first (node embedded_grammar i))) = Some False"
proof -
  let ?g = embedded_grammar
  let ?j = "child ?g (n_first (node ?g i))"
  have j: "in_range ?j (g_nodes ?g)" using repetition_kid [OF embedded_wf assms(1,2)] by simp
  have p: "?j = i - 1" "i < 64 \<or> n_kind (node ?g ?j) = Reference \<and> n_capture (node ?g ?j) = kNoCapture \<and> n_lo (node ?g ?j) \<in> {0, 4}"
    using embedded_along [OF embedded_loops assms(1)] assms(2,3) by (auto simp: child_def split: if_splits)
  obtain b where b: "hasCapture ?g [] ?j = Some b"
    using hasCapture_total(1) [OF embedded_wf embedded_leads_down j, of "[]"] by auto
  have "\<not> b"
  proof (cases "i < 64")
    case True
    then show ?thesis using early_no_capture(1) [OF b] p(1) by simp
  next
    case False
    have roots: "ruleRoot ?g 0 < 63" "ruleRoot ?g 4 < 63" by (simp_all add: ruleRoot_def in_range_def embedded_roots_def)
    have "ruleRoot ?g (n_lo (node ?g ?j)) < 63" using p(2) False roots by auto
    then show ?thesis
      using b p(2) False j early_no_capture(1) [of "[n_lo (node ?g ?j)]" "ruleRoot ?g (n_lo (node ?g ?j))" b]
      by (auto simp: hasCapture.simps [of ?g "[]" ?j] Let_def simp del: embedded_fields split: if_splits)
  qed
  then show ?thesis using b by simp
qed

lemma embedded_in_nodes:
  assumes "n \<in> set (g_nodes embedded_grammar)"
  obtains i where "in_range i (g_nodes embedded_grammar)" "node embedded_grammar i = n"
proof -
  obtain k where "k < length (g_nodes embedded_grammar)" "g_nodes embedded_grammar ! k = n"
    using assms unfolding in_set_conv_nth by blast
  then show ?thesis by (intro that [of "int k"]) (simp_all add: node_def in_range_def del: embedded_fields)
qed

lemma embedded_takes: "takes_grammar embedded_grammar"
proof -
  have "hasCapture embedded_grammar [] (child embedded_grammar (n_first n)) = Some False"
    if "n \<in> set (g_nodes embedded_grammar)" "n_kind n = Repetition" "n_hi n = kUnbounded" for n
    by (rule embedded_in_nodes [OF that(1)]) (use embedded_no_capture that(2,3) in blast)
  moreover have "max 0 (n_lo n) \<le> n_hi n \<and> n_hi n - max 0 (n_lo n) \<le> kUnrollLimit"
    if "n \<in> set (concat embedded_nodes)" "n_kind n = Repetition" "n_hi n \<noteq> kUnbounded" for n
    using embedded_counts(1) that by fastforce
  ultimately have "compilable embedded_grammar"
    unfolding compilable_def using embedded_counts(2) embedded_leads_down by auto
  then show ?thesis using embedded_wf embedded_rules_defined by (simp add: takes_grammar_def)
qed

section \<open>No empty iterations\<close>

text \<open>The nodes the argument looks at: those of the words and texts, a digit, the parameters.\<close>

lemma embedded_slices:
  "take 24 (concat embedded_nodes) =
    [oct 32 32, oct 1 9, oct 11 12, oct 14 31, oct 33 57, oct 59 255, alt 0 5, ref 1, lit 0, ref 1, alt 5 2,
     rep 0 (-1) 7, seq 8 2, lit 1, lit 2, ref 1, alt 10 3, rep 0 (-1) 13, oct 65 90, oct 97 122, alt 14 2, oct 48 57,
     oct 91 96, oct 123 125]"
  "take 4 (drop 255 (concat embedded_nodes)) = [seq 197 5, ref 4, rep 1 (-1) 202, ref 5]"
  "take 17 (drop 259 (concat embedded_nodes)) =
    [rep 3 3 203, alt 204 2, ref 2, ref 3, ref 2, ref 0, rep 1 (-1) 206, ref 58, cap 55 28, seq 207 2, rep 0 14 209,
     ref 58, lit 35, cap 56 29, seq 210 3, rep 0 1 213, seq 214 2]"
  "take 4 (drop 276 (concat embedded_nodes)) = [ref 58, cap 55 28, seq 216 2, rep 14 14 218]"
  "take 16 (concat embedded_children) = [1, 2, 3, 4, 5, 8, 9, 10, 7, 11, 13, 14, 15, 16, 18, 19]"
  "take 5 (drop 202 (concat embedded_children)) = [256, 258, 257, 259, 264]"
  "take 3 (drop 216 (concat embedded_children)) = [276, 277, 278]"
  "take 3 (concat embedded_literals) = ['':'', '':'', '' '']"
  by code_simp+

lemma embedded_size: "length (concat embedded_nodes) = 301"
  unfolding length_concat line_counts by code_simp

lemma slice_at: "take m (drop a xs) = ys \<Longrightarrow> a \<le> k \<Longrightarrow> k < a + length ys \<Longrightarrow> xs ! k = ys ! (k - a)"
  by auto

lemmas slices_at = slice_at [where a = 0, simplified, OF embedded_slices(1)] slice_at [OF embedded_slices(2)]
  slice_at [OF embedded_slices(3)] slice_at [OF embedded_slices(4)]

lemmas child_slices = slice_at [where a = 0, simplified, OF embedded_slices(5)] slice_at [OF embedded_slices(6)]
  slice_at [OF embedded_slices(7)]

lemma embedded_node_at:
  "n < 301 \<Longrightarrow> node embedded_grammar (int n) = concat embedded_nodes ! n"
  by (simp add: node_def in_range_def embedded_size [simplified])

lemma nodes_at:
  "node embedded_grammar 0 = oct 32 32" "node embedded_grammar 1 = oct 1 9" "node embedded_grammar 2 = oct 11 12"
  "node embedded_grammar 3 = oct 14 31" "node embedded_grammar 4 = oct 33 57" "node embedded_grammar 5 = oct 59 255"
  "node embedded_grammar 6 = alt 0 5" "node embedded_grammar 7 = ref 1" "node embedded_grammar 8 = lit 0"
  "node embedded_grammar 9 = ref 1" "node embedded_grammar 10 = alt 5 2" "node embedded_grammar 11 = rep 0 (-1) 7"
  "node embedded_grammar 12 = seq 8 2" "node embedded_grammar 13 = lit 1" "node embedded_grammar 14 = lit 2"
  "node embedded_grammar 15 = ref 1" "node embedded_grammar 16 = alt 10 3" "node embedded_grammar 17 = rep 0 (-1) 13"
  "node embedded_grammar 18 = oct 65 90" "node embedded_grammar 19 = oct 97 122" "node embedded_grammar 20 = alt 14 2"
  "node embedded_grammar 21 = oct 48 57"
  using embedded_node_at [of 0] embedded_node_at [of 1] embedded_node_at [of 2] embedded_node_at [of 3] embedded_node_at [of 4]
    embedded_node_at [of 5] embedded_node_at [of 6] embedded_node_at [of 7] embedded_node_at [of 8] embedded_node_at [of 9]
    embedded_node_at [of 10] embedded_node_at [of 11] embedded_node_at [of 12] embedded_node_at [of 13]
    embedded_node_at [of 14] embedded_node_at [of 15] embedded_node_at [of 16] embedded_node_at [of 17]
    embedded_node_at [of 18] embedded_node_at [of 19] embedded_node_at [of 20] embedded_node_at [of 21]
  by (simp_all add: slices_at)

lemma later_nodes_at:
  "node embedded_grammar 256 = ref 4" "node embedded_grammar 257 = rep 1 (-1) 202" "node embedded_grammar 258 = ref 5"
  "node embedded_grammar 259 = rep 3 3 203" "node embedded_grammar 260 = alt 204 2" "node embedded_grammar 264 = ref 0"
  "node embedded_grammar 265 = rep 1 (-1) 206" "node embedded_grammar 276 = ref 58" "node embedded_grammar 278 = seq 216 2"
  using embedded_node_at [of 256] embedded_node_at [of 257] embedded_node_at [of 258] embedded_node_at [of 259]
    embedded_node_at [of 260] embedded_node_at [of 264] embedded_node_at [of 265] embedded_node_at [of 276]
    embedded_node_at [of 278]
  by (simp_all add: slices_at)

lemma kids_at:
  "kids embedded_grammar (alt 0 5) = [1, 2, 3, 4, 5]" "kids embedded_grammar (alt 5 2) = [8, 9]"
  "kids embedded_grammar (seq 8 2) = [7, 11]" "kids embedded_grammar (alt 10 3) = [13, 14, 15]"
  "kids embedded_grammar (alt 14 2) = [18, 19]" "kids embedded_grammar (alt 204 2) = [257, 259]"
  "kids embedded_grammar (seq 216 2) = [276, 277]"
  "child embedded_grammar 7 = 10" "child embedded_grammar 13 = 16" "child embedded_grammar 202 = 256"
  "child embedded_grammar 203 = 258" "child embedded_grammar 206 = 264" "child embedded_grammar 218 = 278"
  by (simp_all add: kids_def child_def child_slices upt_rec empty_node_def)

lemma literals_at: "literal embedded_grammar 0 = '':''" "literal embedded_grammar 1 = '':''" "literal embedded_grammar 2 = '' ''"
  by (simp_all add: literal_def slice_at [where a = 0, simplified, OF embedded_slices(8)])

lemma roots_at:
  "ruleRoot embedded_grammar 0 = 0" "ruleRoot embedded_grammar 1 = 6" "ruleRoot embedded_grammar 2 = 12"
  "ruleRoot embedded_grammar 3 = 17" "ruleRoot embedded_grammar 4 = 20" "ruleRoot embedded_grammar 5 = 21"
  "ruleRoot embedded_grammar 54 = 260" "ruleRoot embedded_grammar 58 = 265"
  by (simp_all add: ruleRoot_def in_range_def embedded_roots_def)

section \<open>Words and texts\<close>

text \<open>A character of a word: no blank, no colon, none of the three that end a message.\<close>

definition ends_message :: "char \<Rightarrow> bool" where
  "ends_message c \<longleftrightarrow> c = CHR 0x00 \<or> c = CHR 0x0A \<or> c = CHR 0x0D"

definition word_char :: "char \<Rightarrow> bool" where
  "word_char c \<longleftrightarrow> \<not> ends_message c \<and> c \<noteq> CHR '' '' \<and> c \<noteq> CHR '':''"

definition middle_text :: "string \<Rightarrow> bool" where
  "middle_text s \<longleftrightarrow> s \<noteq> [] \<and> hd s \<noteq> CHR '':'' \<and> list_all (\<lambda>c. \<not> ends_message c \<and> c \<noteq> CHR '' '') s"

definition clean_text :: "string \<Rightarrow> bool" where
  "clean_text s \<longleftrightarrow> list_all (\<lambda>c. \<not> ends_message c) s"

lemma word_clean: "middle_text s \<Longrightarrow> clean_text s"
  by (simp add: middle_text_def clean_text_def list_all_iff)

lemma octet_codes: "octet c = 0 \<longleftrightarrow> c = CHR 0x00" "octet c = 10 \<longleftrightarrow> c = CHR 0x0A" "octet c = 13 \<longleftrightarrow> c = CHR 0x0D"
    "octet c = 32 \<longleftrightarrow> c = CHR '' ''" "octet c = 58 \<longleftrightarrow> c = CHR '':''"
  using octet_inj [of c "CHR 0x00"] octet_inj [of c "CHR 0x0A"] octet_inj [of c "CHR 0x0D"] octet_inj [of c "CHR '' ''"]
    octet_inj [of c "CHR '':''"]
  by (simp_all add: octet_def del: octet_inj)

text \<open>A node that yields single characters, of a kind, and captures nothing.\<close>

definition one_char :: "int \<Rightarrow> (char \<Rightarrow> bool) \<Rightarrow> bool" where
  "one_char j A \<longleftrightarrow> (\<forall>s cs. yields embedded_grammar j s cs \<longrightarrow> cs = [] \<and> (\<exists>c. s = [c] \<and> A c))"

lemma one_charD: "one_char j A \<Longrightarrow> yields embedded_grammar j s cs \<Longrightarrow> cs = [] \<and> (\<exists>c. s = [c] \<and> A c)"
  by (simp add: one_char_def)

lemma one_char_octet: "node embedded_grammar j = oct lo hi \<Longrightarrow> one_char j (\<lambda>c. lo \<le> octet c \<and> octet c \<le> hi)"
  by (auto simp: one_char_def yields_octet octet_in_def)

lemma one_char_literal:
  assumes "node embedded_grammar j = lit k" and "literal embedded_grammar k = [c]" and "c = CHR '':'' \<or> c = CHR '' ''"
  shows "one_char j (\<lambda>d. d = c)"
proof -
  have "d = c" if "fold_char d = fold_char c" for d
  proof -
    have "(of_char d :: nat) = of_char c"
      using arg_cong [where f = "of_char :: char \<Rightarrow> nat", OF that] assms(3) by (auto simp: of_char_fold split: if_splits)
    then show ?thesis by simp
  qed
  then show ?thesis using assms(1,2) by (auto simp: one_char_def yields_literal)
qed

lemma one_char_ref: "node embedded_grammar j = ref q \<Longrightarrow> one_char (ruleRoot embedded_grammar q) A \<Longrightarrow> one_char j A"
  by (auto simp: one_char_def yields_reference closing_def)

lemma one_char_alt:
  assumes "node embedded_grammar j = alt first count" and "\<forall>k \<in> set (kids embedded_grammar (alt first count)). one_char k A"
  shows "one_char j A"
  using assms by (auto simp: one_char_def yields_alternation)

lemma one_char_mono: "one_char j A \<Longrightarrow> (\<And>c. A c \<Longrightarrow> B c) \<Longrightarrow> one_char j B"
  unfolding one_char_def by blast

lemma one_char_times:
  "yields_times embedded_grammar j m s cs \<Longrightarrow> one_char j A \<Longrightarrow> cs = [] \<and> length s = m \<and> list_all A s"
proof (induction m arbitrary: s cs)
  case (Suc m)
  then obtain s1 s2 c1 c2 where p: "s = s1 @ s2" "cs = c1 @ c2" "yields embedded_grammar j s1 c1"
      "yields_times embedded_grammar j m s2 c2" by (auto simp: yields_times_Suc)
  then show ?case using Suc.IH [OF p(4) Suc.prems(2)] one_charD [OF Suc.prems(2) p(3)] by auto
qed simp

lemma repetition_chars:
  assumes "yields embedded_grammar i s cs" and "node embedded_grammar i = rep lo hi first"
    and "one_char (child embedded_grammar first) A"
  shows "cs = [] \<and> list_all A s \<and> lo \<le> int (length s)"
  using assms(1,2) one_char_times [OF _ assms(3)]
  by (auto simp: yields_repetition iterates_def times_ok_def)

lemma one_char_octets:
  assumes "node embedded_grammar j = oct lo hi" and "\<And>v. v \<in> {0, 10, 13, 32, 58} \<Longrightarrow> v < lo \<or> hi < v"
  shows "one_char j word_char"
proof -
  have "word_char c" if c: "lo \<le> octet c" "octet c \<le> hi" for c
  proof -
    have "octet c \<noteq> v" if "v \<in> {0, 10, 13, 32, 58}" for v using assms(2) [OF that] c by linarith
    then show ?thesis by (simp add: word_char_def ends_message_def flip: octet_codes)
  qed
  then show ?thesis using one_char_octet [OF assms(1)] by (auto elim: one_char_mono)
qed

lemma word_octets: "one_char 6 word_char"
proof (rule one_char_alt [OF nodes_at(7)])
  have "one_char 1 word_char" by (rule one_char_octets [OF nodes_at(2)]) auto
  moreover have "one_char 2 word_char" by (rule one_char_octets [OF nodes_at(3)]) auto
  moreover have "one_char 3 word_char" by (rule one_char_octets [OF nodes_at(4)]) auto
  moreover have "one_char 4 word_char" by (rule one_char_octets [OF nodes_at(5)]) auto
  moreover have "one_char 5 word_char" by (rule one_char_octets [OF nodes_at(6)]) auto
  ultimately show "\<forall>k \<in> set (kids embedded_grammar (alt 0 5)). one_char k word_char" by (simp add: kids_at)
qed

lemma word_yields:
  assumes "yields embedded_grammar 12 s cs"
  shows "cs = [] \<and> middle_text s"
proof -
  have ref: "one_char 7 word_char" "one_char 9 word_char"
    using one_char_ref [OF nodes_at(8)] one_char_ref [OF nodes_at(10)] word_octets by (simp_all add: roots_at)
  have colon: "one_char 8 (\<lambda>d. d = CHR '':'')"
    by (rule one_char_literal [OF nodes_at(9)]) (simp_all add: literals_at)
  have "one_char 10 (\<lambda>c. word_char c \<or> c = CHR '':'')"
    by (rule one_char_alt [OF nodes_at(11)]) (use one_char_mono [OF colon] one_char_mono [OF ref(2)] in \<open>auto simp: kids_at\<close>)
  then have rest: "cs = [] \<and> list_all (\<lambda>c. word_char c \<or> c = CHR '':'') s" if "yields embedded_grammar 11 s cs" for s cs
    using repetition_chars [OF that nodes_at(12)] by (simp add: kids_at)
  obtain s1 s2 c1 c2 where p: "s = s1 @ s2" "cs = c1 @ c2" "yields embedded_grammar 7 s1 c1" "yields embedded_grammar 11 s2 c2"
    using assms by (auto simp: yields_sequence nodes_at kids_at yields_seq_Cons)
  obtain c where c: "s1 = [c]" "word_char c" "c1 = []" using one_charD [OF ref(1) p(3)] by blast
  have "\<not> ends_message d \<and> d \<noteq> CHR '' ''" if "word_char d \<or> d = CHR '':''" for d
    using that by (auto simp: word_char_def ends_message_def)
  then have "list_all (\<lambda>d. \<not> ends_message d \<and> d \<noteq> CHR '' '') s2" "c2 = []"
    using rest [OF p(4)] unfolding list_all_iff by blast+
  then show ?thesis using c p(1,2) by (simp add: middle_text_def word_char_def)
qed

lemma text_yields:
  assumes "yields embedded_grammar 17 s cs"
  shows "cs = [] \<and> clean_text s"
proof -
  have parts: "one_char 13 (\<lambda>d. d = CHR '':'')" "one_char 14 (\<lambda>d. d = CHR '' '')" "one_char 15 word_char"
    using one_char_literal [OF nodes_at(14)] one_char_literal [OF nodes_at(15)] one_char_ref [OF nodes_at(16)] word_octets
    by (simp_all add: literals_at roots_at)
  have "one_char 13 (\<lambda>c. \<not> ends_message c)" "one_char 14 (\<lambda>c. \<not> ends_message c)" "one_char 15 (\<lambda>c. \<not> ends_message c)"
    by (rule one_char_mono [OF parts(1)], simp add: ends_message_def)
      (rule one_char_mono [OF parts(2)], simp add: ends_message_def,
       rule one_char_mono [OF parts(3)], simp add: word_char_def)
  then have "one_char 16 (\<lambda>c. \<not> ends_message c)" by (intro one_char_alt [OF nodes_at(17)]) (simp add: kids_at)
  then show ?thesis using repetition_chars [OF assms nodes_at(18)] by (simp add: kids_at clean_text_def)
qed

lemma blank_chars: "one_char 264 (\<lambda>c. c = CHR '' '')"
proof -
  have "one_char 0 (\<lambda>c. c = CHR '' '')"
    by (rule one_char_mono [OF one_char_octet [OF nodes_at(1)]]) (use octet_codes(4) in \<open>metis order_antisym\<close>)
  then show ?thesis using one_char_ref [OF later_nodes_at(6)] by (simp add: roots_at)
qed

lemma command_chars: "one_char 256 word_char" "one_char 258 word_char"
proof -
  have p: "one_char 18 word_char" "one_char 19 word_char" "one_char 21 word_char"
    by (rule one_char_octets [OF nodes_at(19)], auto) (rule one_char_octets [OF nodes_at(20)], auto,
      rule one_char_octets [OF nodes_at(22)], auto)
  have "one_char 20 word_char" by (rule one_char_alt [OF nodes_at(21)]) (use p in \<open>simp add: kids_at\<close>)
  then show "one_char 256 word_char" "one_char 258 word_char"
    using one_char_ref [OF later_nodes_at(1)] one_char_ref [OF later_nodes_at(3)] p(3) by (simp_all add: roots_at)
qed

lemma command_yields:
  assumes "yields embedded_grammar 260 s cs"
  shows "middle_text s"
proof -
  have "list_all word_char s \<and> 1 \<le> int (length s)"
    using assms repetition_chars [OF _ later_nodes_at(2)] repetition_chars [OF _ later_nodes_at(4)] command_chars
    by (fastforce simp: yields_alternation later_nodes_at kids_at)
  then show ?thesis by (cases s) (auto simp: middle_text_def word_char_def list_all_iff)
qed

lemma digit_not_empty: "n_kind (node embedded_grammar i) = Reference \<Longrightarrow> n_lo (node embedded_grammar i) = 5 \<Longrightarrow>
    \<not> yields embedded_grammar i [] cs"
  using one_charD [OF one_char_octet [OF nodes_at(22)]] by (fastforce simp: yields_reference roots_at)

lemma parameter_not_empty: "\<not> yields embedded_grammar 278 [] cs"
proof
  assume "yields embedded_grammar 278 [] cs"
  then obtain c1 where "yields embedded_grammar 265 [] c1"
    by (auto simp: yields_sequence yields_reference later_nodes_at kids_at yields_seq_Cons roots_at)
  then show False using repetition_chars [OF _ later_nodes_at(7)] blank_chars by (fastforce simp: kids_at)
qed

lemma embedded_repetitions: "repetitions_ok embedded_grammar"
  unfolding repetitions_ok_def
proof (intro ballI impI allI)
  fix n cs
  assume n: "n \<in> set (g_nodes embedded_grammar)" and rep: "n_kind n = Repetition" "2 \<le> n_lo n"
  obtain i where i: "in_range i (g_nodes embedded_grammar)" "node embedded_grammar i = n" by (rule embedded_in_nodes [OF n])
  have "child embedded_grammar (n_first n) = i - 1"
    "n_kind (node embedded_grammar (i - 1)) = Reference \<and> n_lo (node embedded_grammar (i - 1)) = 5 \<or> i = 279"
    using embedded_along [OF embedded_loops i(1)] i(2) rep by (auto simp: child_def)
  then show "\<not> yields embedded_grammar (child embedded_grammar (n_first n)) [] cs"
    using digit_not_empty parameter_not_empty by auto
qed

end
