(* ===== verification/Embedded_Fields.thy ===== *)
theory Embedded_Fields
  imports Embedded_Language
begin

text \<open>
  What the fields of a message hold when the server reads it with its own grammar: which
  captures are words and which are trailing text, that a trailing text is always the last
  capture of a line, and what follows for the parameters and fields the handlers see.
\<close>

section \<open>Children, row by row\<close>

text \<open>The builder lays down the children of the nodes in the order of the nodes.\<close>

fun along_kids :: "(int \<Rightarrow> grammar_node \<Rightarrow> int list \<Rightarrow> bool) \<Rightarrow> int \<Rightarrow> int \<Rightarrow> grammar_node list \<Rightarrow> int list \<Rightarrow> bool" where
  "along_kids P i f [] ks = True"
| "along_kids P i f (n # ns) ks =
     ((n_count n = 0 \<or> 0 < n_count n \<and> n_first n = f) \<and> P i n (take (nat (n_count n)) ks) \<and>
      along_kids P (i + 1) (f + n_count n) ns (drop (nat (n_count n)) ks))"

lemma take_drop_map: "a + m \<le> length xs \<Longrightarrow> take m (drop a xs) = map (\<lambda>k. xs ! (a + k)) [0..<m]"
  by (rule nth_equalityI) simp_all

lemma along_kids_nth:
  assumes "along_kids P i (int f) ns (drop f K)" and "k < length ns"
    and "\<forall>n \<in> set ns. n_count n = 0 \<or> 0 \<le> n_first n \<and> n_first n + n_count n \<le> int (length K)"
  shows "P (i + int k) (ns ! k) (map (\<lambda>m. K ! nat (n_first (ns ! k) + int m)) [0..<nat (n_count (ns ! k))])"
  using assms
proof (induction ns arbitrary: i f k)
  case (Cons n ns)
  have n: "n_count n = 0 \<or> 0 < n_count n \<and> n_first n = int f" "0 \<le> n_count n"
    "P i n (take (nat (n_count n)) (drop f K))"
    "along_kids P (i + 1) (int f + n_count n) ns (drop (nat (n_count n)) (drop f K))"
    using Cons.prems(1) by auto
  show ?case
  proof (cases k)
    case 0
    have "take (nat (n_count n)) (drop f K) = map (\<lambda>m. K ! nat (n_first n + int m)) [0..<nat (n_count n)]"
    proof (cases "n_count n = 0")
      case False
      then have "f + nat (n_count n) \<le> length K" "n_first n = int f" using n(1) Cons.prems(3) by auto
      then show ?thesis by (simp add: take_drop_map flip: of_nat_add)
    qed simp
    then show ?thesis using n(3) 0 by simp
  next
    case (Suc m)
    have "along_kids P (i + 1) (int (f + nat (n_count n))) ns (drop (f + nat (n_count n)) K)"
      using n(2,4) by (simp add: add.commute)
    from Cons.IH [OF this, of m] show ?thesis using Cons.prems(2,3) Suc by (simp add: add.assoc)
  qed
qed simp

lemma wf_rows:
  assumes "grammar_wf g" and "in_range i (g_nodes g)"
  shows "n_count (node g i) = 0 \<or> 0 \<le> n_first (node g i) \<and>
    n_first (node g i) + n_count (node g i) \<le> int (length (g_children g))"
  using wf_node [OF assms] by (auto simp: node_wf_def kids_wf_def split: node_kind.splits)

lemma embedded_along_kids:
  assumes "along_kids P 0 0 (concat embedded_nodes) (concat embedded_children)"
    and "in_range i (g_nodes embedded_grammar)"
  shows "P i (node embedded_grammar i) (kids embedded_grammar (node embedded_grammar i))"
proof -
  have k: "nat i < length (concat embedded_nodes)" "0 \<le> i" using assms(2) by (simp_all add: in_range_def nat_less_iff)
  have rows: "n_count n = 0 \<or> 0 \<le> n_first n \<and> n_first n + n_count n \<le> int (length (concat embedded_children))"
    if "n \<in> set (concat embedded_nodes)" for n
  proof -
    obtain j where "in_range j (g_nodes embedded_grammar)" "node embedded_grammar j = n"
      using embedded_in_nodes [of n] \<open>n \<in> set (concat embedded_nodes)\<close> by (metis embedded_fields(1))
    then show ?thesis using wf_rows [OF embedded_wf] embedded_fields(2) by metis
  qed
  have "node embedded_grammar i = concat embedded_nodes ! nat i" using assms(2) by (simp add: node_def)
  then show ?thesis
    using along_kids_nth [of P 0 0 "concat embedded_nodes" "concat embedded_children" "nat i"] assms(1) k rows
    by (simp add: kids_def child_def)
qed

section \<open>Words and trailing texts\<close>

text \<open>The captures whose rule is \<open>trailing\<close>, and those rules.\<close>

definition trailing_slots :: "int list" where
  "trailing_slots = [1, 7, 8, 9, 12, 14, 17, 21, 29]"

definition trailing_rules :: "int list" where
  "trailing_rules = [13, 14, 16, 17, 20, 22, 25, 29, 56]"

definition capturing :: "int \<Rightarrow> bool" where
  "capturing r \<longleftrightarrow> 8 \<le> r \<and> r \<le> 35 \<or> 54 \<le> r \<and> r \<le> 57"

definition words :: "captures \<Rightarrow> bool" where
  "words cs \<longleftrightarrow> list_all (\<lambda>(k, t). k \<notin> set trailing_slots \<and> middle_text t) cs"

text \<open>
  What a node captures: nothing (0), words (1), or words and at most one trailing text at
  the end (2).
\<close>

definition shaped :: "int \<Rightarrow> captures \<Rightarrow> bool" where
  "shaped c cs \<longleftrightarrow>
     (if c \<le> 0 then cs = []
      else words cs \<or> 2 \<le> c \<and> (\<exists>ws k t. cs = ws @ [(k, t)] \<and> words ws \<and> k \<in> set trailing_slots \<and> clean_text t))"

definition embedded_shapes :: "int list" where
  "embedded_shapes =
     [0, 0, 1, 0, 0, 0, 2, 2, 2, 2, 2, 0, 0, 2, 0, 0, 0, 0, 1, 0, 0, 1, 0, 0, 0, 0, 1, 0, 0, 1, 0, 0, 1, 0,
      1, 0, 1, 0, 0, 2, 0, 0, 2, 0, 0, 0, 0, 2, 2, 2, 0, 0, 2, 0, 0, 0, 0, 2, 2, 2, 0, 0, 2, 0, 0, 0, 0, 2,
      2, 2, 0, 0, 2, 0, 0, 0, 1, 0, 1, 1, 1, 1, 1, 0, 0, 1, 0, 0, 1, 0, 0, 0, 2, 2, 2, 0, 0, 2, 0, 0, 1, 0,
      0, 0, 2, 0, 0, 2, 0, 0, 1, 0, 0, 0, 2, 0, 0, 2, 0, 0, 1, 0, 1, 0, 0, 0, 2, 2, 2, 0, 0, 2, 0, 0, 1, 0,
      1, 0, 0, 1, 0, 0, 1, 0, 0, 2, 2, 2, 0, 0, 2, 0, 0, 1, 0, 1, 0, 1, 1, 1, 1, 1, 0, 0, 1, 0, 0, 1, 1, 1,
      0, 0, 1, 0, 0, 0, 0, 0, 0, 1, 0, 0, 1, 0, 0, 1, 0, 1, 1, 1, 0, 0, 1, 0, 0, 0, 0, 0, 0, 0, 0, 0, 0, 0,
      1, 1, 1, 0, 0, 2, 2, 2, 2, 0, 1, 1, 1, 0, 0, 0, 2, 2, 2, 2, 2, 0, 0, 0, 1, 0, 1, 1, 1, 2, 2, 0, 0, 2]"

definition shape :: "int \<Rightarrow> int" where
  "shape i = (if i < 63 then 0 else embedded_shapes ! nat (i - 63))"

fun fits :: "int \<Rightarrow> int list \<Rightarrow> bool" where
  "fits c [] = True"
| "fits c (k # ks) = (k \<le> c \<and> (if 2 \<le> k then list_all (\<lambda>j. j = 0) ks else fits c ks))"

definition shape_fits :: "int \<Rightarrow> grammar_node \<Rightarrow> int list \<Rightarrow> bool" where
  "shape_fits i n ks \<longleftrightarrow>
     (case n_kind n of
        Reference \<Rightarrow>
          if n_capture n = kNoCapture then shape (embedded_roots ! nat (n_lo n)) \<le> shape i
          else shape (embedded_roots ! nat (n_lo n)) = 0 \<and> capturing (n_lo n) \<and>
               (if n_capture n \<in> set trailing_slots then n_lo n \<in> set trailing_rules \<and> 2 \<le> shape i
                else n_lo n \<notin> set trailing_rules \<and> 1 \<le> shape i)
      | Sequence \<Rightarrow> fits (shape i) (map shape ks)
      | Alternation \<Rightarrow> list_all (\<lambda>k. shape k \<le> shape i) ks
      | Repetition \<Rightarrow> shape (hd ks) \<le> shape i \<and> (shape (hd ks) \<le> 1 \<or> n_hi n = 1)
      | _ \<Rightarrow> True)"

lemma embedded_shapes_fit: "along_kids shape_fits 0 0 (concat embedded_nodes) (concat embedded_children)"
  by code_simp

text \<open>The rules that capture are \<open>middle\<close> and \<open>trailing\<close> under other names, and \<open>command\<close>.\<close>

lemma capturing_slices:
  "take 28 (drop 8 embedded_roots) = map (\<lambda>k. int k + 35) [0..<28]"
  "take 28 (drop 35 (concat embedded_nodes)) =
    map (\<lambda>k. ref (if int k + 8 \<in> set trailing_rules then 3 else 2)) [0..<28]"
  by code_simp+

lemma capturing_roots:
  assumes "capturing r" and "r \<noteq> 54"
  shows "node embedded_grammar (ruleRoot embedded_grammar r) = ref (if r \<in> set trailing_rules then 3 else 2)"
proof (cases "r \<le> 35")
  case True
  then obtain k where k: "r = int k + 8" "k < 28"
    using assms by (auto simp: capturing_def intro: that [of "nat (r - 8)"])
  have "embedded_roots ! (8 + k) = int k + 35"
    using arg_cong [where f = "\<lambda>xs. xs ! k", OF capturing_slices(1)] k(2) by (simp add: lengths)
  then have root: "ruleRoot embedded_grammar r = int (35 + k)"
    using k by (simp add: ruleRoot_def in_range_def lengths nat_add_distrib add.commute)
  have "concat embedded_nodes ! (35 + k) = ref (if r \<in> set trailing_rules then 3 else 2)"
    using arg_cong [where f = "\<lambda>xs. xs ! k", OF capturing_slices(2)] k by (simp add: embedded_size)
  then show ?thesis unfolding root using embedded_node_at [of "35 + k"] k(2) by simp
next
  case False
  then consider "r = 55" | "r = 56" | "r = 57" using assms unfolding capturing_def by linarith
  then show ?thesis
    using embedded_node_at [of 261] embedded_node_at [of 262] embedded_node_at [of 263]
    by cases (simp_all add: ruleRoot_def in_range_def embedded_roots_def slices_at trailing_rules_def)
qed

lemma capturing_text:
  assumes "capturing r" and "yields embedded_grammar (ruleRoot embedded_grammar r) s cs"
  shows "if r \<in> set trailing_rules then clean_text s else middle_text s"
proof (cases "r = 54")
  case True
  then show ?thesis using assms(2) command_yields by (simp add: roots_at trailing_rules_def)
next
  case False
  have "yields embedded_grammar 17 s cs" if "r \<in> set trailing_rules"
    using assms(2) capturing_roots [OF assms(1) False] that by (auto simp: yields_reference roots_at closing_def)
  moreover have "yields embedded_grammar 12 s cs" if "r \<notin> set trailing_rules"
    using assms(2) capturing_roots [OF assms(1) False] that by (auto simp: yields_reference roots_at closing_def)
  ultimately show ?thesis using word_yields text_yields by auto
qed

section \<open>The captures of a derivation\<close>

lemma words_append [simp]: "words (cs @ ds) \<longleftrightarrow> words cs \<and> words ds"
  by (simp add: words_def)

lemma words_simps [simp]: "words []" "words ((k, t) # cs) \<longleftrightarrow> k \<notin> set trailing_slots \<and> middle_text t \<and> words cs"
  by (auto simp: words_def)

lemma shaped_nil [simp]: "shaped c []"
  by (simp add: shaped_def)

lemma shaped_mono: "shaped k cs \<Longrightarrow> k \<le> c \<Longrightarrow> shaped c cs"
  by (auto simp: shaped_def split: if_splits)

lemma shaped_words: "shaped 1 cs \<longleftrightarrow> words cs"
  by (simp add: shaped_def)

lemma shaped_append: "shaped 1 cs \<Longrightarrow> shaped c ds \<Longrightarrow> 1 \<le> c \<Longrightarrow> shaped c (cs @ ds)"
  by (auto simp: shaped_def)

lemma shaped_then:
  assumes "shaped k cs" and "fits c (k # ks)" and "\<And>d. fits d ks \<Longrightarrow> shaped d ds"
  shows "shaped c (cs @ ds)"
proof -
  have zero: "fits 0 ks" if "list_all (\<lambda>j. j = 0) ks" using that by (induction ks) auto
  consider "k \<le> 0" | "k = 1" | "2 \<le> k" by linarith
  then show ?thesis
  proof cases
    case 1
    then show ?thesis using assms by (auto simp: shaped_def)
  next
    case 2
    then show ?thesis using assms shaped_append by auto
  next
    case 3
    then have "ds = []" using assms(2) assms(3) [of 0] zero by (auto simp: shaped_def)
    then show ?thesis using assms(1,2) 3 shaped_mono by auto
  qed
qed

text \<open>What a node's check gives for each kind of it.\<close>

lemma shape_fits_at:
  assumes "in_range i (g_nodes embedded_grammar)"
  shows "shape_fits i (node embedded_grammar i) (kids embedded_grammar (node embedded_grammar i))"
  by (rule embedded_along_kids [OF embedded_shapes_fit assms])

lemma kind_in_range: "n_kind (node g i) \<noteq> Sequence \<Longrightarrow> in_range i (g_nodes g)"
  by (auto simp: node_def empty_node_def split: if_splits)

lemma closing_shape:
  assumes "n_kind (node embedded_grammar i) = Reference"
    and "yields embedded_grammar (ruleRoot embedded_grammar (n_lo (node embedded_grammar i))) s cs"
    and "shaped (shape (ruleRoot embedded_grammar (n_lo (node embedded_grammar i)))) cs"
  shows "shaped (shape i) (cs @ closing (node embedded_grammar i) s)"
proof -
  let ?n = "node embedded_grammar i"
  have i: "in_range i (g_nodes embedded_grammar)" using assms(1) by (intro kind_in_range) simp
  note fit = shape_fits_at [OF i, unfolded shape_fits_def assms(1), simplified]
  have root: "ruleRoot embedded_grammar (n_lo ?n) = embedded_roots ! nat (n_lo ?n)"
    by (rule embedded_root [OF reference_root [OF embedded_wf i assms(1)]])
  show ?thesis
  proof (cases "n_capture ?n = kNoCapture")
    case True
    then show ?thesis using fit assms(3) root shaped_mono by (auto simp: closing_def)
  next
    case False
    then have "cs = []" "capturing (n_lo ?n)" using fit assms(3) root by (auto simp: shaped_def)
    then show ?thesis
      using fit False capturing_text [OF _ assms(2)] by (auto simp: closing_def shaped_def split: if_splits)
  qed
qed

lemma capture_shapes:
  "yields embedded_grammar i s cs \<Longrightarrow> shaped (shape i) cs"
  "yields_seq embedded_grammar js s cs \<Longrightarrow> fits c (map shape js) \<Longrightarrow> shaped c cs"
  "yields_times embedded_grammar j m s cs \<Longrightarrow> shape j \<le> 1 \<or> m \<le> 1 \<Longrightarrow> shaped (shape j) cs"
proof (induction arbitrary: and c and rule: yields_yields_seq_yields_times.inducts)
  case (yield_reference i s cs)
  then show ?case using closing_shape by blast
next
  case (yield_sequence i s cs)
  show ?case
  proof (cases "in_range i (g_nodes embedded_grammar)")
    case True
    then show ?thesis using shape_fits_at [OF True] yield_sequence by (simp add: shape_fits_def)
  next
    case False
    then have "kids embedded_grammar (node embedded_grammar i) = []" by (simp add: node_def empty_node_def kids_def)
    then show ?thesis using yield_sequence(2) by auto
  qed
next
  case (yield_alternation i j s cs)
  have "in_range i (g_nodes embedded_grammar)" using yield_alternation(1) by (intro kind_in_range) simp
  from shape_fits_at [OF this] show ?case
    using yield_alternation shaped_mono by (auto simp: shape_fits_def list_all_iff)
next
  case (yield_repetition i m s cs)
  let ?n = "node embedded_grammar i"
  have i: "in_range i (g_nodes embedded_grammar)" using yield_repetition(1) by (intro kind_in_range) simp
  have "kids embedded_grammar ?n = [child embedded_grammar (n_first ?n)]"
    using wf_node [OF embedded_wf i] yield_repetition(1) by (simp add: node_wf_def kids_def)
  then have "shape (child embedded_grammar (n_first ?n)) \<le> shape i"
    "shape (child embedded_grammar (n_first ?n)) \<le> 1 \<or> n_hi ?n = 1"
    using shape_fits_at [OF i] yield_repetition(1) by (auto simp: shape_fits_def)
  then show ?case using yield_repetition shaped_mono by (auto simp: times_ok_def)
next
  case (seq_cons j s cs js t ds)
  then show ?case by (intro shaped_then) simp_all
next
  case (times_more j s cs m t ds)
  show ?case
  proof (cases "shape j \<le> 1")
    case True
    then show ?thesis using times_more by (auto simp: shaped_def split: if_splits)
  next
    case False
    then have "m = 0" using times_more.prems by simp
    then show ?thesis using times_more by auto
  qed
qed auto

section \<open>What the handlers see\<close>

definition trailing_fields :: "string list" where
  "trailing_fields = [''capparam'', ''realname'', ''quitmsg'', ''pingtoken'', ''partmsg'', ''msgtext'', ''kickreason'',
     ''topictext'', ''trail'']"

definition field_text :: "string \<Rightarrow> string \<Rightarrow> bool" where
  "field_text name t \<longleftrightarrow> t = [] \<or> (if name \<in> set trailing_fields then clean_text t else middle_text t)"

definition parameters_text :: "string list \<Rightarrow> bool" where
  "parameters_text ps \<longleftrightarrow> list_all middle_text (butlast ps) \<and> (ps = [] \<or> clean_text (last ps))"

lemma captured_params:
  "m_params (fillParams P (captured g cs) out) =
     map snd (filter (\<lambda>c. fst c \<noteq> captureIndex (ps_grammar P) ''command'' \<and>
       fst c \<noteq> captureIndex (ps_grammar P) ''prefix'') cs)" (is "_ = map snd (filter ?q cs)")
proof -
  have "filter ?q cs = filter ?q (map ((!) cs) [0..<length cs])" by (simp only: map_nth)
  also have "\<dots> = map ((!) cs) (filter (\<lambda>i. ?q (cs ! i)) [0..<length cs])" by (simp only: filter_map o_def)
  finally have "map snd (filter ?q cs) = map (\<lambda>i. snd (cs ! i)) (filter (\<lambda>i. ?q (cs ! i)) [0..<length cs])"
    by (simp add: o_def)
  moreover have "map (sequenceAt (captured g cs)) is = map (\<lambda>i. snd (cs ! i)) is" if "set is \<subseteq> {..<length cs}" for "is"
    using that by (auto simp: sequenceAt_def captured_def)
  ultimately show ?thesis
    by (auto simp: fillParams_def Let_def captured_def sequenceAt_def sequenceOwner_def intro!: map_cong filter_cong)
qed

lemma captured_field: "mr_at (captured g cs) name i = [] \<or> (index_of name (g_captureNames g), mr_at (captured g cs) name i) \<in> set cs"
proof -
  let ?k = "index_of name (g_captureNames g)"
  have v: "mr_values (captured g cs) ! nat ?k = map snd (filter (\<lambda>c. fst c = ?k) cs)" if "0 \<le> ?k"
    using that index_from_bounds [of 0 name "g_captureNames g"] by (simp add: captured_def nat_less_iff)
  have "(?k, t) \<in> set cs" if "t \<in> set (map snd (filter (\<lambda>c. fst c = ?k) cs))" for t
    using that by auto
  then show ?thesis
    using v nth_mem [of i "map snd (filter (\<lambda>c. fst c = ?k) cs)"]
    by (auto simp: mr_at_def slotOf_def captured_def Let_def simp del: set_map length_map nth_map)
qed

lemma trailing_names: "index_of name embedded_captures \<in> set trailing_slots \<Longrightarrow> name \<in> set trailing_fields"
  by (auto simp: trailing_slots_def trailing_fields_def embedded_captures_def split: if_splits)

lemma shaped_texts:
  assumes "shaped c cs" and "(k, t) \<in> set cs"
  shows "if k \<in> set trailing_slots then clean_text t else middle_text t"
proof -
  have w: "k \<notin> set trailing_slots \<and> middle_text t" if "words ds" "(k, t) \<in> set ds" for ds
    using that by (auto simp: words_def list_all_iff)
  consider "words cs" | ws j u where "cs = ws @ [(j, u)]" "words ws" "j \<in> set trailing_slots" "clean_text u"
    using assms by (auto simp: shaped_def split: if_splits)
  then show ?thesis
  proof cases
    case 2
    then show ?thesis using assms(2) w [OF 2(2)] by (cases "(k, t) \<in> set ws") auto
  qed (use w assms(2) in simp)
qed

lemma shaped_params:
  assumes "shaped c cs"
  shows "parameters_text (map snd (filter q cs))"
proof -
  have w: "list_all middle_text (map snd (filter q ws))" if "words ws" for ws
    using that by (auto simp: words_def list_all_iff)
  have all: "parameters_text ts" if "list_all middle_text ts" for ts
    using that word_clean by (cases ts rule: rev_cases) (auto simp: parameters_text_def)
  consider "words cs" | ws k t where "cs = ws @ [(k, t)]" "words ws" "clean_text t"
    using assms by (auto simp: shaped_def split: if_splits)
  then show ?thesis
  proof cases
    case 1
    then show ?thesis using all w by blast
  next
    case 2
    then show ?thesis using all [OF w [OF 2(2)]] w [OF 2(2)] by (auto simp: parameters_text_def)
  qed
qed

text \<open>Both ways a line is read, when every answer of the matcher is a derivation of its rule.\<close>

lemma read_texts:
  assumes "ps_grammar P = embedded_grammar" and "read_message P raw = Some msg"
    and "\<And>rule out. ps_match P rule raw = Some out \<Longrightarrow>
      \<exists>i cs. yields embedded_grammar i raw cs \<and> out = captured embedded_grammar cs"
  shows "parameters_text (m_params msg) \<and> (\<forall>name i. field_text name (m_field_at msg name i))"
proof -
  have field: "field_text name (mr_at (captured embedded_grammar cs) name i)" if "shaped c cs" for c cs name i
    using captured_field [of embedded_grammar cs name i] shaped_texts [OF that] trailing_names [of name] word_clean
    by (fastforce simp: field_text_def split: if_splits)
  obtain rule out where m: "ps_match P rule raw = Some out" "m_params msg = m_params (fillParams P out empty_message)"
      "m_fields msg = None \<or> m_fields msg = Some out"
    using assms(2) by (auto simp: read_message_def parseLine_def Let_def fillParams_def empty_message_def
        split: option.splits if_splits)
  obtain i cs where cs: "yields embedded_grammar i raw cs" "out = captured embedded_grammar cs" using assms(3) [OF m(1)] by blast
  note shaped = capture_shapes(1) [OF cs(1)]
  have "parameters_text (m_params msg)" unfolding m(2) cs(2) captured_params by (rule shaped_params [OF shaped])
  moreover have "field_text name (m_field_at msg name j)" for name j
    using m(3) field [OF shaped] by (auto simp: m_field_at_def cs(2) field_text_def [of _ "[]"])
  ultimately show ?thesis by blast
qed

section \<open>Starting with it\<close>

lemma embedded_rules: "bindCommandRules embedded_grammar = bindCommandRules (empty_grammar\<lparr>g_ruleNames := embedded_names\<rparr>)"
  by (simp add: bindCommandRules_def ruleName_def empty_grammar_def cong: if_cong)

lemma embedded_command_names:
  "map fst (bindCommandRules embedded_grammar) =
     [''CAP'', ''INVITE'', ''JOIN'', ''KICK'', ''MODE'', ''NICK'', ''NOTICE'', ''PART'', ''PASS'', ''PING'', ''PONG'', ''PRIVMSG'',
      ''QUIT'', ''TOPIC'', ''USER'', ''USERHOST'', ''WHO'', ''WHOIS'']"
  unfolding embedded_rules by code_simp

lemma embedded_commands: "verifyCommandTable (bindCommandRules embedded_grammar) command_names origin = None"
proof -
  have "set (map fst (bindCommandRules embedded_grammar)) = set command_names"
    unfolding embedded_command_names by (auto simp: command_names_def kCommands_def)
  then show ?thesis by (auto simp: verifyCommandTable_def map_of_eq_None_iff filter_empty_conv Let_def)
qed

lemma embedded_message_rule: "ruleIndex embedded_grammar ''message'' = 60"
proof -
  have "lowered ''message'' = ''message''" by code_simp
  then show ?thesis using rule_numbers(61) by (simp add: ruleIndex_def)
qed

lemma embedded_start:
  obtains P answer where "initGrammar files None strategy = Some (Inr P)" "ps_grammar P = embedded_grammar"
    "choose_matcher strategy embedded_grammar = Some (Inr answer)" "ps_match P = answer"
proof -
  obtain m where "compileAll embedded_grammar (new_program_matcher embedded_grammar) = Some (True, m)"
    using compileAll_total [OF embedded_takes] by blast
  then obtain answer where "choose_matcher strategy embedded_grammar = Some (Inr answer)"
    by (cases "strategy = Some ''compiled''") (simp_all add: choose_matcher_def)
  then show ?thesis
    by (intro that [of "\<lparr>ps_grammar = embedded_grammar, ps_match = answer, ps_messageRule = 60,
          ps_commandRules = bindCommandRules embedded_grammar\<rparr>" answer])
      (simp_all add: initGrammar_def grammar_source_def embedded_compiles embedded_message_rule embedded_commands
        del: embedded_fields)
qed

end
