(* ===== verification/Embedded_Demo.thy ===== *)
theory Embedded_Demo
  imports Embedded_Fields
begin

text \<open>
  A line read with the embedded grammar, step by step of the tree matcher: the inputs at
  which the properties of the grammar are applied.
\<close>

lemma nick_slices:
  "take 8 (drop 85 (concat embedded_nodes)) = [lit 8, ref 0, lit 9, rep 0 1 47, cap 9 3, ref 0, rep 0 (-1) 48, seq 49 5]"
  "take 7 (drop 47 (concat embedded_children)) = [87, 90, 85, 86, 88, 89, 91]"
  "take 2 (drop 8 (concat embedded_literals)) = [''NICK'', '':'']"
  by code_simp+

lemma nick_nodes:
  "node embedded_grammar 36 = ref 2" "node embedded_grammar 85 = lit 8" "node embedded_grammar 86 = ref 0"
  "node embedded_grammar 87 = lit 9" "node embedded_grammar 88 = rep 0 1 47" "node embedded_grammar 89 = cap 9 3"
  "node embedded_grammar 90 = ref 0" "node embedded_grammar 91 = rep 0 (-1) 48" "node embedded_grammar 92 = seq 49 5"
  using embedded_node_at [of 85] embedded_node_at [of 86] embedded_node_at [of 87] embedded_node_at [of 88]
    embedded_node_at [of 89] embedded_node_at [of 90] embedded_node_at [of 91] embedded_node_at [of 92]
    capturing_roots [of 9]
  by (simp_all add: slice_at [OF nick_slices(1)] capturing_def trailing_rules_def ruleRoot_def in_range_def embedded_roots_def)

lemma nick_kids:
  "child embedded_grammar 47 = 87" "child embedded_grammar 48 = 90" "child embedded_grammar 49 = 85"
  "child embedded_grammar 50 = 86" "child embedded_grammar 51 = 88" "child embedded_grammar 52 = 89"
  "child embedded_grammar 53 = 91" "child embedded_grammar 8 = 7" "child embedded_grammar 9 = 11"
  "literal embedded_grammar 8 = ''NICK''" "literal embedded_grammar 9 = '':''"
  "ruleRoot embedded_grammar 9 = 36" "ruleRoot embedded_grammar 38 = 92"
  by (simp_all add: child_def literal_def slice_at [OF nick_slices(2)] slice_at [OF nick_slices(3)] child_slices
      ruleRoot_def in_range_def embedded_roots_def)

lemma embedded_in_range: "in_range i (g_nodes embedded_grammar) \<longleftrightarrow> 0 \<le> i \<and> i < 301"
  by (simp add: in_range_def embedded_size [simplified])

lemma empty_fields: "n_lo empty_node = 0" "n_hi empty_node = 0" "n_first empty_node = 0" "n_count empty_node = 0"
    "n_capture empty_node = kNoCapture"
  by (simp_all add: empty_node_def)

lemmas embedded_reads = nodes_at kids_at literals_at roots_at nick_nodes nick_kids embedded_in_range empty_fields

lemma nick_singles:
  "isSingleOctet embedded_grammar [] 87" "isSingleOctet embedded_grammar [] 90" "isSingleOctet embedded_grammar [] 10"
  by (simp_all add: isSingleOctet.simps [of embedded_grammar] embedded_reads Let_def del: embedded_fields)

lemma nick_runs:
  "\<not> octetMatches embedded_grammar [] 87 (CHR ''b'')"
  "octetMatches embedded_grammar [] 10 (CHR ''o'')" "octetMatches embedded_grammar [] 10 (CHR ''b'')"
  by (simp_all add: octetMatches.simps [of embedded_grammar] embedded_reads Let_def octet_in_def octet_def fold_char_def del: embedded_fields)

lemmas tree_steps = matchNode.simps [of embedded_grammar] matchContinuation.simps [of embedded_grammar]
  matchSequence.simps [of embedded_grammar] matchRepetition.simps [of embedded_grammar]
  matchAlternatives.simps [of embedded_grammar] matchTakes.simps [of embedded_grammar]

lemma embedded_slots: "length (g_captureNames embedded_grammar) = 32"
  by (simp add: lengths)

lemma nick_walk:
  "\<exists>w. matchNode embedded_grammar ''NICK bob'' 0 92 0 ContEnd (start_walk embedded_grammar) = (True, w) \<and>
     wk_values w = (replicate 32 [])[3 := [''bob'']] \<and> wk_sequence w = [''bob''] \<and> wk_owners w = [3]"
  by (simp add: tree_steps embedded_reads nick_singles nick_runs octetBitmap_lookup Let_def start_walk_def add_steps_def
      literal_at_def octet_in_def octet_def fold_char_def pushCapture_def embedded_slots del: embedded_fields cong: prod.case_cong_weak if_weak_cong)

text \<open>The server reads the line: a \<open>NICK\<close> with one parameter, matched by its rule.\<close>

definition nick_result :: match_result where
  "nick_result = mr_adopt ((replicate 32 [])[3 := [''bob'']]) [''bob''] [3] (mr_reset embedded_grammar)"

lemma nick_match: "tree_match embedded_grammar 38 ''NICK bob'' = (True, nick_result, False)"
proof -
  obtain w where w: "matchNode embedded_grammar ''NICK bob'' 0 92 0 ContEnd (start_walk embedded_grammar) = (True, w)"
    "wk_values w = (replicate 32 [])[3 := [''bob'']]" "wk_sequence w = [''bob'']" "wk_owners w = [3]"
    using nick_walk by blast
  have "ruleRoot embedded_grammar 38 = 92" by (simp add: ruleRoot_def in_range_def embedded_roots_def)
  then have m: "tree_match embedded_grammar 38 ''NICK bob'' = (True, nick_result, wk_exhausted w)"
    using w by (simp add: tree_match_unfold nick_result_def del: embedded_fields)
  then show ?thesis using tree_match_found [OF embedded_wf embedded_counts_ok(1) m] by simp
qed

lemma nick_rule: "map_of (bindCommandRules embedded_grammar) ''NICK'' = Some 38"
  unfolding embedded_rules by code_simp

definition nick_message :: message where
  "nick_message = \<lparr>m_command = ''NICK'', m_params = [''bob''], m_trailingIndex = -1, m_fields = Some nick_result\<rparr>"

lemma nick_read:
  assumes "ps_grammar P = embedded_grammar" and "ps_match P = tree_answer embedded_grammar"
    and "ps_commandRules P = bindCommandRules embedded_grammar"
  shows "read_message P ''NICK bob'' = Some nick_message"
proof -
  have "firstToken ''NICK bob'' = ''NICK''" by code_simp
  moreover have "commandRule P ''NICK'' = 38" by (simp add: commandRule_def assms(3) nick_rule)
  moreover have "ps_match P 38 ''NICK bob'' = Some nick_result" by (simp add: assms(2) tree_answer_def nick_match)
  moreover have "captureIndex (ps_grammar P) ''command'' = 31" "captureIndex (ps_grammar P) ''prefix'' = 30"
    using capture_numbers(31,32) by (simp_all add: captureIndex_def assms(1))
  ultimately show ?thesis
    by (simp add: read_message_def fillParams_def Let_def nick_message_def empty_message_def nick_result_def mr_adopt_def
        sequenceAt_def sequenceOwner_def)
qed

lemma nick_field: "m_field_at nick_message ''newnick'' 0 = ''bob''"
  using capture_numbers(4)
  by (simp add: nick_message_def m_field_at_def nick_result_def mr_at_def slotOf_def mr_adopt_def mr_reset_def)

end
