(* ===== verification/Embedded_Properties.thy ===== *)
theory Embedded_Properties
  imports Embedded_Demo
begin

text \<open>
  The properties of the grammar the server carries, and of the server that runs on it: it
  starts under both strategies, its parser is exact, and the fields of a message have the
  form the handlers rely on.
\<close>

lemma embedded_tree_exact:
  assumes "ruleRoot embedded_grammar rule \<noteq> kNoRule"
  shows "(\<exists>out. tree_answer embedded_grammar rule line = Some out) \<longleftrightarrow>
    lang embedded_grammar (ruleRoot embedded_grammar rule) line \<and> \<not> snd (snd (tree_match embedded_grammar rule line))"
proof -
  obtain ok out e where r: "tree_match embedded_grammar rule line = (ok, out, e)" by (cases "tree_match embedded_grammar rule line")
  show ?thesis
  proof (cases ok)
    case True
    then show ?thesis
      using r tree_match_found [OF embedded_wf embedded_counts_ok(1), of rule line out e]
      by (auto simp: tree_answer_def lang_def simp del: embedded_fields)
  next
    case False
    then show ?thesis
      using r tree_match_none [OF embedded_counts_ok(1) embedded_repetitions, of rule line out] assms
      by (auto simp: tree_answer_def lang_def simp del: embedded_fields)
  qed
qed

lemma embedded_choice_exact:
  assumes "choose_matcher strategy embedded_grammar = Some (Inr answer)" and "ruleRoot embedded_grammar rule \<noteq> kNoRule"
    and "int (length line) + 1 < kIntMax"
  shows "(\<exists>out. answer rule line = Some out) \<longleftrightarrow>
    lang embedded_grammar (ruleRoot embedded_grammar rule) line \<and>
    (strategy = Some ''compiled'' \<or> \<not> snd (snd (tree_match embedded_grammar rule line)))"
proof (cases "strategy = Some ''compiled''")
  case True
  then obtain m where m: "compileAll embedded_grammar (new_program_matcher embedded_grammar) = Some (True, m)"
      "answer = program_answer embedded_grammar m"
    using assms(1) by (auto simp: choose_matcher_def split: option.splits prod.splits if_splits)
  then show ?thesis using program_answer_exact(1) [OF embedded_wf m(1) assms(2,3)] True by simp
next
  case False
  then have "answer = tree_answer embedded_grammar" using assms(1) by (simp add: choose_matcher_def)
  then show ?thesis using embedded_tree_exact [OF assms(2)] False by simp
qed

text \<open>
  C22.  With no grammar file the server starts, under either strategy: the text it carries
  compiles to a grammar with a rule for every command and only for those, the compiler takes
  every rule of it, and the matcher is exact: it accepts a line for a rule exactly when the
  rule derives it, the backtracking matcher unless it gave up on its limits.
\<close>

theorem embedded_server_starts:
  "\<exists>P. initGrammar files None strategy = Some (Inr P) \<and> ps_grammar P = embedded_grammar \<and>
    (\<forall>name. commandRule P name \<noteq> kNoRule \<longleftrightarrow> name \<in> set command_names) \<and>
    (\<forall>rule line. ruleRoot embedded_grammar rule \<noteq> kNoRule \<and> int (length line) + 1 < kIntMax \<longrightarrow>
      ((\<exists>out. ps_match P rule line = Some out) \<longleftrightarrow>
        lang embedded_grammar (ruleRoot embedded_grammar rule) line \<and>
        (strategy = Some ''compiled'' \<or> \<not> snd (snd (tree_match embedded_grammar rule line)))))"
proof -
  obtain P answer where P: "initGrammar files None strategy = Some (Inr P)" "ps_grammar P = embedded_grammar"
    "choose_matcher strategy embedded_grammar = Some (Inr answer)" "ps_match P = answer"
    by (rule embedded_start)
  have "ps_commandRules P = bindCommandRules (ps_grammar P)" "set (map fst (ps_commandRules P)) = set command_names"
    by (rule initGrammar_parts [OF P(1)], simp)+
  then have "commandRule P name \<noteq> kNoRule \<longleftrightarrow> name \<in> set command_names" for name using commandRule_known by blast
  then show ?thesis using P embedded_choice_exact [OF P(3)] by blast
qed

lemma nick_language: "lang embedded_grammar (ruleRoot embedded_grammar 38) ''NICK bob''"
  using tree_match_found [OF embedded_wf embedded_counts_ok(1) nick_match] by (auto simp: lang_def simp del: embedded_fields)

lemma nick_root: "ruleRoot embedded_grammar 38 \<noteq> kNoRule"
  by (simp add: ruleRoot_def in_range_def embedded_roots_def)

theorem embedded_server_starts_witness:
  "\<exists>P out. initGrammar (\<lambda>_. None) None (Some ''compiled'') = Some (Inr P) \<and> ps_match P 38 ''NICK bob'' = Some out"
  using embedded_server_starts [of "\<lambda>_. None" "Some ''compiled''"] nick_language nick_root by fastforce

text \<open>
  C27.  What a line read with the embedded grammar can hand to a command, under the
  backtracking strategy: every parameter but the last is a word, which is not empty, does not
  begin with a colon and holds no blank, no NUL and no line end; the last is free of NUL and
  line ends; and of the named fields only the trailing ones (\<open>trailing_fields\<close>: the message
  text, the topic, the reasons and the like) may be anything but such a word.
\<close>

theorem embedded_fields_safe:
  assumes "initGrammar files None strategy = Some (Inr P)" and "strategy \<noteq> Some ''compiled''"
    and "read_message P raw = Some msg"
  shows "parameters_text (m_params msg) \<and> (\<forall>name i. field_text name (m_field_at msg name i))"
proof -
  obtain P' answer where P: "initGrammar files None strategy = Some (Inr P')" "ps_grammar P' = embedded_grammar"
    "choose_matcher strategy embedded_grammar = Some (Inr answer)" "ps_match P' = answer"
    by (rule embedded_start)
  then have p: "ps_grammar P = embedded_grammar" "ps_match P = tree_answer embedded_grammar"
    using assms(1,2) by (auto simp: choose_matcher_def)
  show ?thesis
  proof (rule read_texts [OF p(1) assms(3)])
    fix rule out assume "ps_match P rule raw = Some out"
    then obtain e where "tree_match embedded_grammar rule raw = (True, out, e)"
      by (auto simp: p(2) tree_answer_def Let_def split: prod.splits if_splits)
    then show "\<exists>i cs. yields embedded_grammar i raw cs \<and> out = captured embedded_grammar cs"
      using tree_match_found [OF embedded_wf embedded_counts_ok(1)] by blast
  qed
qed

theorem embedded_fields_safe_witness:
  "parameters_text (m_params nick_message) \<and> field_text ''newnick'' (m_field_at nick_message ''newnick'' 0) \<and>
   m_field_at nick_message ''newnick'' 0 = ''bob''"
proof -
  obtain P answer where P: "initGrammar (\<lambda>_. None) None None = Some (Inr P)" "ps_grammar P = embedded_grammar"
    "choose_matcher None embedded_grammar = Some (Inr answer)" "ps_match P = answer"
    by (rule embedded_start)
  have "ps_commandRules P = bindCommandRules (ps_grammar P)" by (rule initGrammar_parts [OF P(1)])
  then have "read_message P ''NICK bob'' = Some nick_message"
    using P by (intro nick_read) (simp_all add: choose_matcher_def del: embedded_fields)
  then show ?thesis using embedded_fields_safe [OF P(1)] nick_field by blast
qed

end
