(* ===== verification/Spec2Isabelle.thy ===== *)
theory Spec2Isabelle
  imports Channel_Properties Service_Properties Session_Effects Grammar_Properties
    Program_Properties Embedded_Properties
begin

text \<open>
  A model of ft_irc, an IRC server in C++98 (\<open>src/\<close>, \<open>include/\<close>): one process, one event
  loop, clients and channels in tables, a line parser driven by an ABNF grammar, and
  extensions (bot, file transfer, audit log) behind an interface.

  \<^bold>\<open>How the parts fit together.\<close>  \<open>Server::run\<close> waits for ready descriptors, accepts, reads,
  writes and checks timeouts (\<open>Event_Loop\<close>).  The bytes of a client are cut into messages
  (\<open>Client_Model\<close>); a message is matched against the grammar, which yields the fields of a
  \<open>Message\<close> (\<open>Message_Fields\<close>), and dispatched to a handler (\<open>Dispatch\<close>).  Handlers change the
  world, one record with the client table, the channel table, the extensions, the interest
  masks, the clock and the traffic counters (\<open>World\<close>), and queue replies in the clients'
  sockets.

  \<^bold>\<open>Theories.\<close>
  \<^item> \<open>Prelude\<close>: the ordered containers of the C++ library as lists, with their locale.
  \<^item> \<open>LibCpp\<close>: \<open>vendor/libcpp\<close> is a git submodule, so its functions are a parameter of the
    model, the record \<open>libcpp\<close>; what the code relies on are the laws \<open>casemap_law\<close>,
    \<open>parse_law\<close>, \<open>split_law\<close>, \<open>consttime_law\<close> and \<open>next_line_law\<close>.  \<open>mini_lib\<close> is an instance that
    satisfies them, on which the witnesses run.
  \<^item> \<open>Log_Trace\<close> (\<open>Log.cpp\<close>, \<open>IrcTrace.cpp\<close>), \<open>Replies\<close> (\<open>Replies.hpp\<close>), \<open>Channel_Model\<close>
    (\<open>Channel.cpp\<close>), \<open>Client_Model\<close> (\<open>Client.cpp\<close>), \<open>World\<close> (\<open>Server.hpp\<close> and the lookups of
    \<open>Server.cpp\<close>), \<open>Delivery\<close> (who gets which line).
  \<^item> \<open>Extensions\<close> (\<open>IServerExtension.hpp\<close> as a locale), \<open>Bot_Ext\<close> (\<open>Bot.cpp\<close>), \<open>File_Transfer\<close>
    (\<open>bonus/FileTransferExt.cpp\<close>).
  \<^item> \<open>Server_Inv\<close>: the invariant \<open>world_ok\<close> and the kinds of change that keep it;
    \<open>Disconnect\<close>, \<open>Registration\<close>, \<open>Channel_Commands\<close>, \<open>Mode_Lines\<close>, \<open>Operator_Commands\<close>,
    \<open>Messaging_Commands\<close>: the handlers of \<open>Command*.cpp\<close>, each with the proof that it keeps the
    invariant; \<open>Dispatch\<close>, \<open>Event_Loop\<close>: the rest of \<open>Server.cpp\<close>.
  \<^item> \<open>Command_Effects\<close>: an abstract specification of the channel commands;
    \<open>Session_Effects\<close>: what becomes of a connection.
  \<^item> \<open>Abnf_Reader\<close> (\<open>grammar/AbnfLineReader.cpp\<close>, \<open>AbnfChars.cpp\<close>), \<open>Grammar_Builder\<close>
    (\<open>grammar/GrammarBuilder.cpp\<close>): the ABNF parser; \<open>Builder_Correct\<close>: it builds well-formed
    arenas.  \<open>Grammar_Validator\<close> (\<open>grammar/GrammarValidator.cpp\<close>); \<open>Validator_Correct\<close>: it
    decides nullability and left recursion.  \<open>Start_Up\<close>: the embedded grammar and
    \<open>Server::initGrammar\<close>; \<open>Start_Correct\<close>: what it hands to \<open>Dispatch\<close>.
  \<^item> \<open>Grammar_Language\<close> (\<open>grammar/Grammar.cpp\<close>): the arena of a grammar and the language of a
    node with its captures, \<open>yields\<close>, the specification of both matchers.
  \<^item> \<open>Single_Octet\<close>, \<open>Tree_Matcher\<close> (\<open>grammar/interpreted/TreeMatcher.cpp\<close>): the backtracking
    matcher; \<open>Octet_Memo\<close>: its caches, of which the compiler has one too, change no answer;
    \<open>Tree_Correct\<close>: it is sound and, within its limits, complete for \<open>yields\<close>.
  \<^item> \<open>Program_Compiler\<close>, \<open>Program_Machine\<close> (\<open>grammar/compiled/\<close>): rules compiled to programs and
    the machine that runs them.  \<open>Compiler_Segments\<close> and \<open>Compiler_Correct\<close> show that the
    code of a node has exactly the paths of its language, \<open>Compiler_Ranges\<close> that a program is
    well typed, \<open>Machine_Correct\<close> that the machine finds an accepting path when there is one,
    \<open>Compiler_Total\<close> that the compiler takes every rule of a grammar whose references lead down,
    whose loops capture nothing and whose counts are within the limit it unrolls to.
  \<^item> \<open>Grammar_Matchers\<close>: the interface \<open>IMatcher\<close> as a locale and both strategies as
    interpretations.
  \<^item> \<open>Embedded_Grammar\<close>: the arena the builder makes of the grammar the server carries
    (\<open>grammar/EmbeddedGrammarSource.cpp\<close>), shown line by line; \<open>Embedded_Language\<close>: that grammar is
    valid and meets the conditions of both matchers and of the compiler; \<open>Embedded_Fields\<close>:
    which of its captures are words and which are trailing text, and what the handlers can
    rely on; \<open>Embedded_Properties\<close>: the server starts with it and reads lines as it says.
  \<^item> \<open>Log_Sinks\<close> (\<open>Log.cpp\<close>, \<open>extras/FancyLogSink.cpp\<close>): the streams lines are written to.
    \<open>Program_Entry\<close> (\<open>main.cpp\<close>, \<open>tiers/\<close>, the constructor and destructor of \<open>Server\<close>): the
    program around the loop.
  \<^item> \<open>Demo\<close>, \<open>Grammar_Demo\<close>, \<open>Builder_Demo\<close>, \<open>Embedded_Demo\<close>: the states, grammars and texts the witnesses use.  The properties are in
    this theory (server), \<open>Channel_Properties\<close>, \<open>Service_Properties\<close>,
    \<open>Grammar_Properties\<close>, \<open>Embedded_Properties\<close> and \<open>Program_Properties\<close>.

  \<^bold>\<open>Correspondence.\<close>  A \<open>Client*\<close> is the descriptor of the client, a \<open>Channel*\<close> the key of the
  channel table.  The receive and send buffers are inside the socket value of type \<open>'io\<close>,
  which only the functions of \<open>libcpp\<close> touch.  The order of \<open>std::map\<close> is kept: the tables are
  sorted association lists.  The wall clock and the success of \<open>new\<close> are sequences the
  world reads one element at a time.  Events handed to \<open>run\<close> carry the results of the system
  calls (\<open>accept\<close>, \<open>recv\<close>, \<open>send\<close>).  Undefined behaviour is \<open>None\<close> or \<open>Undefined\<close> where
  it can be reached, and excluded by the invariant elsewhere.

  \<^bold>\<open>Bounds and fuel.\<close>  \<open>extract_loop\<close> is a partial function: \<open>None\<close> is a loop that does not
  end, excluded under \<open>next_line_law\<close>.  The tree matcher terminates by its limits
  \<open>kMaxDepth\<close> (256) and \<open>kMaxSteps\<close> (200000), both the code's.  The compiler terminates because a
  rule is not entered twice and children lie below their parents.  The recursion of
  \<open>addThread\<close> has fuel \<open>fuel_for\<close>, one more than the length of the program, which is enough
  since each level marks a new instruction.  That of \<open>memoSingleOctet\<close> is enough when it exceeds
  the number of nodes, since each level asks a new node.  The generation counter of
  the machine is a 32-bit \<open>int\<close>; \<open>pike_usable\<close> asks for room for the line.

  The parsers of \<open>Grammar_Builder\<close> have no fuel: their termination is proved from each
  element consuming at least one character (\<open>parsers_consume\<close>), that of the validator from the
  rules still free and the position in the arena.

  \<^bold>\<open>Not modelled.\<close>  The methods that only return a field (\<open>Client.cpp\<close>, \<open>Grammar.cpp\<close>), whose fields
  the record selectors are; \<open>registerExternalFd\<close> and \<open>unregisterExternalFd\<close> of \<open>Server\<close>, which
  nothing in the repository calls; the installation of the signal handlers (a signal is the
  end of the list of polls); the formatting of times by \<open>strftime\<close>; \<open>src/vendor/PostMan\<close>, which
  is third-party code, and \<open>vendor/libcpp\<close>, which is a parameter.
\<close>

section \<open>The server as a whole\<close>

text \<open>
  C1.  The invariant of the server holds at the head of every iteration of its loop: the
  client table is keyed by descriptor, every client's fields fit together (a nickname that
  was accepted is valid, short, unique under case folding and not reserved by an extension;
  a registered client gave the password), every channel is stored under its folded name, has
  members, and only connected registered clients as members and invited, the extensions'
  states are well formed and the interest masks cover exactly the clients.  Moreover no
  client that is being closed is asked for input, which the loop relies on.
\<close>

theorem reachable_invariant:
  assumes "reachable L P w" and "lib_ok L"
  shows "world_ok L w \<and> quiet w"
  by (rule reachable_ok [OF assms])

lemma demo_next_reachable: "reachable mini_lib demo_parser demo_next"
  by (rule reachable.step [OF demo_start_reachable demo_batch demo_next_run])

theorem reachable_invariant_witness: "world_ok mini_lib demo_next \<and> quiet demo_next"
  by (rule reachable_invariant [OF demo_next_reachable demo_lib_ok])

text \<open>
  C2.  No channel ever refers to a client that is gone: under the invariant each member,
  operator and invited client of each channel is in the client table under its own
  descriptor, registered, and neither being torn down nor waiting to be closed.
\<close>

theorem no_dangling_client:
  assumes "world_ok L w" and "map_of (w_channels w) k = Some ch"
    and "isMember ch f \<or> isOperator ch f \<or> isInvited ch f"
  shows "\<exists>c. map_of (w_clients w) f = Some c \<and> cl_fd c = f \<and> cl_registered c \<and> \<not> cl_tearingDown c \<and>
    \<not> cl_pendingClose c"
proof -
  have "f \<in> users w"
    using chan_wf_look [OF assms(1,2)] assms(3)
    by (auto simp: chan_wf_def chan_ok_def isMember_def isOperator_def isInvited_def)
  moreover obtain c where "map_of (w_clients w) f = Some c" using \<open>f \<in> users w\<close> by (auto simp: users_cl)
  ultimately show ?thesis
    using live_not_pending [OF assms(1), of f] world_ok_fd [OF assms(1), of f] users_liveD [of f w]
    by (auto simp: users_cl cl_def)
qed

theorem no_dangling_client_witness:
  "\<exists>c. map_of (w_clients demo_world) 5 = Some c \<and> cl_fd c = 5 \<and> cl_registered c \<and> \<not> cl_tearingDown c \<and>
    \<not> cl_pendingClose c"
  by (rule no_dangling_client [OF demo_ok, of "''#c''" demo_channel])
    (simp_all add: demo_channels demo_channel_def isMember_def)

section \<open>Who is who\<close>

text \<open>
  C3.  A nickname finds its owner and nobody else: the first match of the walk over the
  client table is the one registered client whose nickname equals the name under case
  folding, and there is an answer whenever there is such a client.
\<close>

theorem nickname_lookup:
  assumes "world_ok L w" and "casemap_law L"
  shows "findClientByNick L n w = Some f \<longleftrightarrow> f \<in> users w \<and> ircEquals L (nick_of w f) n"
  by (rule findClientByNick_iff [OF assms])

theorem nickname_lookup_witness: "findClientByNick mini_lib ''BOB'' demo_world = Some 5"
proof -
  have "ircEquals mini_lib ''bob'' ''BOB''" unfolding ircEquals_def by code_simp
  then show ?thesis
    by (subst nickname_lookup [OF demo_ok mini_casemap]) (simp add: demo_live demo_cl demo_conn_def)
qed

text \<open>
  C4.  Nobody is registered without the password: after \<open>completeRegistration\<close> the client
  is a registered one exactly when it sent a password and that password is the server's;
  a client that is refused is taken down, and no other client's registration changes.
\<close>

theorem registration_needs_password:
  assumes "world_ok L w" and "f \<in> live w"
  shows "users (completeRegistration L f w) - {f} = users w - {f} \<and>
    (f \<in> users (completeRegistration L f w) \<longleftrightarrow>
       cl_passSent (cl w f) \<and> lc_eq_consttime L (cl_password (cl w f)) (w_password w))"
  using completeRegistration_effect [OF assms] by blast

theorem registration_needs_password_witness:
  "users (completeRegistration mini_lib 6 demo_world) = {4, 5}"
proof -
  have c: "6 \<in> live demo_world" "\<not> cl_passSent (cl demo_world 6)"
    by (simp_all add: demo_live demo_cl demo_carol_def newClient_def)
  have "users (completeRegistration mini_lib 6 demo_world) - {6} = users demo_world - {6}"
      "6 \<notin> users (completeRegistration mini_lib 6 demo_world)"
    using registration_needs_password [OF demo_ok c(1)] c(2) by blast+
  then have "users (completeRegistration mini_lib 6 demo_world) = users demo_world - {6}" by blast
  then show ?thesis by (simp add: demo_live)
qed

text \<open>
  C5.  Before registration only \<open>CAP\<close>, \<open>PASS\<close>, \<open>NICK\<close>, \<open>USER\<close>, \<open>QUIT\<close> and
  \<open>PONG\<close> are carried out: whatever else an unregistered client sends, known command or
  not, gets the numeric 451 and nothing more.
\<close>

theorem unregistered_is_refused:
  fixes w :: "'io world"
  assumes "\<not> cl_registered (cl w f)"
    and "m_command msg \<notin> {''CAP'', ''PASS'', ''NICK'', ''USER'', ''QUIT'', ''PONG''}"
  shows "dispatchCommand L f msg w = sendReply L f ERR_NOTREGISTERED '':You have not registered'' w"
proof (cases "findCommand (m_command msg) :: (string \<times> ('io libcpp \<Rightarrow> fd \<Rightarrow> message \<Rightarrow> 'io world \<Rightarrow> 'io world) \<times> bool) option")
  case None
  then show ?thesis using assms(1) by (simp add: dispatchCommand_def)
next
  case (Some entry)
  obtain n h r where entry: "entry = (n, h, r)" by (cases entry) auto
  have e: "(n, h, r) \<in> set kCommands" "n = m_command msg" using findCommand_in Some entry by blast+
  have "(n, r) \<in> set (map (\<lambda>(n, h, r). (n, r)) (kCommands :: (string \<times> ('io libcpp \<Rightarrow> fd \<Rightarrow> message \<Rightarrow> 'io world \<Rightarrow> 'io world) \<times> bool) list))"
    using e(1) by force
  then have r using assms(2) e(2) by (auto simp: kCommands_def)
  then show ?thesis using assms(1) by (simp add: dispatchCommand_def Some entry)
qed

theorem unregistered_is_refused_witness:
  "dispatchCommand mini_lib 6 (demo_plain ''JOIN'' [''#c'']) demo_world =
   sendReply mini_lib 6 ERR_NOTREGISTERED '':You have not registered'' demo_world"
  by (rule unregistered_is_refused) (simp_all add: demo_cl demo_carol_def newClient_def)

text \<open>
  C6.  A \<open>NICK\<close> that is refused (no name, a malformed one, one in use or reserved)
  changes no client, channel or extension; one that is accepted for a registered client
  tells the client and each of its neighbours the change under the old prefix, and then
  sets the name, cut to \<open>NICKLEN\<close>.
\<close>

theorem nick_command:
  "(\<not> nick_accepted L f msg w \<longrightarrow> core (cmdNick L f msg w) = core w) \<and>
   (nick_accepted L f msg w \<and> cl_registered (cl w f) \<longrightarrow>
      cmdNick L f msg w =
        (let m = '':'' @ getPrefix (cl w f) @ '' NICK :'' @ wanted_nick msg
         in upd_client f (\<lambda>c. c\<lparr>cl_nickname := wanted_nick msg\<rparr>)
              (broadcastToChannels L f m (queueMessage L f m w))))"
  using cmdNick_refused [of L f msg w] cmdNick_registered [of L f msg w] by (auto simp: Let_def)

theorem nick_command_witness:
  "cmdNick mini_lib 5 (demo_plain ''NICK'' [''Al'']) demo_world =
     (let m = '':'' @ getPrefix (cl demo_world 5) @ '' NICK :Al''
      in upd_client 5 (\<lambda>c. c\<lparr>cl_nickname := ''Al''\<rparr>)
           (broadcastToChannels mini_lib 5 m (queueMessage mini_lib 5 m demo_world)))"
proof -
  let ?msg = "demo_plain ''NICK'' [''Al'']"
  have n: "wanted_nick ?msg = ''Al''" by (simp add: wanted_nick_def limit_defs)
  have "\<not> ircEquals mini_lib ''alice'' ''Al''" "\<not> ircEquals mini_lib ''*'' ''Al''"
      "\<not> ircEquals mini_lib ''Al'' bot_nickname" "isValidNickname ''Al''"
    unfolding ircEquals_def by code_simp+
  then have a: "nick_accepted mini_lib 5 ?msg demo_world"
    by (simp add: nick_accepted_def n isNickInUse_def nick_reserved_def ext_reservesNick_def bot_reservesNick_def
        demo_world_def demo_conn_def demo_carol_def newClient_def)
  have "cl_registered (cl demo_world 5)" by (simp add: demo_cl demo_conn_def)
  then show ?thesis using nick_command [of mini_lib 5 ?msg demo_world] a by (simp add: n)
qed

section \<open>How a connection ends\<close>

text \<open>
  C7.  Disconnecting takes a client out everywhere and touches nobody else: after
  \<open>disconnectClientNow\<close> it is in no table, every channel has lost it as member, operator
  and invited client (and is gone if that leaves it empty), every other user is still one,
  and the invariant holds.
\<close>

theorem disconnect_removes_everywhere:
  fixes reason :: string
  assumes "world_ok L w" and "f \<in> live w"
  defines "w' \<equiv> disconnectClientNow L f reason w"
  shows "world_ok L w' \<and> map_of (w_clients w') f = None \<and> users w' = users w - {f} \<and>
    (\<forall>k. map_of (w_channels w') k = Option.bind (map_of (w_channels w) k) (strip f))"
  using disconnectClientNow_ok [OF assms(1), of f reason] disconnectClientNow_channels [OF assms(1,2), of reason]
  by (simp add: w'_def)

theorem disconnect_removes_everywhere_witness:
  "map_of (w_channels (disconnectClientNow mini_lib 4 ''bye'' demo_world)) ''#c'' =
     Some (demo_channel\<lparr>ch_members := [5], ch_operators := {}\<rparr>)"
  using disconnect_removes_everywhere [OF demo_ok, of 4 "''bye''"]
  by (simp add: demo_live demo_channels strip_def demo_channel_def Let_def removeInvite_def removeMember_def isMember_def
      isEmpty_def os_del_def)

text \<open>
  C8.  The sweep of deferred closes deletes exactly the clients that have been waiting for
  the configured time or longer.
\<close>

theorem pending_close_sweep:
  assumes "world_ok L w"
  shows "map_of (w_clients (checkPendingCloseTimeouts w)) f =
    (case map_of (w_clients w) f of
       None \<Rightarrow> None
     | Some c \<Rightarrow> if cl_pendingClose c \<and> w_closeTimeout w \<le> w_clock w (w_ticks w) - cl_pendingCloseSince c
                then None else Some c)"
  by (rule pendingClose_sweep [OF assms])

theorem pending_close_sweep_witness:
  "map_of (w_clients (checkPendingCloseTimeouts demo_world)) 6 = Some demo_carol"
  by (subst pending_close_sweep [OF demo_ok]) (simp add: demo_world_def demo_carol_def newClient_def)

section \<open>The loop\<close>

text \<open>
  C9.  An iteration of the event loop always comes back: if the buffered socket yields
  finitely many lines (each line it returns makes its input smaller) and \<open>epoll\<close> accepts
  every new connection, then \<open>run\<close> processes the whole batch and reaches the next
  \<open>epoll_wait\<close>, whatever the clients have sent.
\<close>

theorem iteration_returns:
  assumes "next_line_law L size_in" and "\<forall>ev \<in> set evs. \<not> epoll_refused ev"
  shows "\<exists>w'. run_iteration L P evs w = Some w'"
  using handleAllReady_total [OF assms, of P w] by (auto simp: run_iteration_def Let_def case_prod_beta)

theorem iteration_returns_witness:
  "\<exists>w'. run_iteration mini_lib demo_parser [ReadyClient 4 EPOLLIN (RecvData [CHR 0x41, CHR 0x0D, CHR 0x0A]) 0]
          demo_world = Some w'"
  by (rule iteration_returns [OF mini_next_law]) simp

end
